(* ===== verification/Prelude.thy ===== *)
theory Prelude
  imports Main "HOL-Library.Monad_Syntax" "HOL-Library.Multiset"
begin

text \<open>
  Shared vocabulary of the development.

  \<^item> Machine integers are natural numbers with the wrap-around written out (\<open>wrap8\<close>,
    \<open>wrap16\<close>, \<open>wrap32\<close>, \<open>wrap64\<close>, and the modular subtractions \<open>sub32\<close>, \<open>sub64\<close>).
  \<^item> A computation that may have undefined behaviour (an access outside an array) or that may
    loop forever has an \<open>option\<close> result: \<open>None\<close> is "no defined result". Arrays are lists
    and are read and written only through \<open>aget\<close> and \<open>aset\<close>, strings through \<open>sget\<close>.
  \<^item> A computation that may call \<open>exit\<close> returns \<open>exit_status + 'a\<close> (\<open>Inl\<close> for the exit).
  \<^item> A counting loop of the source is a \<open>foldM\<close> over the list of its index values. Its rule
    \<open>foldM_total\<close> is the total-correctness rule of such a loop: an invariant over the
    processed prefix that each iteration keeps gives both that the loop returns and what it
    returns.
\<close>

section \<open>Machine integers\<close>

definition wrap8 :: "nat \<Rightarrow> nat" where "wrap8 x = x mod 2 ^ 8"
definition wrap16 :: "nat \<Rightarrow> nat" where "wrap16 x = x mod 2 ^ 16"
definition wrap32 :: "nat \<Rightarrow> nat" where "wrap32 x = x mod 2 ^ 32"
definition wrap64 :: "nat \<Rightarrow> nat" where "wrap64 x = x mod 2 ^ 64"

text \<open>Unsigned subtraction at 32 and at 64 bits.\<close>

definition sub32 :: "nat \<Rightarrow> nat \<Rightarrow> nat" where
  "sub32 a b = wrap32 (a + (2 ^ 32 - wrap32 b))"

definition sub64 :: "nat \<Rightarrow> nat \<Rightarrow> nat" where
  "sub64 a b = wrap64 (a + (2 ^ 64 - wrap64 b))"

text \<open>Conversion of a non-negative value to \<open>int16_t\<close> (two's complement).\<close>

definition to_int16 :: "nat \<Rightarrow> int" where
  "to_int16 x = (if wrap16 x < 2 ^ 15 then int (wrap16 x) else int (wrap16 x) - 2 ^ 16)"

text \<open>\<open>UINT8_MAX\<close> and \<open>UINT32_MAX\<close>.\<close>

abbreviation u8_max :: nat where "u8_max \<equiv> 255"
abbreviation u32_max :: nat where "u32_max \<equiv> 4294967295"

named_theorems wrap_simps

lemma wrap8_small [wrap_simps]: "x < 256 \<Longrightarrow> wrap8 x = x"
  by (simp add: wrap8_def)

lemma wrap16_small [wrap_simps]: "x < 65536 \<Longrightarrow> wrap16 x = x"
  by (simp add: wrap16_def)

lemma wrap32_small [wrap_simps]: "x < 4294967296 \<Longrightarrow> wrap32 x = x"
  by (simp add: wrap32_def)

lemma wrap64_small [wrap_simps]: "x < 18446744073709551616 \<Longrightarrow> wrap64 x = x"
  by (simp add: wrap64_def)

lemma sub32_small [wrap_simps]: "b \<le> a \<Longrightarrow> a < 4294967296 \<Longrightarrow> sub32 a b = a - b"
  by (simp add: sub32_def wrap32_def mod_if)

lemma sub64_small [wrap_simps]:
  "b \<le> a \<Longrightarrow> a < 18446744073709551616 \<Longrightarrow> sub64 a b = a - b"
  by (simp add: sub64_def wrap64_def mod_if)

lemma to_int16_small [wrap_simps]: "x < 32768 \<Longrightarrow> to_int16 x = int x"
  by (simp add: to_int16_def wrap16_def)

section \<open>Exits\<close>

datatype exit_status = Exit int

section \<open>Arrays and strings\<close>

definition aget :: "'a list \<Rightarrow> nat \<Rightarrow> 'a option" where
  "aget xs i = (if i < length xs then Some (xs ! i) else None)"

definition aset :: "'a list \<Rightarrow> nat \<Rightarrow> 'a \<Rightarrow> 'a list option" where
  "aset xs i v = (if i < length xs then Some (xs[i := v]) else None)"

text \<open>
  \<open>std::u16string::operator[]\<close> on a constant string: the position just after the last
  character reads as the null character, anything further is undefined.
\<close>

definition sget :: "nat list \<Rightarrow> nat \<Rightarrow> nat option" where
  "sget xs i = (if i < length xs then Some (xs ! i) else if i = length xs then Some 0 else None)"

lemma aget_in [simp]: "i < length xs \<Longrightarrow> aget xs i = Some (xs ! i)"
  by (simp add: aget_def)

lemma aset_in [simp]: "i < length xs \<Longrightarrow> aset xs i v = Some (xs[i := v])"
  by (simp add: aset_def)

lemma sget_in [simp]: "i < length xs \<Longrightarrow> sget xs i = Some (xs ! i)"
  by (simp add: sget_def)

lemma aget_Some_iff: "aget xs i = Some x \<longleftrightarrow> i < length xs \<and> x = xs ! i"
  by (auto simp: aget_def)

lemma aset_Some_iff: "aset xs i v = Some ys \<longleftrightarrow> i < length xs \<and> ys = xs[i := v]"
  by (auto simp: aset_def)

section \<open>Counting loops\<close>

primrec foldM :: "('s \<Rightarrow> 'a \<Rightarrow> 's option) \<Rightarrow> 's \<Rightarrow> 'a list \<Rightarrow> 's option" where
  "foldM f s [] = Some s"
| "foldM f s (x # xs) = do { s' \<leftarrow> f s x; foldM f s' xs }"

lemma foldM_append: "foldM f s (xs @ ys) = do { s' \<leftarrow> foldM f s xs; foldM f s' ys }"
  by (induction xs arbitrary: s) (auto split: Option.bind_splits)

lemma foldM_total:
  assumes "I [] s"
    and "\<And>pre x post s. xs = pre @ x # post \<Longrightarrow> I pre s \<Longrightarrow>
      \<exists>s'. f s x = Some s' \<and> I (pre @ [x]) s'"
  shows "\<exists>s'. foldM f s xs = Some s' \<and> I xs s'"
proof -
  have "\<exists>s'. foldM f s ys = Some s' \<and> I (pre @ ys) s'"
    if "xs = pre @ ys" and "I pre s" for pre ys s
    using that
  proof (induction ys arbitrary: pre s)
    case Nil
    then show ?case by simp
  next
    case (Cons y ys)
    from assms(2) [OF Cons.prems] obtain s' where s': "f s y = Some s'" "I (pre @ [y]) s'"
      by blast
    from Cons.prems(1) have "xs = (pre @ [y]) @ ys" by simp
    from Cons.IH [OF this s'(2)] s'(1) show ?case by simp
  qed
  from this [of "[]" xs s] assms(1) show ?thesis by simp
qed

text \<open>The same rule for a loop over \<open>[a..<b]\<close>, with the invariant over the loop counter.\<close>

lemma foldM_upt:
  assumes "a \<le> b" and "I a s"
    and "\<And>i s. a \<le> i \<Longrightarrow> i < b \<Longrightarrow> I i s \<Longrightarrow> \<exists>s'. f s i = Some s' \<and> I (Suc i) s'"
  shows "\<exists>s'. foldM f s [a..<b] = Some s' \<and> I b s'"
proof -
  have "\<exists>s'. foldM f s [a..<b] = Some s' \<and> I (a + length [a..<b]) s'"
  proof (rule foldM_total)
    show "I (a + length ([] :: nat list)) s" using assms(2) by simp
  next
    fix pre x post s
    assume split: "[a..<b] = pre @ x # post" and inv: "I (a + length pre) s"
    from split have len: "length pre < length [a..<b]" by simp
    from split have "[a..<b] ! length pre = x" by simp
    with len have "x = a + length pre" by simp
    with assms(3) [of x s] inv len
    show "\<exists>s'. f s x = Some s' \<and> I (a + length (pre @ [x])) s'" by simp
  qed
  with assms(1) show ?thesis by simp
qed

text \<open>A property every iteration keeps holds after a loop that returns.\<close>

lemma foldM_invariant:
  assumes "foldM f s xs = Some s'" and "I s"
    and "\<And>x s s'. x \<in> set xs \<Longrightarrow> I s \<Longrightarrow> f s x = Some s' \<Longrightarrow> I s'"
  shows "I s'"
  using assms
proof (induction xs arbitrary: s)
  case Nil
  then show ?case by simp
next
  case (Cons x xs)
  from Cons.prems(1) obtain t where t: "f s x = Some t" "foldM f t xs = Some s'"
    by (auto simp: bind_eq_Some_conv)
  show ?case
  proof (rule Cons.IH [OF t(2)])
    show "I t" using Cons.prems(3) [OF _ Cons.prems(2) t(1)] by simp
    show "I b" if "y \<in> set xs" "I a" "f a y = Some b" for y a b
      using Cons.prems(3) [of y a b] that by simp
  qed
qed

lemma foldM_cong:
  "(\<And>s x. x \<in> set xs \<Longrightarrow> f s x = g s x) \<Longrightarrow> foldM f s xs = foldM g s xs"
proof (induction xs arbitrary: s)
  case Nil
  then show ?case by simp
next
  case (Cons x xs)
  then have "f s x = g s x" and "\<And>t. foldM f t xs = foldM g t xs" by simp_all
  then show ?case by simp
qed

text \<open>A loop with an iteration that is undefined in every state is undefined.\<close>

lemma foldM_undefined:
  assumes "x \<in> set xs" and "\<And>s. f s x = None"
  shows "foldM f s xs = None"
  using assms(1)
proof (induction xs arbitrary: s)
  case Nil
  then show ?case by simp
next
  case (Cons y ys)
  then show ?case using assms(2) by (cases "f s y") auto
qed

text \<open>A loop whose body may also exit.\<close>

primrec foldX ::
  "('s \<Rightarrow> 'a \<Rightarrow> (exit_status + 's) option) \<Rightarrow> 's \<Rightarrow> 'a list \<Rightarrow> (exit_status + 's) option" where
  "foldX f s [] = Some (Inr s)"
| "foldX f s (x # xs) = do {
     r \<leftarrow> f s x;
     case r of Inl e \<Rightarrow> Some (Inl e) | Inr s' \<Rightarrow> foldX f s' xs }"

lemma foldX_foldl:
  assumes "\<And>s x. x \<in> set xs \<Longrightarrow> f s x = Some (Inr (g s x))"
  shows "foldX f s xs = Some (Inr (foldl g s xs))"
  using assms by (induction xs arbitrary: s) simp_all

section \<open>Lists\<close>

lemma take_Suc_zip:
  "i < length xs \<Longrightarrow> i < length ys \<Longrightarrow>
    take (Suc i) (zip xs ys) = take i (zip xs ys) @ [(xs ! i, ys ! i)]"
  by (simp add: take_Suc_conv_app_nth)

end
