(* ===== verification/Stripe.thy ===== *)
theory Stripe
  imports Prelude
begin

text \<open>
  The class \<open>Stripe\<close> (include/stripe.hh, src/stripe.cc): the placement of one stripe's data
  and parity chunks on nodes, the cost of merging two stripes into one wide stripe
  (\<open>compute_cost\<close>), and the generator of random placements. The static members
  \<open>node_num\<close>, \<open>rs_k\<close> and \<open>rs_m\<close> are a record \<open>stripe_params\<close> passed to the operations
  that read them. \<open>std::shuffle\<close> with a freshly seeded engine is a parameter: a function from
  the call's number to a reordering.

  The abstract side is \<open>merge_cost\<close>: \<open>merged_hosts\<close> is the set of nodes that hold a chunk
  after the merge, and the cost is the number of chunks that find their node taken plus the
  number of parity chunks that have to be brought together.
\<close>

section \<open>State and operations\<close>

record stripe_params =
  node_num :: nat
  rs_k :: nat
  rs_m :: nat

record stripe =
  stripe_index :: nat
  matching_index :: nat
  cur_cost :: nat
  parity_dist :: "nat list"
  data_dist :: "nat list"
  selected :: bool

text \<open>The constructor \<open>Stripe::Stripe\<close>, \<open>set_params\<close>, \<open>set_info\<close> and \<open>cmp_pairty\<close>.\<close>

definition new_stripe :: stripe where
  "new_stripe = \<lparr>stripe_index = u32_max, matching_index = u32_max, cur_cost = u8_max,
     parity_dist = [], data_dist = [], selected = False\<rparr>"

definition set_params :: "nat \<Rightarrow> nat \<Rightarrow> nat \<Rightarrow> stripe_params" where
  "set_params n k m = \<lparr>node_num = n, rs_k = k, rs_m = m\<rparr>"

text \<open>\<open>u16string::assign(src, n)\<close> copies \<open>n\<close> characters; the source array must hold them.\<close>

definition assign_chars :: "nat list \<Rightarrow> nat \<Rightarrow> nat list option" where
  "assign_chars src n = (if n \<le> length src then Some (take n src) else None)"

definition set_info :: "stripe_params \<Rightarrow> stripe \<Rightarrow> nat \<Rightarrow> nat list \<Rightarrow> nat list \<Rightarrow> stripe option" where
  "set_info p s idx data_src parity_src = do {
     d \<leftarrow> assign_chars data_src (rs_k p);
     q \<leftarrow> assign_chars parity_src (rs_m p);
     Some (s\<lparr>stripe_index := idx, data_dist := d, parity_dist := q\<rparr>)
   }"

definition cmp_pairty :: "stripe \<Rightarrow> stripe \<Rightarrow> bool" where
  "cmp_pairty a b \<longleftrightarrow> parity_dist a = parity_dist b"

text \<open>
  \<open>compute_cost\<close>. The local state is the array \<open>flag\<close> (one boolean per node) and the
  8-bit counter \<open>cost\<close>. \<open>touch\<close> is the repeated statement
  \<open>if (flag[h]) ++cost; else flag[h] = true;\<close>.
\<close>

definition touch :: "bool list \<times> nat \<Rightarrow> nat \<Rightarrow> (bool list \<times> nat) option" where
  "touch st h = (case st of (flag, cost) \<Rightarrow> do {
     f \<leftarrow> aget flag h;
     if f then Some (flag, wrap8 (cost + 1))
     else do { flag' \<leftarrow> aset flag h True; Some (flag', cost) }
   })"

definition data_step :: "stripe \<Rightarrow> stripe \<Rightarrow> bool list \<times> nat \<Rightarrow> nat \<Rightarrow> (bool list \<times> nat) option" where
  "data_step a b st i = do {
     x \<leftarrow> sget (data_dist a) i;
     st1 \<leftarrow> touch st x;
     y \<leftarrow> sget (data_dist b) i;
     touch st1 y
   }"

definition parity_step :: "stripe \<Rightarrow> stripe \<Rightarrow> bool list \<times> nat \<Rightarrow> nat \<Rightarrow> (bool list \<times> nat) option" where
  "parity_step a b st i = (case st of (flag, cost) \<Rightarrow> do {
     x \<leftarrow> sget (parity_dist a) i;
     y \<leftarrow> sget (parity_dist b) i;
     if x = y then touch (flag, cost) x
     else do {
       f \<leftarrow> aget flag x;
       touch (flag, wrap8 (cost + 1)) (if f then y else x)
     }
   })"

definition compute_cost :: "stripe_params \<Rightarrow> stripe \<Rightarrow> stripe \<Rightarrow> nat option" where
  "compute_cost p a b = do {
     st \<leftarrow> foldM (data_step a b) (replicate (node_num p) False, 0) [0..<rs_k p];
     st' \<leftarrow> foldM (parity_step a b) st [0..<rs_m p];
     Some (snd st')
   }"

text \<open>
  \<open>generate_random_distributions\<close>. The vector \<open>v\<close> of all nodes is reshuffled for every
  stripe (the shuffles accumulate); the first \<open>rs_k\<close> entries place the data, the next
  \<open>rs_m\<close> the parity. \<open>shuf i\<close> is the reordering of the \<open>i\<close>-th call of \<open>std::shuffle\<close>.
  The read index of the parity loop is an 8-bit counter.
\<close>

definition place_one :: "nat \<Rightarrow> nat \<Rightarrow> nat list \<Rightarrow> (nat list \<times> nat list) option" where
  "place_one k m v = do {
     d \<leftarrow> foldM (\<lambda>acc j. do { x \<leftarrow> aget v j; Some (acc @ [x]) }) [] [0..<k];
     q \<leftarrow> foldM (\<lambda>acc c. do { x \<leftarrow> aget v (wrap8 (k + c)); Some (acc @ [x]) }) [] [0..<m];
     Some (d, q)
   }"

definition generate_random_distributions ::
  "(nat \<Rightarrow> nat list \<Rightarrow> nat list) \<Rightarrow> nat \<Rightarrow> nat \<Rightarrow> nat \<Rightarrow> nat \<Rightarrow>
    (nat list \<times> nat list) list option" where
  "generate_random_distributions shuf nodes stripes_num k m = do {
     r \<leftarrow> foldM (\<lambda>(v, out) i. do {
            let v' = shuf i v;
            pl \<leftarrow> place_one k m v';
            Some (v', out @ [pl])
          }) ([0..<nodes], []) [0..<stripes_num];
     Some (snd r)
   }"

section \<open>What a merge costs\<close>

text \<open>
  The nodes in use after the parity chunks have been placed on top of \<open>F\<close>: an aligned
  parity chunk stays, a misaligned one goes to the first stripe's node unless that node is
  taken, and to the second stripe's node then.
\<close>

fun merged_hosts :: "nat set \<Rightarrow> (nat \<times> nat) list \<Rightarrow> nat set" where
  "merged_hosts F [] = F"
| "merged_hosts F ((x, y) # r) =
     merged_hosts (insert (if x \<noteq> y \<and> x \<in> F then y else x) F) r"

definition mismatches :: "(nat \<times> nat) list \<Rightarrow> nat" where
  "mismatches r = length (filter (\<lambda>(x, y). x \<noteq> y) r)"

definition parity_pairs :: "stripe \<Rightarrow> stripe \<Rightarrow> (nat \<times> nat) list" where
  "parity_pairs a b = zip (parity_dist a) (parity_dist b)"

definition data_hosts :: "stripe \<Rightarrow> stripe \<Rightarrow> nat set" where
  "data_hosts a b = set (data_dist a) \<union> set (data_dist b)"

text \<open>Overflowing chunks (chunks less nodes in use) plus misaligned parity chunks.\<close>

definition merge_cost :: "stripe_params \<Rightarrow> stripe \<Rightarrow> stripe \<Rightarrow> nat" where
  "merge_cost p a b =
     (2 * rs_k p + rs_m p - card (merged_hosts (data_hosts a b) (parity_pairs a b)))
     + mismatches (parity_pairs a b)"

definition valid_params :: "stripe_params \<Rightarrow> bool" where
  "valid_params p \<longleftrightarrow> rs_k p + rs_m p < 255"

definition valid_stripe :: "stripe_params \<Rightarrow> stripe \<Rightarrow> bool" where
  "valid_stripe p s \<longleftrightarrow>
     length (data_dist s) = rs_k p \<and> length (parity_dist s) = rs_m p \<and>
     distinct (data_dist s @ parity_dist s) \<and>
     (\<forall>h \<in> set (data_dist s @ parity_dist s). h < node_num p)"


section \<open>The cost loop computes the merge cost\<close>

definition marked :: "bool list \<Rightarrow> nat set" where
  "marked flag = {h. h < length flag \<and> flag ! h}"

lemma finite_marked [simp]: "finite (marked flag)"
  by (simp add: marked_def)

lemma marked_replicate [simp]: "marked (replicate n False) = {}"
  by (auto simp: marked_def)

lemma marked_update: "h < length flag \<Longrightarrow> marked (flag[h := True]) = insert h (marked flag)"
  by (auto simp: marked_def nth_list_update split: if_splits)

lemma marked_iff: "h < length flag \<Longrightarrow> h \<in> marked flag \<longleftrightarrow> flag ! h"
  by (simp add: marked_def)

text \<open>One \<open>touch\<close>: the node is marked, and cost plus marked nodes grows by exactly one.\<close>

lemma touch_total:
  assumes "h < length flag" and "cost < 255"
  shows "\<exists>flag' cost'. touch (flag, cost) h = Some (flag', cost') \<and>
    length flag' = length flag \<and> marked flag' = insert h (marked flag) \<and>
    cost' + card (marked flag') = cost + card (marked flag) + 1"
proof (cases "flag ! h")
  case True
  with assms have "insert h (marked flag) = marked flag"
    by (auto simp: marked_iff)
  with True assms show ?thesis by (simp add: touch_def wrap_simps)
next
  case False
  with assms have "card (insert h (marked flag)) = Suc (card (marked flag))"
    by (simp add: marked_iff)
  with False assms show ?thesis by (simp add: touch_def marked_update)
qed

lemma valid_stripe_lengths:
  assumes "valid_stripe p s"
  shows "length (data_dist s) = rs_k p" and "length (parity_dist s) = rs_m p"
  using assms by (simp_all add: valid_stripe_def)

lemma valid_stripe_hosts:
  assumes "valid_stripe p s"
  shows "i < rs_k p \<Longrightarrow> data_dist s ! i < node_num p"
    and "i < rs_m p \<Longrightarrow> parity_dist s ! i < node_num p"
  using assms by (auto simp: valid_stripe_def)

lemma set_take_Suc: "i < length xs \<Longrightarrow> set (take (Suc i) xs) = insert (xs ! i) (set (take i xs))"
  by (simp add: take_Suc_conv_app_nth)

lemma card_take_distinct: "distinct xs \<Longrightarrow> i \<le> length xs \<Longrightarrow> card (set (take i xs)) = i"
  by (simp add: distinct_card)

text \<open>The data loop: after \<open>i\<close> iterations the first \<open>i\<close> data nodes of both stripes are marked.\<close>

definition data_inv :: "stripe_params \<Rightarrow> stripe \<Rightarrow> stripe \<Rightarrow> nat \<Rightarrow> bool list \<times> nat \<Rightarrow> bool" where
  "data_inv p a b i st \<longleftrightarrow> (case st of (flag, cost) \<Rightarrow>
     length flag = node_num p \<and>
     marked flag = set (take i (data_dist a)) \<union> set (take i (data_dist b)) \<and>
     cost + card (marked flag) = 2 * i)"

lemma data_step_total:
  assumes "valid_params p" and a: "valid_stripe p a" and b: "valid_stripe p b"
    and i: "i < rs_k p" and inv: "data_inv p a b i st"
  shows "\<exists>st'. data_step a b st i = Some st' \<and> data_inv p a b (Suc i) st'"
proof -
  obtain flag cost where st: "st = (flag, cost)" by fastforce
  let ?x = "data_dist a ! i" and ?y = "data_dist b ! i"
  have len: "length (data_dist a) = rs_k p" "length (data_dist b) = rs_k p"
    using a b by (simp_all add: valid_stripe_lengths)
  have flag: "length flag = node_num p"
    "marked flag = set (take i (data_dist a)) \<union> set (take i (data_dist b))"
    "cost + card (marked flag) = 2 * i"
    using inv unfolding data_inv_def st prod.case by blast+
  have "distinct (data_dist a)" using a by (simp add: valid_stripe_def)
  then have "card (set (take i (data_dist a))) = i"
    using i len by (simp add: card_take_distinct)
  then have "i \<le> card (marked flag)"
    using flag(2) by (metis finite_marked card_mono Un_upper1)
  then have c: "cost < 254" using flag(3) i assms(1) by (simp add: valid_params_def)
  have hx: "?x < node_num p" and hy: "?y < node_num p"
    using i a b by (simp_all add: valid_stripe_hosts)
  obtain f1 c1 where t1: "touch (flag, cost) ?x = Some (f1, c1)" "length f1 = length flag"
    "marked f1 = insert ?x (marked flag)" "c1 + card (marked f1) = cost + card (marked flag) + 1"
    using touch_total [of ?x flag cost] hx flag(1) c by auto
  have "card (marked flag) \<le> card (marked f1)"
    using t1(3) by (metis card_mono finite_marked subset_insertI)
  then have c1: "c1 < 255" using t1(4) c by simp
  obtain f2 c2 where t2: "touch (f1, c1) ?y = Some (f2, c2)" "length f2 = length f1"
    "marked f2 = insert ?y (marked f1)" "c2 + card (marked f2) = c1 + card (marked f1) + 1"
    using touch_total [of ?y f1 c1] hy flag(1) t1(2) c1 by auto
  have "data_step a b st i = Some (f2, c2)"
    using t1(1) t2(1) i len st by (simp add: data_step_def)
  moreover have "data_inv p a b (Suc i) (f2, c2)"
    using t1 t2 flag i len by (auto simp: data_inv_def set_take_Suc)
  ultimately show ?thesis by blast
qed

text \<open>The parity loop. Every parity node of the first stripe ends up in use.\<close>

lemma merged_hosts_append:
  "merged_hosts F (r @ s) = merged_hosts (merged_hosts F r) s"
  by (induction F r rule: merged_hosts.induct) simp_all

lemma merged_hosts_mono: "F \<subseteq> merged_hosts F r"
  by (induction F r rule: merged_hosts.induct) auto

lemma merged_hosts_fst: "fst ` set r \<subseteq> merged_hosts F r"
proof (induction F r rule: merged_hosts.induct)
  case (1 F)
  then show ?case by simp
next
  case (2 F x y r)
  let ?G = "insert (if x \<noteq> y \<and> x \<in> F then y else x) F"
  have "x \<in> ?G" by auto
  then have "x \<in> merged_hosts ?G r" using merged_hosts_mono by blast
  with 2 show ?case by auto
qed

lemma finite_merged_hosts [simp]: "finite F \<Longrightarrow> finite (merged_hosts F r)"
  by (induction F r rule: merged_hosts.induct) auto

lemma mismatches_append [simp]: "mismatches (r @ s) = mismatches r + mismatches s"
  by (simp add: mismatches_def)

lemma mismatches_le: "mismatches r \<le> length r"
  by (simp add: mismatches_def)

lemma mismatches_simps [simp]:
  "mismatches [] = 0" "mismatches ((x, y) # r) = (if x \<noteq> y then 1 else 0) + mismatches r"
  by (simp_all add: mismatches_def)

lemma parity_pairs_nth:
  assumes "valid_stripe p a" and "valid_stripe p b"
  shows "length (parity_pairs a b) = rs_m p"
    and "i < rs_m p \<Longrightarrow> parity_pairs a b ! i = (parity_dist a ! i, parity_dist b ! i)"
  using assms by (simp_all add: parity_pairs_def valid_stripe_lengths)

lemma merged_card_ge:
  assumes a: "valid_stripe p a" and b: "valid_stripe p b" and "i \<le> rs_m p"
  shows "rs_k p + i \<le> card (merged_hosts (data_hosts a b) (take i (parity_pairs a b)))"
proof -
  let ?M = "merged_hosts (data_hosts a b) (take i (parity_pairs a b))"
  have len: "length (parity_dist a) = rs_m p" "length (parity_dist b) = rs_m p"
    using a b by (simp_all add: valid_stripe_lengths)
  have "map fst (take i (parity_pairs a b)) = take i (parity_dist a)"
    using len by (simp add: parity_pairs_def take_map [symmetric])
  then have "fst ` set (take i (parity_pairs a b)) = set (take i (parity_dist a))"
    by (metis set_map)
  then have sub: "set (data_dist a @ take i (parity_dist a)) \<subseteq> ?M"
    using merged_hosts_fst [of "take i (parity_pairs a b)" "data_hosts a b"]
      merged_hosts_mono [of "data_hosts a b" "take i (parity_pairs a b)"]
    by (auto simp: data_hosts_def)
  have "distinct (data_dist a @ take i (parity_dist a))"
    using a set_take_subset [of i "parity_dist a"] by (auto simp: valid_stripe_def)
  then have "card (set (data_dist a @ take i (parity_dist a))) = rs_k p + i"
    using distinct_card a assms(3) by (fastforce simp: valid_stripe_lengths)
  moreover have "finite ?M" by (simp add: data_hosts_def)
  ultimately show ?thesis using sub by (metis card_mono)
qed

definition parity_inv :: "stripe_params \<Rightarrow> stripe \<Rightarrow> stripe \<Rightarrow> nat \<Rightarrow> bool list \<times> nat \<Rightarrow> bool" where
  "parity_inv p a b i st \<longleftrightarrow> (case st of (flag, cost) \<Rightarrow>
     length flag = node_num p \<and>
     marked flag = merged_hosts (data_hosts a b) (take i (parity_pairs a b)) \<and>
     cost + card (marked flag) = 2 * rs_k p + i + mismatches (take i (parity_pairs a b)))"

lemma parity_step_total:
  assumes pv: "valid_params p" and a: "valid_stripe p a" and b: "valid_stripe p b"
    and i: "i < rs_m p" and inv: "parity_inv p a b i st"
  shows "\<exists>st'. parity_step a b st i = Some st' \<and> parity_inv p a b (Suc i) st'"
proof -
  obtain flag cost where st: "st = (flag, cost)" by fastforce
  let ?x = "parity_dist a ! i" and ?y = "parity_dist b ! i"
  let ?r = "take i (parity_pairs a b)"
  let ?d = "if ?x \<noteq> ?y \<and> flag ! ?x then ?y else ?x"
  let ?c = "if ?x = ?y then cost else cost + 1"
  have len: "length (parity_dist a) = rs_m p" "length (parity_dist b) = rs_m p"
    using a b by (simp_all add: valid_stripe_lengths)
  have flag: "length flag = node_num p" "marked flag = merged_hosts (data_hosts a b) ?r"
    "cost + card (marked flag) = 2 * rs_k p + i + mismatches ?r"
    using inv unfolding parity_inv_def st prod.case by blast+
  have "rs_k p + i \<le> card (marked flag)"
    using merged_card_ge [OF a b, of i] i flag(2) by simp
  moreover have "mismatches ?r \<le> i" using mismatches_le [of ?r] by simp
  ultimately have c: "cost < 254"
    using flag(3) i pv by (simp add: valid_params_def)
  have hx: "?x < node_num p" and hy: "?y < node_num p"
    using i a b by (simp_all add: valid_stripe_hosts)
  have snoc: "take (Suc i) (parity_pairs a b) = ?r @ [(?x, ?y)]"
    using len i by (simp add: parity_pairs_def take_Suc_zip)
  have fx: "flag ! ?x \<longleftrightarrow> ?x \<in> merged_hosts (data_hosts a b) ?r"
    using marked_iff [of ?x flag] hx flag by simp
  have dc: "?d < length flag" "?c < 255" using hx hy flag(1) c by simp_all
  obtain f1 c1 where t: "touch (flag, ?c) ?d = Some (f1, c1)" "length f1 = length flag"
    "marked f1 = insert ?d (marked flag)" "c1 + card (marked f1) = ?c + card (marked flag) + 1"
    using touch_total [OF dc] by blast
  have "parity_step a b st i = Some (f1, c1)"
    using t(1) i len st c hx flag(1) by (auto simp: parity_step_def wrap_simps)
  moreover have "parity_inv p a b (Suc i) (f1, c1)"
    using t flag snoc fx by (auto simp: parity_inv_def merged_hosts_append)
  ultimately show ?thesis by blast
qed

lemma card_merged_hosts_le: "finite F \<Longrightarrow> card (merged_hosts F r) \<le> card F + length r"
proof (induction F r rule: merged_hosts.induct)
  case (1 F)
  then show ?case by simp
next
  case (2 F x y r)
  let ?G = "insert (if x \<noteq> y \<and> x \<in> F then y else x) F"
  have "card ?G \<le> card F + 1" using 2(2) by (simp add: card_insert_if)
  with 2 show ?case by simp
qed

lemma card_data_hosts_le:
  assumes "valid_stripe p a" and "valid_stripe p b"
  shows "card (data_hosts a b) \<le> 2 * rs_k p"
proof -
  have "card (data_hosts a b) \<le> card (set (data_dist a)) + card (set (data_dist b))"
    unfolding data_hosts_def by (rule card_Un_le)
  also have "\<dots> \<le> length (data_dist a) + length (data_dist b)"
    by (intro add_mono card_length)
  finally show ?thesis using assms by (simp add: valid_stripe_lengths)
qed

lemma card_merged_le:
  assumes "valid_stripe p a" and "valid_stripe p b"
  shows "card (merged_hosts (data_hosts a b) (parity_pairs a b)) \<le> 2 * rs_k p + rs_m p"
  using card_merged_hosts_le [of "data_hosts a b" "parity_pairs a b"]
    card_data_hosts_le [OF assms] parity_pairs_nth(1) [OF assms]
  by (simp add: data_hosts_def)

lemma compute_cost_merge_cost:
  assumes pv: "valid_params p" and a: "valid_stripe p a" and b: "valid_stripe p b"
  shows "compute_cost p a b = Some (merge_cost p a b)"
proof -
  have len: "length (data_dist a) = rs_k p" "length (data_dist b) = rs_k p"
    using a b by (simp_all add: valid_stripe_lengths)
  have "data_inv p a b 0 (replicate (node_num p) False, 0)"
    by (simp add: data_inv_def)
  then obtain st where st: "foldM (data_step a b) (replicate (node_num p) False, 0) [0..<rs_k p]
      = Some st" "data_inv p a b (rs_k p) st"
    using foldM_upt [of 0 "rs_k p" "data_inv p a b" _ "data_step a b"]
      data_step_total [OF pv a b] by blast
  then have "parity_inv p a b 0 st"
    using len by (auto simp: data_inv_def parity_inv_def data_hosts_def)
  then obtain st' where st': "foldM (parity_step a b) st [0..<rs_m p] = Some st'"
      "parity_inv p a b (rs_m p) st'"
    using foldM_upt [of 0 "rs_m p" "parity_inv p a b" st "parity_step a b"]
      parity_step_total [OF pv a b] by blast
  obtain flag cost where fc: "st' = (flag, cost)" by fastforce
  let ?M = "merged_hosts (data_hosts a b) (parity_pairs a b)"
  have "take (rs_m p) (parity_pairs a b) = parity_pairs a b"
    using a b by (simp add: parity_pairs_nth)
  then have sum: "cost + card ?M = 2 * rs_k p + rs_m p + mismatches (parity_pairs a b)"
    using st'(2) fc unfolding parity_inv_def by auto
  have "card ?M \<le> 2 * rs_k p + rs_m p"
    by (rule card_merged_le [OF a b])
  with sum have "cost = merge_cost p a b" by (simp add: merge_cost_def)
  with st st' fc show ?thesis by (simp add: compute_cost_def)
qed


section \<open>Properties of the cost\<close>

lemma merge_cost_le:
  assumes a: "valid_stripe p a" and b: "valid_stripe p b"
  shows "merge_cost p a b \<le> rs_k p + rs_m p"
proof -
  have "take (rs_m p) (parity_pairs a b) = parity_pairs a b"
    using a b by (simp add: parity_pairs_nth)
  then have "rs_k p + rs_m p \<le> card (merged_hosts (data_hosts a b) (parity_pairs a b))"
    using merged_card_ge [OF a b, of "rs_m p"] by simp
  moreover have "mismatches (parity_pairs a b) \<le> rs_m p"
    using mismatches_le [of "parity_pairs a b"] a b by (simp add: parity_pairs_nth)
  ultimately show ?thesis by (simp add: merge_cost_def)
qed

lemma mismatches_0_iff:
  "length xs = length ys \<Longrightarrow> mismatches (zip xs ys) = 0 \<longleftrightarrow> xs = ys"
  by (induction xs ys rule: list_induct2) auto

lemma merged_hosts_aligned: "merged_hosts F (zip xs xs) = F \<union> set xs"
  by (induction xs arbitrary: F) auto

text \<open>
  A merge is free exactly when the parity chunks are pairwise co-located and the data chunks
  all sit on different nodes: the perfect merging of the scheme.
\<close>

definition perfect_merge :: "stripe \<Rightarrow> stripe \<Rightarrow> bool" where
  "perfect_merge a b \<longleftrightarrow>
     parity_dist a = parity_dist b \<and> set (data_dist a) \<inter> set (data_dist b) = {}"

lemma merge_cost_0_iff:
  assumes a: "valid_stripe p a" and b: "valid_stripe p b"
  shows "merge_cost p a b = 0 \<longleftrightarrow> perfect_merge a b"
proof (cases "parity_dist a = parity_dist b")
  case False
  then have "mismatches (parity_pairs a b) \<noteq> 0"
    using a b by (simp add: parity_pairs_def mismatches_0_iff valid_stripe_lengths)
  with False show ?thesis by (simp add: merge_cost_def perfect_merge_def)
next
  case True
  let ?D = "data_hosts a b" and ?P = "set (parity_dist a)"
  have "?D \<inter> ?P = {}"
    using a b True by (auto simp: data_hosts_def valid_stripe_def)
  then have "card (?D \<union> ?P) = card ?D + card ?P"
    by (simp add: card_Un_disjoint data_hosts_def)
  also have "card ?P = rs_m p"
    using a by (simp add: valid_stripe_def distinct_card)
  finally have M: "card (merged_hosts ?D (parity_pairs a b)) = card ?D + rs_m p"
    using True by (simp add: parity_pairs_def merged_hosts_aligned)
  have mm: "mismatches (parity_pairs a b) = 0"
    using True by (simp add: parity_pairs_def mismatches_0_iff)
  have D: "card ?D + card (set (data_dist a) \<inter> set (data_dist b)) = 2 * rs_k p"
    using card_Un_Int [of "set (data_dist a)" "set (data_dist b)"] a b
    by (simp add: data_hosts_def valid_stripe_def distinct_card)
  have "merge_cost p a b = 2 * rs_k p - card ?D"
    using M mm by (simp add: merge_cost_def)
  with D have "merge_cost p a b = card (set (data_dist a) \<inter> set (data_dist b))" by simp
  with True show ?thesis by (simp add: perfect_merge_def)
qed

text \<open>The number of misaligned parity positions is a lower bound of the cost.\<close>

lemma mismatches_le_cost: "mismatches (parity_pairs a b) \<le> merge_cost p a b"
  by (simp add: merge_cost_def)

section \<open>The generator produces valid stripes\<close>

lemma collect_nth:
  assumes "\<And>j. j < n \<Longrightarrow> g j < length v"
  shows "foldM (\<lambda>acc j. do { x \<leftarrow> aget v (g j); Some (acc @ [x]) }) [] [0..<n]
    = Some (map (\<lambda>j. v ! g j) [0..<n])"
proof -
  have "\<exists>r. foldM (\<lambda>acc j. do { x \<leftarrow> aget v (g j); Some (acc @ [x]) }) [] [0..<n] = Some r \<and>
      r = map (\<lambda>j. v ! g j) [0..<n]"
    by (rule foldM_upt [where I = "\<lambda>i r. r = map (\<lambda>j. v ! g j) [0..<i]"]) (auto simp: assms)
  then show ?thesis by simp
qed

lemma place_one_eq:
  assumes "k + m \<le> length v" and "k + m \<le> 255"
  shows "place_one k m v = Some (take k v, take m (drop k v))"
proof -
  have d: "foldM (\<lambda>acc j. do { x \<leftarrow> aget v j; Some (acc @ [x]) }) [] [0..<k]
      = Some (map (\<lambda>j. v ! j) [0..<k])"
    using collect_nth [of k "\<lambda>j. j" v] assms by simp
  have q: "foldM (\<lambda>acc c. do { x \<leftarrow> aget v (wrap8 (k + c)); Some (acc @ [x]) }) [] [0..<m]
      = Some (map (\<lambda>c. v ! wrap8 (k + c)) [0..<m])"
    using collect_nth [of m "\<lambda>c. wrap8 (k + c)" v] assms by (simp add: wrap_simps)
  have "map (\<lambda>j. v ! j) [0..<k] = take k v"
    using assms by (simp add: list_eq_iff_nth_eq)
  moreover have "map (\<lambda>c. v ! wrap8 (k + c)) [0..<m] = take m (drop k v)"
    using assms by (simp add: list_eq_iff_nth_eq wrap_simps)
  ultimately show ?thesis using d q by (simp add: place_one_def)
qed

text \<open>A placement that a stripe can carry: all chunks on different nodes below \<open>nodes\<close>.\<close>

definition valid_placement :: "nat \<Rightarrow> nat \<Rightarrow> nat \<Rightarrow> nat list \<times> nat list \<Rightarrow> bool" where
  "valid_placement nodes k m pl \<longleftrightarrow>
     length (fst pl) = k \<and> length (snd pl) = m \<and> distinct (fst pl @ snd pl) \<and>
     (\<forall>h \<in> set (fst pl @ snd pl). h < nodes)"

lemma place_one_valid:
  assumes "mset v = mset [0..<nodes]" and "k + m \<le> nodes" and "k + m \<le> 255"
  shows "\<exists>pl. place_one k m v = Some pl \<and> valid_placement nodes k m pl"
proof -
  have len: "length v = nodes" using assms(1) by (metis mset_eq_length length_upt diff_zero)
  have dist: "distinct v" using assms(1) by (metis mset_eq_imp_distinct_iff distinct_upt)
  have set: "set v = {0..<nodes}" using assms(1) by (metis mset_eq_setD set_upt)
  have split: "take k v @ take m (drop k v) = take (k + m) v" by (simp add: take_add)
  have "\<forall>h \<in> set (take (k + m) v). h < nodes"
    using set in_set_takeD by fastforce
  then have "valid_placement nodes k m (take k v, take m (drop k v))"
    unfolding valid_placement_def fst_conv snd_conv split
    using assms(2) len dist by simp
  then show ?thesis using place_one_eq [of k m v] assms len by simp
qed

lemma generate_valid:
  assumes shuf: "\<And>i v. mset (shuf i v) = mset v" and "k + m \<le> nodes" and "k + m \<le> 255"
  shows "\<exists>out. generate_random_distributions shuf nodes stripes_num k m = Some out \<and>
    length out = stripes_num \<and> (\<forall>pl \<in> set out. valid_placement nodes k m pl)"
proof -
  let ?I = "\<lambda>i (v, out). mset v = mset [0..<nodes] \<and> length out = i \<and>
      (\<forall>pl \<in> set out. valid_placement nodes k m pl)"
  let ?f = "\<lambda>(v, out) i. do { let v' = shuf i v; pl \<leftarrow> place_one k m v'; Some (v', out @ [pl]) }"
  have step: "\<exists>s'. ?f s i = Some s' \<and> ?I (Suc i) s'" if "?I i s" for i s
  proof -
    obtain v out where s: "s = (v, out)" by fastforce
    with that have "mset (shuf i v) = mset [0..<nodes]" using shuf by simp
    from place_one_valid [OF this assms(2,3)] obtain pl
      where "place_one k m (shuf i v) = Some pl" "valid_placement nodes k m pl" by blast
    then show ?thesis using that s shuf by auto
  qed
  have "\<exists>s'. foldM ?f ([0..<nodes], []) [0..<stripes_num] = Some s' \<and> ?I stripes_num s'"
    using step by (intro foldM_upt [where I = ?I]) auto
  then show ?thesis by (auto simp: generate_random_distributions_def)
qed

text \<open>A stripe filled from a valid placement is valid.\<close>

lemma set_info_valid:
  assumes "valid_placement (node_num p) (rs_k p) (rs_m p) (d, q)"
  shows "\<exists>s'. set_info p s i d q = Some s' \<and> valid_stripe p s' \<and>
    s' = s\<lparr>stripe_index := i, data_dist := d, parity_dist := q\<rparr>"
  using assms by (simp add: set_info_def assign_chars_def valid_placement_def valid_stripe_def)

section \<open>Properties\<close>

text \<open>C18. For two valid stripes the loops of \<open>compute_cost\<close> read only defined entries, the
  8-bit counter does not wrap, and the result is the cost of the merge: the chunks that find
  their node taken plus the misaligned parity chunks. It is at most \<open>k + m\<close>, so it indexes
  the \<open>rs_n + 1\<close> buckets of the searches, and it is 0 exactly for a perfect merge.\<close>

theorem compute_cost_correct:
  assumes "valid_params p" and "valid_stripe p a" and "valid_stripe p b"
  shows "compute_cost p a b = Some (merge_cost p a b) \<and> merge_cost p a b \<le> rs_k p + rs_m p \<and>
    (merge_cost p a b = 0 \<longleftrightarrow> perfect_merge a b)"
  using assms compute_cost_merge_cost merge_cost_le merge_cost_0_iff by blast

theorem compute_cost_correct_witness:
  "compute_cost (set_params 8 2 2) (new_stripe\<lparr>data_dist := [0, 1], parity_dist := [2, 3]\<rparr>)
    (new_stripe\<lparr>data_dist := [2, 4], parity_dist := [5, 3]\<rparr>) = Some 1"
  using compute_cost_correct [of "set_params 8 2 2" "new_stripe\<lparr>data_dist := [0, 1], parity_dist := [2, 3]\<rparr>"
      "new_stripe\<lparr>data_dist := [2, 4], parity_dist := [5, 3]\<rparr>"]
  by (simp add: set_params_def new_stripe_def valid_params_def valid_stripe_def merge_cost_def
      data_hosts_def parity_pairs_def mismatches_def)

text \<open>C38. If every call of the shuffle reorders its argument and the cluster has at least
  \<open>k + m\<close> nodes, \<open>generate_random_distributions\<close> returns one placement per stripe, and each
  puts the \<open>k\<close> data and \<open>m\<close> parity chunks on pairwise different nodes of the cluster.\<close>

theorem generate_random_distributions_valid:
  assumes "\<forall>i v. mset (shuf i v) = mset v" and "k + m \<le> nodes" and "k + m \<le> 255"
  shows "\<exists>out. generate_random_distributions shuf nodes stripes_num k m = Some out \<and>
    length out = stripes_num \<and> (\<forall>pl \<in> set out. valid_placement nodes k m pl)"
  using generate_valid [of shuf k m nodes stripes_num] assms by blast

theorem generate_random_distributions_valid_witness:
  "\<exists>out. generate_random_distributions (\<lambda>_. rev) 6 3 2 1 = Some out \<and>
    length out = 3 \<and> (\<forall>pl \<in> set out. valid_placement 6 2 1 pl)"
  by (rule generate_random_distributions_valid) simp_all

end
