(* ===== verification/Migration.thy ===== *)
theory Migration
  imports Prelude
begin

text \<open>
  The class \<open>MigrationInfo\<close> (include/migration_info.hh): one block transfer, the message that
  travels through every queue and socket of the program. Fields that a constructor leaves
  uninitialised are \<open>None\<close>; the buffer pointer is \<open>None\<close> when it is null.
\<close>

record migration =
  mi_index :: "nat option"
  source :: int
  target :: int
  mem_ptr :: "nat option"
  coefficient :: "nat option"
  target_fn :: "string option"
  store_fn :: "string option"

text \<open>The default constructor: the message that stops a receiver.\<close>

definition default_migration :: migration where
  "default_migration = \<lparr>mi_index = None, source = 0, target = 0, mem_ptr = None,
     coefficient = None, target_fn = None, store_fn = None\<rparr>"

text \<open>
  The constructor \<open>MigrationInfo(int16_t s, int16_t t, uint8_t coef)\<close>, called with
  non-negative integer arguments that are converted to the parameter types.
\<close>

definition new_migration :: "nat \<Rightarrow> nat \<Rightarrow> nat \<Rightarrow> migration" where
  "new_migration s t coef = \<lparr>mi_index = None, source = to_int16 s, target = to_int16 t,
     mem_ptr = None, coefficient = Some (wrap8 coef), target_fn = None, store_fn = None\<rparr>"

lemma new_migration_simps [simp]:
  "source (new_migration s t c) = to_int16 s"
  "target (new_migration s t c) = to_int16 t"
  "coefficient (new_migration s t c) = Some (wrap8 c)"
  "mem_ptr (new_migration s t c) = None"
  by (simp_all add: new_migration_def)

lemma to_int16_inj: "x < 65536 \<Longrightarrow> y < 65536 \<Longrightarrow> to_int16 x = to_int16 y \<longleftrightarrow> x = y"
  by (auto simp: to_int16_def wrap16_def split: if_splits)

end
