(* ===== verification/Cost_Table.thy ===== *)
theory Cost_Table
  imports Stripe Migration
begin

text \<open>
  The state of \<open>MatchingGenerator\<close> (include/matching_generator.hh), its constructor,
  \<open>input_stripes\<close>, and the memoised cost lookup \<open>get_cost\<close>
  (src/matching_generator.cc). The cost table is a triangular array: the cost of the pair
  \<open>i < j\<close> is kept at one index, and \<open>UINT8_MAX\<close> means "not computed yet".

  Two local variables of the C++ methods are \<open>static const\<close>: they are initialised by the
  first call in the process, whatever generator makes it. They are fields of the state here
  (\<open>static_c\<close>, \<open>static_all_one\<close>), \<open>None\<close> until that first call, and a further generator
  is constructed with the values the process already holds.
\<close>

section \<open>State and operations\<close>

record generator =
  g_params :: stripe_params
  rs_n :: nat
  stripes_num :: nat
  stripes :: "stripe list"
  cost_table :: "nat list"
  remaining_stripes :: "nat list"
  parity_map :: "nat list \<Rightarrow> nat list option"
  partial_dist_map :: "nat list \<Rightarrow> nat list option"
  zero_map :: "nat list \<Rightarrow> nat list option"
  none_zero_candidate :: "nat list"
  blocks_to_sent :: "migration list"
  static_c :: "nat option"
  static_all_one :: "nat option"

definition new_generator ::
  "nat option \<Rightarrow> nat option \<Rightarrow> nat \<Rightarrow> nat \<Rightarrow> nat \<Rightarrow> nat \<Rightarrow> generator" where
  "new_generator sc sa nodes k m num = \<lparr>
     g_params = set_params nodes k m,
     rs_n = wrap8 (k + m),
     stripes_num = num,
     stripes = replicate num new_stripe,
     cost_table = replicate (wrap64 (num * sub64 num 1) div 2) u8_max,
     remaining_stripes = [],
     parity_map = Map.empty,
     partial_dist_map = Map.empty,
     zero_map = Map.empty,
     none_zero_candidate = [],
     blocks_to_sent = [],
     static_c = sc,
     static_all_one = sa\<rparr>"

definition input_stripes :: "generator \<Rightarrow> nat list list \<Rightarrow> nat list list \<Rightarrow> generator option" where
  "input_stripes g raw parity = foldM (\<lambda>g i. do {
       s \<leftarrow> aget (stripes g) i;
       d \<leftarrow> aget raw i;
       q \<leftarrow> aget parity i;
       s' \<leftarrow> set_info (g_params g) s i d q;
       ss \<leftarrow> aset (stripes g) i s';
       Some (g\<lparr>stripes := ss\<rparr>)
     }) g [0..<stripes_num g]"

text \<open>\<open>get_cost\<close>: swap to \<open>i < j\<close>, index the table, compute and store a missing entry.\<close>

definition init_c :: "generator \<Rightarrow> nat" where
  "init_c g = (case static_c g of None \<Rightarrow> sub32 (wrap32 (2 * stripes_num g)) 3 | Some c \<Rightarrow> c)"

definition table_index :: "nat \<Rightarrow> nat \<Rightarrow> nat \<Rightarrow> nat" where
  "table_index c i j = sub64 (wrap64 (wrap64 (i * sub64 c i) div 2 + j)) 1"

definition get_cost :: "generator \<Rightarrow> nat \<Rightarrow> nat \<Rightarrow> (nat \<times> generator) option" where
  "get_cost g i0 j0 = (
     let c = init_c g;
         g1 = g\<lparr>static_c := Some c\<rparr>;
         (i, j) = (if i0 > j0 then (j0, i0) else (i0, j0));
         index = table_index c i j
     in do {
       cost \<leftarrow> aget (cost_table g1) index;
       if cost = u8_max then do {
         a \<leftarrow> aget (stripes g1) i;
         b \<leftarrow> aget (stripes g1) j;
         v \<leftarrow> compute_cost (g_params g1) a b;
         t \<leftarrow> aset (cost_table g1) index v;
         Some (v, g1\<lparr>cost_table := t\<rparr>)
       } else Some (cost, g1)
     })"

section \<open>The triangular index\<close>

definition row :: "nat \<Rightarrow> nat \<Rightarrow> nat" where
  "row n i = i * (2 * n - 3 - i) div 2"

definition slot :: "nat \<Rightarrow> nat \<Rightarrow> nat \<Rightarrow> nat" where
  "slot n i j = row n i + j - 1"

lemma row_Suc:
  assumes "Suc i < n"
  shows "row n (Suc i) = row n i + (n - 2 - i)"
proof -
  obtain d where n: "n = i + 2 + d" using assms less_iff_Suc_add [of "Suc i" n] by auto
  have r: "2 * n - 3 - Suc i = i + 2 * d" "2 * n - 3 - i = i + 1 + 2 * d" "n - 2 - i = d"
    using n by simp_all
  have e: "Suc i * (i + 2 * d) = i * (i + 1 + 2 * d) + 2 * d"
    by (simp add: add_mult_distrib2)
  show ?thesis unfolding row_def r e by simp
qed

lemma row_plus_mono:
  assumes "i \<le> i'" and "i' < n"
  shows "row n i + i \<le> row n i' + i'"
  using assms
proof (induction i' rule: dec_induct)
  case base
  then show ?case by simp
next
  case (step l)
  then have "row n (Suc l) = row n l + (n - 2 - l)" by (intro row_Suc) simp
  with step show ?case by linarith
qed

lemma row_last: "0 < n \<Longrightarrow> row n (n - 1) + (n - 1) = n * (n - 1) div 2"
proof -
  assume "0 < n"
  then obtain l where n: "n = Suc l" by (cases n) auto
  have "row n l = l * (l - 1) div 2"
    by (cases l) (simp_all add: n row_def)
  moreover have "n * l = l * (l - 1) + 2 * l"
    by (cases l) (simp_all add: n)
  ultimately show ?thesis using n by simp
qed

lemma slot_less_next:
  assumes "i < j" and "j < n" and "Suc i < n"
  shows "slot n i j < row n (Suc i) + Suc i"
  using row_Suc [OF assms(3)] assms unfolding slot_def by linarith

lemma slot_ge_row:
  assumes "i < j"
  shows "row n i + i \<le> slot n i j"
  using assms by (simp add: slot_def)

lemma slot_bound:
  assumes "i < j" and "j < n"
  shows "slot n i j < n * (n - 1) div 2"
proof -
  have i: "Suc i < n" using assms by simp
  have "slot n i j < row n (Suc i) + Suc i"
    using slot_less_next [OF assms i] .
  also have "\<dots> \<le> row n (n - 1) + (n - 1)"
    using i by (intro row_plus_mono) auto
  also have "\<dots> = n * (n - 1) div 2"
    using i by (intro row_last) simp
  finally show ?thesis .
qed

lemma slot_less_row:
  assumes "i < j" "j < n" "i < i'" "i' < j'" "j' < n"
  shows "slot n i j < slot n i' j'"
proof -
  have i: "Suc i < n" using assms by simp
  have "slot n i j < row n (Suc i) + Suc i"
    using slot_less_next [OF assms(1,2) i] .
  also have "\<dots> \<le> row n i' + i'"
    using assms by (intro row_plus_mono) auto
  also have "\<dots> \<le> slot n i' j'"
    using assms(4) by (rule slot_ge_row)
  finally show ?thesis .
qed

lemma slot_inj:
  assumes "i < j" "j < n" "i' < j'" "j' < n" and eq: "slot n i j = slot n i' j'"
  shows "i = i' \<and> j = j'"
proof (cases i i' rule: linorder_cases)
  case less
  with slot_less_row [OF assms(1,2) _ assms(3,4)] eq show ?thesis by simp
next
  case greater
  with slot_less_row [OF assms(3,4) _ assms(1,2)] eq show ?thesis by simp
next
  case equal
  with eq assms show ?thesis by (simp add: slot_def)
qed

lemma table_index_eq:
  assumes "i < j" and "j < n" and "n < 2147483648"
  shows "table_index (2 * n - 3) i j = slot n i j"
proof -
  have "i * (2 * n - 3 - i) \<le> 2147483648 * 4294967296"
    using assms by (intro mult_mono) auto
  then have b: "i * (2 * n - 3 - i) < 18446744073709551616" by simp
  moreover have "row n i \<le> i * (2 * n - 3 - i)" by (simp add: row_def)
  ultimately have "row n i + j < 18446744073709551616"
    using slot_bound [OF assms(1,2)] \<open>i * (2 * n - 3 - i) \<le> 2147483648 * 4294967296\<close> assms
    by simp
  then show ?thesis
    using b assms by (simp add: table_index_def slot_def row_def wrap_simps)
qed


section \<open>The table caches the pair costs\<close>

text \<open>The cost of an unordered pair: the stripe with the smaller index comes first.\<close>

definition pair_cost :: "generator \<Rightarrow> nat \<Rightarrow> nat \<Rightarrow> nat" where
  "pair_cost g i j = merge_cost (g_params g) (stripes g ! min i j) (stripes g ! max i j)"

definition wf_config :: "generator \<Rightarrow> bool" where
  "wf_config g \<longleftrightarrow> valid_params (g_params g) \<and>
     rs_n g = rs_k (g_params g) + rs_m (g_params g) \<and>
     length (stripes g) = stripes_num g \<and> stripes_num g < 2147483648 \<and>
     (\<forall>i < stripes_num g. valid_stripe (g_params g) (stripes g ! i))"

definition wf_table :: "generator \<Rightarrow> bool" where
  "wf_table g \<longleftrightarrow>
     static_c g \<in> {None, Some (2 * stripes_num g - 3)} \<and>
     length (cost_table g) = stripes_num g * (stripes_num g - 1) div 2 \<and>
     (\<forall>i j. i < j \<and> j < stripes_num g \<longrightarrow>
        cost_table g ! slot (stripes_num g) i j \<in> {u8_max, pair_cost g i j})"

definition wf_gen :: "generator \<Rightarrow> bool" where
  "wf_gen g \<longleftrightarrow> wf_config g \<and> wf_table g"

text \<open>Two states that differ in the memo only (the table and the process-wide constant).\<close>

definition same_but_memo :: "generator \<Rightarrow> generator \<Rightarrow> bool" where
  "same_but_memo g g' \<longleftrightarrow>
     g'\<lparr>cost_table := [], static_c := None\<rparr> = g\<lparr>cost_table := [], static_c := None\<rparr>"

lemma same_but_memo_refl [simp]: "same_but_memo g g"
  by (simp add: same_but_memo_def)

lemma same_but_memo_trans [trans]:
  "same_but_memo g g' \<Longrightarrow> same_but_memo g' g'' \<Longrightarrow> same_but_memo g g''"
  by (simp add: same_but_memo_def)

lemma same_but_memo_upd [simp]: "same_but_memo g (g\<lparr>static_c := c, cost_table := t\<rparr>)"
  "same_but_memo g (g\<lparr>static_c := c\<rparr>)"
  by (simp_all add: same_but_memo_def)

lemma same_but_memo_fields:
  assumes "same_but_memo g g'"
  shows "g_params g' = g_params g"
    "rs_n g' = rs_n g"
    "stripes_num g' = stripes_num g"
    "stripes g' = stripes g"
    "remaining_stripes g' = remaining_stripes g"
    "parity_map g' = parity_map g"
    "partial_dist_map g' = partial_dist_map g"
    "zero_map g' = zero_map g"
    "none_zero_candidate g' = none_zero_candidate g"
    "blocks_to_sent g' = blocks_to_sent g"
    "static_all_one g' = static_all_one g"
proof -
  note eq = assms [unfolded same_but_memo_def]
  show "g_params g' = g_params g" using arg_cong [OF eq, of g_params] by simp
  show "rs_n g' = rs_n g" using arg_cong [OF eq, of rs_n] by simp
  show "stripes_num g' = stripes_num g" using arg_cong [OF eq, of stripes_num] by simp
  show "stripes g' = stripes g" using arg_cong [OF eq, of stripes] by simp
  show "remaining_stripes g' = remaining_stripes g" using arg_cong [OF eq, of remaining_stripes] by simp
  show "parity_map g' = parity_map g" using arg_cong [OF eq, of parity_map] by simp
  show "partial_dist_map g' = partial_dist_map g" using arg_cong [OF eq, of partial_dist_map] by simp
  show "zero_map g' = zero_map g" using arg_cong [OF eq, of zero_map] by simp
  show "none_zero_candidate g' = none_zero_candidate g" using arg_cong [OF eq, of none_zero_candidate] by simp
  show "blocks_to_sent g' = blocks_to_sent g" using arg_cong [OF eq, of blocks_to_sent] by simp
  show "static_all_one g' = static_all_one g" using arg_cong [OF eq, of static_all_one] by simp
qed

lemma same_but_memo_pair_cost: "same_but_memo g g' \<Longrightarrow> pair_cost g' = pair_cost g"
  by (simp add: fun_eq_iff pair_cost_def same_but_memo_fields)

lemma pair_cost_sym: "pair_cost g i j = pair_cost g j i"
  by (simp add: pair_cost_def min.commute max.commute)

lemma wf_config_stripe:
  "wf_config g \<Longrightarrow> i < stripes_num g \<Longrightarrow> valid_stripe (g_params g) (stripes g ! i)"
  by (simp add: wf_config_def)

lemma pair_cost_le_rs_n:
  assumes "wf_config g" and "i < stripes_num g" and "j < stripes_num g"
  shows "pair_cost g i j \<le> rs_n g"
  using assms merge_cost_le [of "g_params g" "stripes g ! min i j" "stripes g ! max i j"]
  by (simp add: wf_config_def pair_cost_def)

lemma rs_n_less: "wf_config g \<Longrightarrow> rs_n g < 255"
  by (simp add: wf_config_def valid_params_def)

lemma wf_table_update:
  assumes "wf_table g" and "i < j" and "j < stripes_num g" and "v = pair_cost g i j"
  shows "wf_table (g\<lparr>static_c := Some (2 * stripes_num g - 3),
    cost_table := (cost_table g)[slot (stripes_num g) i j := v]\<rparr>)" (is "wf_table ?g")
proof -
  let ?n = "stripes_num g"
  have "(cost_table g)[slot ?n i j := v] ! slot ?n i' j' \<in> {u8_max, pair_cost g i' j'}"
    if ij: "i' < j'" "j' < ?n" for i' j'
  proof (cases "slot ?n i j = slot ?n i' j'")
    case True
    with slot_inj [OF assms(2,3) ij] have "i' = i" "j' = j" by simp_all
    with assms slot_bound [OF assms(2,3)] show ?thesis by (simp add: wf_table_def)
  next
    case False
    with assms ij show ?thesis by (simp add: wf_table_def)
  qed
  moreover have "pair_cost ?g = pair_cost g" by (simp add: fun_eq_iff pair_cost_def)
  ultimately show ?thesis using assms(1) by (simp add: wf_table_def)
qed

text \<open>
  \<open>get_cost\<close> on two different stripes returns the cost of the pair, whatever the table
  held, and touches nothing but the memo.
\<close>

lemma get_cost_ordered:
  assumes wf: "wf_gen g" and ij: "i < j" "j < stripes_num g"
    and ab: "(a, b) \<in> {(i, j), (j, i)}"
  shows "\<exists>g'. get_cost g a b = Some (pair_cost g i j, g') \<and> wf_gen g' \<and> same_but_memo g g'"
proof -
  let ?n = "stripes_num g"
  let ?k = "slot ?n i j"
  let ?g1 = "g\<lparr>static_c := Some (2 * ?n - 3)\<rparr>"
  have cfg: "wf_config g" and tab: "wf_table g" using wf by (simp_all add: wf_gen_def)
  have n: "?n < 2147483648" "2 \<le> ?n" using cfg ij by (auto simp: wf_config_def)
  have c: "init_c g = 2 * ?n - 3"
    using tab n by (auto simp: init_c_def wf_table_def wrap_simps)
  have idx: "table_index (2 * ?n - 3) i j = ?k"
    using table_index_eq ij n by simp
  have k: "?k < length (cost_table g)"
    using slot_bound [OF ij] tab by (simp add: wf_table_def)
  have ent: "cost_table g ! ?k \<in> {u8_max, pair_cost g i j}"
    using tab ij by (simp add: wf_table_def)
  have cc: "compute_cost (g_params g) (stripes g ! i) (stripes g ! j) = Some (pair_cost g i j)"
    using cfg ij compute_cost_merge_cost [of "g_params g" "stripes g ! i" "stripes g ! j"]
    by (simp add: wf_config_def pair_cost_def)
  have swap: "(if a > b then (b, a) else (a, b)) = (i, j)"
    using ab ij by auto
  have len: "i < length (stripes g)" "j < length (stripes g)"
    using cfg ij by (simp_all add: wf_config_def)
  show ?thesis
  proof (cases "cost_table g ! ?k = u8_max")
    case True
    let ?g2 = "?g1\<lparr>cost_table := (cost_table g)[?k := pair_cost g i j]\<rparr>"
    have "get_cost g a b = Some (pair_cost g i j, ?g2)"
      unfolding get_cost_def Let_def swap using True c idx k len cc by simp
    moreover have "wf_config ?g2" using cfg by (simp add: wf_config_def)
    moreover have "wf_table ?g2" using wf_table_update [OF tab ij refl] by simp
    moreover have "same_but_memo g ?g2" by simp
    ultimately show ?thesis by (auto simp: wf_gen_def)
  next
    case False
    then have "get_cost g a b = Some (pair_cost g i j, ?g1)"
      unfolding get_cost_def Let_def swap using ent c idx k by simp
    moreover have "wf_config ?g1" using cfg by (simp add: wf_config_def)
    moreover have "wf_table ?g1" using tab by (simp add: wf_table_def pair_cost_def)
    moreover have "same_but_memo g ?g1" by simp
    ultimately show ?thesis by (auto simp: wf_gen_def)
  qed
qed

lemma get_cost_total:
  assumes "wf_gen g" and "a < stripes_num g" and "b < stripes_num g" and "a \<noteq> b"
  shows "\<exists>g'. get_cost g a b = Some (pair_cost g a b, g') \<and> wf_gen g' \<and> same_but_memo g g'"
proof (cases "a < b")
  case True
  with assms get_cost_ordered [of g a b a b] show ?thesis by simp
next
  case False
  with assms get_cost_ordered [of g b a a b] show ?thesis by (simp add: pair_cost_sym)
qed

section \<open>Loading the placements\<close>

text \<open>
  What the clients do before any search (src/matching_main.cc, lines 37-39):
  construct a generator and pass it the placements.
\<close>

definition load_generator ::
  "nat option \<Rightarrow> nat option \<Rightarrow> nat \<Rightarrow> nat \<Rightarrow> nat \<Rightarrow> (nat list \<times> nat list) list \<Rightarrow>
    generator option" where
  "load_generator sc sa nodes k m pls =
     input_stripes (new_generator sc sa nodes k m (length pls)) (map fst pls) (map snd pls)"

definition loaded_stripe :: "nat \<Rightarrow> nat list \<times> nat list \<Rightarrow> stripe" where
  "loaded_stripe i pl = new_stripe\<lparr>stripe_index := i, data_dist := fst pl, parity_dist := snd pl\<rparr>"

text \<open>What the searches need of the parameters and of the placements.\<close>

definition good_input :: "nat \<Rightarrow> nat \<Rightarrow> nat \<Rightarrow> (nat list \<times> nat list) list \<Rightarrow> bool" where
  "good_input nodes k m pls \<longleftrightarrow> k + m < 255 \<and> length pls < 2147483648 \<and>
     2 * k + m \<le> nodes \<and> nodes < 65536 \<and> (\<forall>pl \<in> set pls. valid_placement nodes k m pl)"

text \<open>No stripe has been touched by a search yet.\<close>

definition fresh_gen :: "generator \<Rightarrow> bool" where
  "fresh_gen g \<longleftrightarrow> (\<forall>i < stripes_num g. \<not> selected (stripes g ! i) \<and>
     matching_index (stripes g ! i) = u32_max \<and> cur_cost (stripes g ! i) = u8_max) \<and>
     remaining_stripes g = [] \<and> parity_map g = Map.empty \<and> partial_dist_map g = Map.empty \<and>
     zero_map g = Map.empty \<and> none_zero_candidate g = [] \<and> blocks_to_sent g = []"

lemma table_size:
  assumes "n < 2147483648"
  shows "wrap64 (n * sub64 n 1) div 2 = n * (n - 1) div 2"
proof (cases "n = 0")
  case True
  then show ?thesis by (simp add: wrap64_def)
next
  case False
  have "n * (n - 1) \<le> 2147483648 * 2147483648" using assms by (intro mult_mono) auto
  with False assms show ?thesis by (simp add: wrap_simps)
qed

lemma input_stripes_total:
  assumes len: "length (stripes g) = length pls" "stripes_num g = length pls"
    and ok: "\<And>pl. pl \<in> set pls \<Longrightarrow>
      valid_placement (node_num (g_params g)) (rs_k (g_params g)) (rs_m (g_params g)) pl"
  shows "\<exists>ss. input_stripes g (map fst pls) (map snd pls) = Some (g\<lparr>stripes := ss\<rparr>) \<and>
    length ss = length pls \<and> (\<forall>i < length pls. ss ! i = (stripes g ! i)\<lparr>stripe_index := i,
      data_dist := fst (pls ! i), parity_dist := snd (pls ! i)\<rparr>)"
proof -
  let ?new = "\<lambda>i. (stripes g ! i)\<lparr>stripe_index := i, data_dist := fst (pls ! i),
      parity_dist := snd (pls ! i)\<rparr>"
  let ?I = "\<lambda>i h. \<exists>ss. h = g\<lparr>stripes := ss\<rparr> \<and> length ss = length pls \<and>
      (\<forall>j < length pls. ss ! j = (if j < i then ?new j else stripes g ! j))"
  have "\<exists>h. input_stripes g (map fst pls) (map snd pls) = Some h \<and> ?I (length pls) h"
    unfolding input_stripes_def len(2)
  proof (rule foldM_upt [where I = ?I])
    fix i h assume i: "i < length pls" and "?I i h"
    then obtain ss where h: "h = g\<lparr>stripes := ss\<rparr>" "length ss = length pls"
      "\<forall>j < length pls. ss ! j = (if j < i then ?new j else stripes g ! j)" by blast
    have "set_info (g_params g) (ss ! i) i (fst (pls ! i)) (snd (pls ! i)) = Some (?new i)"
      using set_info_valid [of "g_params g" "fst (pls ! i)" "snd (pls ! i)" "ss ! i" i]
        ok [of "pls ! i"] i h(3) by simp
    then show "\<exists>h'. do {
       s \<leftarrow> aget (stripes h) i;
       d \<leftarrow> aget (map fst pls) i;
       q \<leftarrow> aget (map snd pls) i;
       s' \<leftarrow> set_info (g_params h) s i d q;
       ss \<leftarrow> aset (stripes h) i s';
       Some (h\<lparr>stripes := ss\<rparr>)
     } = Some h' \<and> ?I (Suc i) h'"
      using i h by (auto simp: nth_list_update less_Suc_eq)
  qed (auto simp: len intro: exI [of _ "stripes g"])
  then show ?thesis by auto
qed

lemma load_generator_total:
  assumes good: "good_input nodes k m pls" and sc: "sc \<in> {None, Some (2 * length pls - 3)}"
  shows "\<exists>g. load_generator sc sa nodes k m pls = Some g \<and> wf_gen g \<and> fresh_gen g \<and>
    g_params g = set_params nodes k m \<and> stripes_num g = length pls \<and>
    static_all_one g = sa \<and>
    (\<forall>i < length pls. stripes g ! i = loaded_stripe i (pls ! i))"
proof -
  let ?n = "length pls"
  let ?g = "new_generator sc sa nodes k m ?n"
  have p: "k + m < 255" "?n < 2147483648" and v: "\<And>pl. pl \<in> set pls \<Longrightarrow> valid_placement nodes k m pl"
    using good by (simp_all add: good_input_def)
  have f: "g_params ?g = set_params nodes k m" "rs_n ?g = k + m" "stripes_num ?g = ?n"
    "static_c ?g = sc" "stripes ?g = replicate ?n new_stripe"
    "cost_table ?g = replicate (?n * (?n - 1) div 2) u8_max"
    using p table_size [of "length pls"] by (simp_all add: new_generator_def wrap8_small)
  from input_stripes_total [of ?g pls] v obtain ss where
    ss: "load_generator sc sa nodes k m pls = Some (?g\<lparr>stripes := ss\<rparr>)" "length ss = ?n"
      "\<forall>i < ?n. ss ! i = loaded_stripe i (pls ! i)"
    by (auto simp: f load_generator_def loaded_stripe_def set_params_def)
  let ?h = "?g\<lparr>stripes := ss\<rparr>"
  have "valid_stripe (g_params ?h) (stripes ?h ! i)" if "i < ?n" for i
    using ss(3) v [of "pls ! i"] that
    by (simp add: f set_params_def loaded_stripe_def valid_stripe_def valid_placement_def)
  then have "wf_config ?h"
    unfolding wf_config_def using f ss(2) p by (simp add: set_params_def valid_params_def)
  moreover have "wf_table ?h"
    unfolding wf_table_def using f sc
    by (auto simp: nth_replicate [OF slot_bound [unfolded One_nat_def]])
  moreover have "fresh_gen ?h"
    unfolding fresh_gen_def using f ss(3)
    by (simp add: loaded_stripe_def new_stripe_def new_generator_def)
  ultimately show ?thesis
    using ss f by (auto simp: wf_gen_def new_generator_def)
qed

section \<open>Properties\<close>

text \<open>A sequence of cost queries, with the answers in order.\<close>

definition answer_all ::
  "generator \<Rightarrow> (nat \<times> nat) list \<Rightarrow> (nat list \<times> generator) option" where
  "answer_all g qs = foldM (\<lambda>(as, g) (i, j). do { (c, g') \<leftarrow> get_cost g i j; Some (as @ [c], g') })
     ([], g) qs"

lemma answer_all_total:
  assumes "wf_gen g" and "\<forall>(i, j) \<in> set qs. i < stripes_num g \<and> j < stripes_num g \<and> i \<noteq> j"
  shows "\<exists>g'. answer_all g qs = Some (map (\<lambda>(i, j). pair_cost g i j) qs, g')"
proof -
  let ?f = "\<lambda>(as, g) (i, j). do { (c, g') \<leftarrow> get_cost g i j; Some (as @ [c], g') }"
  have "\<exists>st. foldM ?f ([], g) qs = Some st \<and> fst st = map (\<lambda>(i, j). pair_cost g i j) qs \<and>
      wf_gen (snd st) \<and> same_but_memo g (snd st)"
  proof (rule foldM_total [where I = "\<lambda>pre st. fst st = map (\<lambda>(i, j). pair_cost g i j) pre \<and>
      wf_gen (snd st) \<and> same_but_memo g (snd st)"])
    fix pre q post st
    assume split: "qs = pre @ q # post" and st: "fst st = map (\<lambda>(i, j). pair_cost g i j) pre \<and>
      wf_gen (snd st) \<and> same_but_memo g (snd st)"
    obtain i j as h where q: "q = (i, j)" "st = (as, h)" by fastforce
    have h: "wf_gen h" "same_but_memo g h" using st q by simp_all
    have "(i, j) \<in> set qs" using split q by simp
    then have "i < stripes_num g" "j < stripes_num g" "i \<noteq> j" using assms(2) by auto
    then obtain h' where "get_cost h i j = Some (pair_cost g i j, h')" "wf_gen h'" "same_but_memo h h'"
      using get_cost_total [OF h(1), of i j] same_but_memo_fields(3) [OF h(2)]
        same_but_memo_pair_cost [OF h(2)] by auto
    then show "\<exists>st'. ?f st q = Some st' \<and> fst st' = map (\<lambda>(i, j). pair_cost g i j) (pre @ [q]) \<and>
      wf_gen (snd st') \<and> same_but_memo g (snd st')"
      using st q same_but_memo_trans [OF h(2)] by auto
  qed (use assms(1) in simp_all)
  then show ?thesis by (auto simp: answer_all_def)
qed

text \<open>C19. On a generator loaded with valid placements, any sequence of calls of \<open>get_cost\<close> on
  pairs of different stripes, in either order of the arguments and with repetitions, returns and
  answers every query with the cost of merging that pair, whatever the memo table holds by
  then.\<close>

theorem get_cost_answers:
  assumes "good_input nodes k m pls"
    and "\<forall>(i, j) \<in> set qs. i < length pls \<and> j < length pls \<and> i \<noteq> j"
  shows "\<exists>g g'. load_generator None None nodes k m pls = Some g \<and>
    answer_all g qs = Some (map (\<lambda>(i, j). merge_cost (set_params nodes k m)
      (loaded_stripe (min i j) (pls ! min i j)) (loaded_stripe (max i j) (pls ! max i j))) qs, g')"
proof -
  from load_generator_total [OF assms(1), of None None] obtain g where
    g: "load_generator None None nodes k m pls = Some g" "wf_gen g" "stripes_num g = length pls"
      "g_params g = set_params nodes k m" "\<forall>i < length pls. stripes g ! i = loaded_stripe i (pls ! i)"
    by auto
  obtain g' where a: "answer_all g qs = Some (map (\<lambda>(i, j). pair_cost g i j) qs, g')"
    using answer_all_total [OF g(2), of qs] assms(2) g(3) by auto
  have "map (\<lambda>(i, j). pair_cost g i j) qs = map (\<lambda>(i, j). merge_cost (set_params nodes k m)
      (loaded_stripe (min i j) (pls ! min i j)) (loaded_stripe (max i j) (pls ! max i j))) qs"
    using assms(2) g(4,5) by (intro map_cong refl) (auto simp: pair_cost_def min_def max_def)
  with a g(1) show ?thesis by auto
qed

theorem get_cost_answers_witness:
  "\<exists>g g'. load_generator None None 4 1 1 [([0], [1]), ([2], [1]), ([0], [3])] = Some g \<and>
    answer_all g [(0, 1), (2, 0), (0, 2)] = Some ([0, 2, 2], g')"
  using get_cost_answers [of 4 1 1 "[([0], [1]), ([2], [1]), ([0], [3])]" "[(0, 1), (2, 0), (0, 2)]"]
  by (simp add: good_input_def valid_placement_def set_params_def loaded_stripe_def new_stripe_def
      merge_cost_def data_hosts_def parity_pairs_def mismatches_def numeral_2_eq_2 [symmetric])

text \<open>C22. The index arithmetic of \<open>get_cost\<close>, in 32- and 64-bit unsigned integers, maps the
  pairs \<open>i < j < n\<close> one to one to positions of the table the constructor allocates.\<close>

theorem table_index_bijective:
  assumes "n < 2147483648" and "i < j" and "j < n" and "i' < j'" and "j' < n"
  shows "table_index (init_c (new_generator None sa nodes k m n)) i j
      < length (cost_table (new_generator None sa nodes k m n)) \<and>
    (table_index (init_c (new_generator None sa nodes k m n)) i j =
     table_index (init_c (new_generator None sa nodes k m n)) i' j' \<longrightarrow> i = i' \<and> j = j')"
proof -
  have "init_c (new_generator None sa nodes k m n) = 2 * n - 3"
    using assms by (simp add: init_c_def new_generator_def wrap32_small sub32_small)
  moreover have "length (cost_table (new_generator None sa nodes k m n)) = n * (n - 1) div 2"
    using table_size [OF assms(1)] by (simp add: new_generator_def)
  ultimately show ?thesis
    using table_index_eq [OF assms(2,3,1)] table_index_eq [OF assms(4,5,1)]
      slot_bound [OF assms(2,3)] slot_inj [OF assms(2-5)] by simp
qed

theorem table_index_bijective_witness:
  "table_index (init_c (new_generator None None 9 2 1 1000)) 3 5
    < length (cost_table (new_generator None None 9 2 1 1000))"
  using table_index_bijective [of 1000 3 5 3 5 None 9 2 1] by simp

end
