(* ===== verification/Parity_Index.thy ===== *)
theory Parity_Index
  imports Cost_Table "HOL-Library.Word"
begin

unbundle bit_operations_syntax

text \<open>
  \<open>MatchingGenerator::build_map\<close> and the bit-subset arithmetic of
  \<open>search_for_matching\<close> (src/matching_generator.cc).

  \<open>build_map\<close> enters every stripe in \<open>parity_map\<close> under its parity placement and, for every
  non-empty set of parity positions (a mask \<open>s\<close>), in \<open>partial_dist_map\<close> under the nodes at
  those positions followed by the mask. The contract of such an index is the locale
  \<open>bucket_index\<close>; both maps are instances.

  \<open>next_comb\<close> steps from one mask to the next one with as many bits set;
  \<open>comb_walk\<close> says that the walk of the source visits all of them.
\<close>

section \<open>Indexing stripes by their parity nodes\<close>

text \<open>The nodes at the positions of the mask, and the key under which they are indexed.\<close>

fun project :: "nat \<Rightarrow> nat list \<Rightarrow> nat list" where
  "project bits [] = []"
| "project bits (x # xs) =
     (if odd bits then x # project (bits div 2) xs else project (bits div 2) xs)"

definition partial_key :: "nat \<Rightarrow> nat list \<Rightarrow> nat list" where
  "partial_key s pd = project s pd @ [s]"

definition index_push ::
  "(nat list \<Rightarrow> nat list option) \<Rightarrow> nat list \<Rightarrow> nat \<Rightarrow> (nat list \<Rightarrow> nat list option)" where
  "index_push m key i = (case m key of
     None \<Rightarrow> m(key \<mapsto> [i])
   | Some l \<Rightarrow> m(key \<mapsto> l @ [i]))"

text \<open>\<open>const uint8_t upside = 1 << rs_m\<close>: the shift is an \<open>int\<close>, the result is cut to 8 bits.\<close>

definition upside :: "nat \<Rightarrow> nat option" where
  "upside m = (if m < 31 then Some (wrap8 (2 ^ m)) else None)"

definition index_stripe :: "nat \<Rightarrow> generator \<Rightarrow> nat \<Rightarrow> generator option" where
  "index_stripe up g index = do {
     s \<leftarrow> aget (stripes g) index;
     let pd = parity_dist s;
     let g1 = g\<lparr>parity_map := index_push (parity_map g) pd index,
                remaining_stripes := remaining_stripes g @ [index]\<rparr>;
     Some (g1\<lparr>partial_dist_map :=
       fold (\<lambda>mask m. index_push m (partial_key mask pd) index) [1..<up] (partial_dist_map g1)\<rparr>)
   }"

definition build_map :: "generator \<Rightarrow> generator option" where
  "build_map g = do {
     up \<leftarrow> upside (rs_m (g_params g));
     foldM (index_stripe up) g [0..<stripes_num g]
   }"

section \<open>The contract of an index\<close>

locale bucket_index =
  fixes push :: "'m \<Rightarrow> 'k \<Rightarrow> nat \<Rightarrow> 'm"
    and bucket :: "'m \<Rightarrow> 'k \<Rightarrow> nat list"
  assumes bucket_push: "bucket (push m k i) k' = (if k' = k then bucket m k @ [i] else bucket m k')"
begin

lemma bucket_push_keys:
  assumes "distinct ks"
  shows "bucket (fold (\<lambda>k m. push m k i) ks m) k' = bucket m k' @ (if k' \<in> set ks then [i] else [])"
  using assms by (induction ks arbitrary: m) (auto simp: bucket_push)

lemma bucket_push_all:
  assumes "\<And>i. i \<in> set is \<Longrightarrow> distinct (ks i)"
  shows "bucket (fold (\<lambda>i m. fold (\<lambda>k m. push m k i) (ks i) m) is m) k' =
    bucket m k' @ filter (\<lambda>i. k' \<in> set (ks i)) is"
  using assms
proof (induction "is" arbitrary: m)
  case Nil
  then show ?case by simp
next
  case (Cons i "is")
  then show ?case by (simp add: bucket_push_keys)
qed

end

text \<open>The stripes listed under a key; a key that is not in the map lists nothing.\<close>

definition listed :: "(nat list \<Rightarrow> nat list option) \<Rightarrow> nat list \<Rightarrow> nat list" where
  "listed m key = (case m key of None \<Rightarrow> [] | Some l \<Rightarrow> l)"

interpretation pidx: bucket_index index_push listed
  by unfold_locales (auto simp: listed_def index_push_def split: option.splits)

section \<open>What \<open>build_map\<close> builds\<close>

lemma upside_small: "m \<le> 7 \<Longrightarrow> upside m = Some (2 ^ m)"
proof -
  assume "m \<le> 7"
  then have "(2::nat) ^ m \<le> 2 ^ 7" by (intro power_increasing) auto
  with \<open>m \<le> 7\<close> show ?thesis by (simp add: upside_def wrap8_def)
qed

lemma partial_key_inj: "partial_key s pd = partial_key s' pd' \<longleftrightarrow>
    s = s' \<and> project s pd = project s' pd'"
  by (auto simp: partial_key_def)

definition stripe_parity :: "generator \<Rightarrow> nat \<Rightarrow> nat list" where
  "stripe_parity g i = parity_dist (stripes g ! i)"

definition mask_keys :: "nat \<Rightarrow> nat list \<Rightarrow> nat list list" where
  "mask_keys up pd = map (\<lambda>s. partial_key s pd) [1..<up]"

lemma distinct_mask_keys: "distinct (mask_keys up pd)"
  by (auto simp: mask_keys_def distinct_map inj_on_def partial_key_inj)

lemma fold_mask_keys:
  "fold (\<lambda>mask m. index_push m (partial_key mask pd) i) [1..<up] m =
    fold (\<lambda>k m. index_push m k i) (mask_keys up pd) m"
  by (simp add: mask_keys_def fold_map comp_def)

lemma foldM_index_stripe:
  assumes "\<And>i. i \<in> set is \<Longrightarrow> i < length (stripes g)"
  shows "foldM (index_stripe up) g is = Some (g\<lparr>
    parity_map := fold (\<lambda>i m. index_push m (stripe_parity g i) i) is (parity_map g),
    remaining_stripes := remaining_stripes g @ is,
    partial_dist_map := fold (\<lambda>i m. fold (\<lambda>k m. index_push m k i)
      (mask_keys up (stripe_parity g i)) m) is (partial_dist_map g)\<rparr>)"
  using assms
proof (induction "is" arbitrary: g)
  case Nil
  then show ?case by simp
next
  case (Cons i "is")
  let ?g = "g\<lparr>parity_map := index_push (parity_map g) (stripe_parity g i) i,
      remaining_stripes := remaining_stripes g @ [i],
      partial_dist_map := fold (\<lambda>k m. index_push m k i)
        (mask_keys up (stripe_parity g i)) (partial_dist_map g)\<rparr>"
  have "index_stripe up g i = Some ?g"
    unfolding index_stripe_def fold_mask_keys Let_def
    using Cons.prems by (simp add: stripe_parity_def)
  moreover have "stripe_parity ?g = stripe_parity g"
    by (simp add: fun_eq_iff stripe_parity_def)
  moreover have "\<And>j. j \<in> set is \<Longrightarrow> j < length (stripes ?g)" using Cons.prems by simp
  ultimately show ?case using Cons.IH [of ?g] by simp
qed

text \<open>The state \<open>build_map\<close> leaves when it starts from a generator with empty maps.\<close>

definition maps_built :: "generator \<Rightarrow> generator \<Rightarrow> bool" where
  "maps_built g g' \<longleftrightarrow>
     (\<exists>pm pd. g' = g\<lparr>parity_map := pm, remaining_stripes := [0..<stripes_num g],
        partial_dist_map := pd\<rparr>) \<and>
     (\<forall>q. listed (parity_map g') q = filter (\<lambda>i. stripe_parity g i = q) [0..<stripes_num g]) \<and>
     (\<forall>s q. listed (partial_dist_map g') (q @ [s]) =
        filter (\<lambda>i. 1 \<le> s \<and> s < 2 ^ rs_m (g_params g) \<and> project s (stripe_parity g i) = q)
          [0..<stripes_num g])"

lemma build_map_total:
  assumes "length (stripes g) = stripes_num g" and m: "rs_m (g_params g) \<le> 7"
    and "parity_map g = Map.empty" "partial_dist_map g = Map.empty" "remaining_stripes g = []"
  shows "\<exists>g'. build_map g = Some g' \<and> maps_built g g'"
proof -
  let ?is = "[0..<stripes_num g]" and ?up = "2 ^ rs_m (g_params g) :: nat"
  let ?pm = "fold (\<lambda>i m. index_push m (stripe_parity g i) i) ?is Map.empty"
  let ?pd = "fold (\<lambda>i m. fold (\<lambda>k m. index_push m k i)
      (mask_keys ?up (stripe_parity g i)) m) ?is Map.empty"
  let ?g = "g\<lparr>parity_map := ?pm, remaining_stripes := ?is, partial_dist_map := ?pd\<rparr>"
  have "build_map g = Some ?g"
    using foldM_index_stripe [of ?is g ?up] assms by (simp add: build_map_def upside_small)
  moreover have "listed ?pm q = filter (\<lambda>i. stripe_parity g i = q) ?is" for q
  proof -
    have "listed ?pm q = listed Map.empty q @ filter (\<lambda>i. q \<in> set [stripe_parity g i]) ?is"
      using pidx.bucket_push_all [of ?is "\<lambda>i. [stripe_parity g i]" Map.empty q] by simp
    also have "filter (\<lambda>i. q \<in> set [stripe_parity g i]) ?is
        = filter (\<lambda>i. stripe_parity g i = q) ?is"
      by (rule filter_cong) auto
    finally show ?thesis by (simp add: listed_def)
  qed
  moreover have "listed ?pd (q @ [s]) = filter (\<lambda>i. 1 \<le> s \<and> s < ?up \<and>
      project s (stripe_parity g i) = q) ?is" for q s
  proof -
    have "listed ?pd (q @ [s]) = listed Map.empty (q @ [s]) @
        filter (\<lambda>i. q @ [s] \<in> set (mask_keys ?up (stripe_parity g i))) ?is"
      by (rule pidx.bucket_push_all) (rule distinct_mask_keys)
    also have "filter (\<lambda>i. q @ [s] \<in> set (mask_keys ?up (stripe_parity g i))) ?is =
        filter (\<lambda>i. 1 \<le> s \<and> s < ?up \<and> project s (stripe_parity g i) = q) ?is"
      by (rule filter_cong) (auto simp: mask_keys_def partial_key_def)
    finally show ?thesis by (simp add: listed_def)
  qed
  ultimately show ?thesis unfolding maps_built_def by auto
qed

section \<open>Walking the masks of a given size\<close>

text \<open>
  \<open>x = comb & (-comb), y = x + comb; comb = (((comb & ~y) / x) >> 1) | y\<close> on \<open>int\<close>s; a
  division by zero is undefined.
\<close>

definition next_comb :: "int \<Rightarrow> int option" where
  "next_comb comb = (
     let x = comb AND (- comb); y = x + comb
     in if x = 0 then None else Some (drop_bit 1 ((comb AND NOT y) div x) OR y))"

text \<open>
  The masks the loop visits below \<open>all_one\<close>; \<open>None\<close> when it divides by zero or visits more
  than \<open>fuel\<close> masks.
\<close>

fun walk :: "nat \<Rightarrow> int \<Rightarrow> int \<Rightarrow> int list option" where
  "walk 0 all_one comb = (if comb < all_one then None else Some [])"
| "walk (Suc fuel) all_one comb =
     (if comb < all_one
      then do { c \<leftarrow> next_comb comb; cs \<leftarrow> walk fuel all_one c; Some (comb # cs) }
      else Some [])"

text \<open>The number of bits set in a non-negative number.\<close>

function popcount :: "int \<Rightarrow> int" where
  "popcount n = (if n \<le> 0 then 0 else n mod 2 + popcount (n div 2))"
  by pat_completeness auto
termination by (relation "measure nat") auto

declare popcount.simps [simp del]

text \<open>The first mask and the bound of the loop for \<open>rs_m = m\<close> and target cost \<open>t\<close>.\<close>

abbreviation first_comb :: "nat \<Rightarrow> nat \<Rightarrow> int" where
  "first_comb m t \<equiv> 2 ^ (m - t) - 1"

abbreviation all_ones :: "nat \<Rightarrow> int" where
  "all_ones m \<equiv> 2 ^ m - 1"

text \<open>
  For every number of parity chunks the index supports, checked mask by mask: the walk
  visits exactly the masks with \<open>m - t\<close> bits, in increasing order.
\<close>

lemma comb_walk_checked:
  "list_all (\<lambda>m. list_all (\<lambda>t.
     walk 64 (all_ones m) (first_comb m t) =
       Some (filter (\<lambda>s. popcount s = int (m - t)) [1..2 ^ m - 2])) [1..<m]) [0..<8]"
  by code_simp

lemma comb_walk:
  assumes "1 \<le> t" and "t < m" and "m \<le> 7"
  shows "walk 64 (all_ones m) (first_comb m t) =
      Some (filter (\<lambda>s. popcount s = int (m - t)) [1..2 ^ m - 2])"
proof -
  have "m \<in> set [0..<8]" and "t \<in> set [1..<m]" using assms by auto
  with comb_walk_checked show ?thesis unfolding list_all_iff by blast
qed

section \<open>Aligned parity positions and masks\<close>

lemma popcount_0 [simp]: "popcount 0 = 0"
  by (simp add: popcount.simps)

lemma popcount_double: "popcount (int (2 * s)) = popcount (int s)"
  by (cases "s = 0") (simp_all add: popcount.simps [of "2 * int s"])

lemma popcount_double_1: "popcount (int (Suc (2 * s))) = popcount (int s) + 1"
proof -
  have "int (Suc (2 * s)) mod 2 = 1" and "int (Suc (2 * s)) div 2 = int s" by simp_all
  then show ?thesis by (subst popcount.simps) simp
qed

lemma project_0 [simp]: "project 0 xs = []"
  by (induction xs) simp_all

lemma popcount_ones: "popcount (int (2 ^ m - 1)) = int m"
proof (induction m)
  case 0
  then show ?case by simp
next
  case (Suc m)
  have "(1::nat) \<le> 2 ^ m" by simp
  then have "(2::nat) ^ Suc m - 1 = Suc (2 * (2 ^ m - 1))" unfolding power_Suc by linarith
  then have "popcount (int (2 ^ Suc m - 1)) = popcount (int (2 ^ m - 1)) + 1"
    by (simp only: popcount_double_1)
  with Suc show ?case by simp
qed

text \<open>Two placements aligned in \<open>c\<close> positions share the key of some mask with \<open>c\<close> bits.\<close>

lemma aligned_mask:
  assumes "length xs = length ys" and "c + mismatches (zip xs ys) \<le> length xs"
  shows "\<exists>s < 2 ^ length xs. popcount (int s) = int c \<and> project s xs = project s ys"
  using assms
proof (induction xs ys arbitrary: c rule: list_induct2)
  case Nil
  then show ?case by simp
next
  case (Cons x xs y ys)
  show ?case
  proof (cases "x = y \<and> 0 < c")
    case True
    with Cons.prems have "c - 1 + mismatches (zip xs ys) \<le> length xs" by simp
    from Cons.IH [OF this] obtain s where
      s: "s < 2 ^ length xs" "popcount (int s) = int (c - 1)" "project s xs = project s ys" by blast
    then have "Suc (2 * s) < 2 ^ length (x # xs)" by simp
    moreover have "popcount (int (Suc (2 * s))) = int c"
      using s True by (simp only: popcount_double_1) simp
    moreover have "project (Suc (2 * s)) (x # xs) = project (Suc (2 * s)) (y # ys)"
      using s True by simp
    ultimately show ?thesis by blast
  next
    case False
    show ?thesis
    proof (cases "c = 0")
      case True
      then show ?thesis by (intro exI [of _ 0]) simp
    next
      case c: False
      with False Cons.prems have "c + mismatches (zip xs ys) \<le> length xs" by simp
      with Cons.IH [of c] obtain s where
        s: "s < 2 ^ length xs" "popcount (int s) = int c" "project s xs = project s ys" by blast
      then have "2 * s < 2 ^ length (x # xs)" by simp
      moreover have "project (2 * s) (x # xs) = project (2 * s) (y # ys)" using s by simp
      ultimately show ?thesis using s(2) popcount_double by metis
    qed
  qed
qed

text \<open>
  Hence a pair whose parity is misaligned in at most \<open>t\<close> positions is found under one of the
  masks the walk for target cost \<open>t\<close> visits.
\<close>

lemma walk_finds_pair:
  assumes "1 \<le> t" "t < m" "m \<le> 7" "length xs = m" "length ys = m"
    and "mismatches (zip xs ys) \<le> t" and "walk 64 (all_ones m) (first_comb m t) = Some cs"
  shows "\<exists>s. int s \<in> set cs \<and> 1 \<le> s \<and> s < 2 ^ m \<and> project s xs = project s ys"
proof -
  from assms have "length xs = length ys" "m - t + mismatches (zip xs ys) \<le> length xs"
    by simp_all
  from aligned_mask [OF this] assms(4) obtain s where
    s: "s < 2 ^ m" "popcount (int s) = int (m - t)" "project s xs = project s ys" by blast
  from s(2) assms have "s \<noteq> 0" by (intro notI) simp
  moreover from s(2) assms have "s \<noteq> 2 ^ m - 1" using popcount_ones [of m] by (intro notI) simp
  moreover have "int s < 2 ^ m" using s(1) by (metis of_nat_less_iff of_nat_numeral of_nat_power)
  moreover have "int s \<noteq> 2 ^ m - 1"
  proof
    assume "int s = 2 ^ m - 1"
    then have "int (s + 1) = int (2 ^ m)" by simp
    then have "s + 1 = 2 ^ m" using of_nat_eq_iff by blast
    with \<open>s \<noteq> 2 ^ m - 1\<close> show False by simp
  qed
  ultimately have "1 \<le> int s \<and> int s \<le> 2 ^ m - 2" by linarith
  then have "int s \<in> set [1..2 ^ m - 2]" by simp
  with s have "int s \<in> set cs" using comb_walk [OF assms(1-3)] assms(7) by auto
  with s \<open>s \<noteq> 0\<close> show ?thesis by (intro exI [of _ s]) simp
qed

section \<open>Properties\<close>

text \<open>C20. After \<open>build_map\<close> on a loaded generator with at most 7 parity chunks, \<open>parity_map\<close>
  lists under a placement exactly the stripes that have it, and \<open>partial_dist_map\<close> lists under
  a mask and the nodes at its positions exactly the stripes whose parity chunks are there, both
  in the order of the stripes and each stripe once; all stripes are remaining.\<close>

theorem build_map_indexes:
  assumes "good_input nodes k m pls" and "m \<le> 7"
  shows "\<exists>g g'. load_generator None None nodes k m pls = Some g \<and> build_map g = Some g' \<and>
    remaining_stripes g' = [0..<length pls] \<and>
    (\<forall>q. listed (parity_map g') q = filter (\<lambda>i. snd (pls ! i) = q) [0..<length pls]) \<and>
    (\<forall>s q. listed (partial_dist_map g') (q @ [s]) =
      filter (\<lambda>i. 1 \<le> s \<and> s < 2 ^ m \<and> project s (snd (pls ! i)) = q) [0..<length pls])"
proof -
  from load_generator_total [OF assms(1), of None None] obtain g where
    g: "load_generator None None nodes k m pls = Some g" "wf_gen g" "stripes_num g = length pls"
      "fresh_gen g" "g_params g = set_params nodes k m"
      "\<forall>i < length pls. stripes g ! i = loaded_stripe i (pls ! i)"
    by auto
  have p: "stripe_parity g i = snd (pls ! i)" if "i < length pls" for i
    using g(6) that by (simp add: stripe_parity_def loaded_stripe_def)
  from build_map_total [of g] g assms(2) obtain g' where
    b: "build_map g = Some g'" "maps_built g g'"
    by (auto simp: wf_gen_def wf_config_def fresh_gen_def set_params_def)
  have "filter (\<lambda>i. stripe_parity g i = q) [0..<length pls] =
      filter (\<lambda>i. snd (pls ! i) = q) [0..<length pls]" for q
    by (rule filter_cong) (simp_all add: p)
  moreover have "filter (\<lambda>i. 1 \<le> s \<and> s < 2 ^ m \<and> project s (stripe_parity g i) = q) [0..<length pls] =
      filter (\<lambda>i. 1 \<le> s \<and> s < 2 ^ m \<and> project s (snd (pls ! i)) = q) [0..<length pls]" for s q
    by (rule filter_cong) (simp_all add: p)
  ultimately show ?thesis
    using g(1,3,5) b by (auto simp: maps_built_def set_params_def)
qed

theorem build_map_indexes_witness:
  "\<exists>g g'. load_generator None None 6 1 2 [([0], [1, 2]), ([3], [1, 4]), ([5], [1, 2])] = Some g \<and>
    build_map g = Some g' \<and> listed (parity_map g') [1, 2] = [0, 2] \<and>
    listed (partial_dist_map g') ([1] @ [1]) = [0, 1, 2] \<and>
    listed (partial_dist_map g') ([4] @ [2]) = [1]"
proof -
  let ?pls = "[([0], [1, 2]), ([3], [1, 4]), ([5], [1, 2])] :: (nat list \<times> nat list) list"
  have up: "[0..<length ?pls] = [0, 1, 2]" by (simp add: upt_rec)
  have "good_input 6 1 2 ?pls" by (simp add: good_input_def valid_placement_def)
  from build_map_indexes [OF this] obtain g g' where
    r: "load_generator None None 6 1 2 ?pls = Some g" "build_map g = Some g'"
      "\<forall>q. listed (parity_map g') q = filter (\<lambda>i. snd (?pls ! i) = q) [0..<length ?pls]"
      "\<forall>s q. listed (partial_dist_map g') (q @ [s]) =
        filter (\<lambda>i. 1 \<le> s \<and> s < 2 ^ 2 \<and> project s (snd (?pls ! i)) = q) [0..<length ?pls]" by auto
  have "listed (parity_map g') [1, 2] = [0, 2]" unfolding r(3) [rule_format] up by simp
  moreover have "listed (partial_dist_map g') ([1] @ [1]) = [0, 1, 2]"
    unfolding r(4) [rule_format] up by simp
  moreover have "listed (partial_dist_map g') ([4] @ [2]) = [1]"
    unfolding r(4) [rule_format] up by simp
  ultimately show ?thesis using r(1,2) by blast
qed

text \<open>C21. For every \<open>m \<le> 7\<close> and target cost \<open>1 \<le> t < m\<close>, the bit tricks of
  \<open>search_for_matching\<close>, started at \<open>2 ^ (m - t) - 1\<close> and run while below \<open>2 ^ m - 1\<close>, end
  after at most 64 masks, never divide by zero, and visit exactly the proper masks with
  \<open>m - t\<close> bits, in increasing order. So two placements misaligned in at most \<open>t\<close> positions
  agree under one of the visited masks.\<close>

theorem comb_walk_complete:
  assumes "1 \<le> t" and "t < m" and "m \<le> 7"
  shows "\<exists>cs. walk 64 (all_ones m) (first_comb m t) = Some cs \<and>
    cs = filter (\<lambda>s. popcount s = int (m - t)) [1..2 ^ m - 2] \<and>
    (\<forall>xs ys. length xs = m \<and> length ys = m \<and> mismatches (zip xs ys) \<le> t \<longrightarrow>
      (\<exists>s. int s \<in> set cs \<and> project s xs = project s ys))"
  using comb_walk [OF assms] walk_finds_pair [OF assms] by blast

theorem comb_walk_complete_witness: "\<exists>cs. walk 64 (all_ones 4) (first_comb 4 2) = Some cs"
  using comb_walk_complete [of 2 4] by auto

end
