(* ===== verification/Matching.thy ===== *)
theory Matching
  imports Parity_Index
begin

text \<open>
  Pairing stripes up: \<open>MatchingGenerator::mark_matched\<close>, the invariant \<open>matching_ok\<close> of the
  pairs it records, and the evaluation \<open>print_statics\<close> of a finished matching
  (src/matching_generator.cc). The console output of \<open>print_statics\<close> is not modelled; its
  result, the sum of the costs of all pairs, is.
\<close>

section \<open>Operations\<close>

definition upd_stripe :: "generator \<Rightarrow> nat \<Rightarrow> (stripe \<Rightarrow> stripe) \<Rightarrow> generator option" where
  "upd_stripe g i f = do {
     s \<leftarrow> aget (stripes g) i;
     ss \<leftarrow> aset (stripes g) i (f s);
     Some (g\<lparr>stripes := ss\<rparr>)
   }"

definition zero_push ::
  "(nat list \<Rightarrow> nat list option) \<Rightarrow> nat list \<Rightarrow> nat \<Rightarrow> (nat list \<Rightarrow> nat list option)" where
  "zero_push m pd i = (case m pd of None \<Rightarrow> m(pd \<mapsto> [i]) | Some l \<Rightarrow> m(pd \<mapsto> i # l))"

definition mark_matched :: "generator \<Rightarrow> nat \<Rightarrow> nat \<Rightarrow> nat \<Rightarrow> bool \<Rightarrow> generator option" where
  "mark_matched g i j cost flag = do {
     g \<leftarrow> upd_stripe g i (\<lambda>s. s\<lparr>matching_index := j\<rparr>);
     g \<leftarrow> upd_stripe g j (\<lambda>s. s\<lparr>matching_index := i\<rparr>);
     g \<leftarrow> upd_stripe g j (\<lambda>s. s\<lparr>selected := True\<rparr>);
     g \<leftarrow> upd_stripe g i (\<lambda>s. s\<lparr>selected := True\<rparr>);
     g \<leftarrow> upd_stripe g j (\<lambda>s. s\<lparr>cur_cost := cost\<rparr>);
     g \<leftarrow> upd_stripe g i (\<lambda>s. s\<lparr>cur_cost := cost\<rparr>);
     if flag then do {
       a \<leftarrow> aget (stripes g) i;
       if cost = 0 then Some (g\<lparr>zero_map := zero_push (zero_map g) (parity_dist a) i\<rparr>)
       else do {
         b \<leftarrow> aget (stripes g) j;
         if parity_dist a = parity_dist b
         then Some (g\<lparr>none_zero_candidate := none_zero_candidate g @ [i]\<rparr>)
         else Some g
       }
     } else Some g
   }"

text \<open>
  \<open>print_statics\<close>. The second loop counts an 8-bit variable up to \<open>rs_n\<close> inclusive, which
  never ends when \<open>rs_n\<close> is 255.
\<close>

definition count_pair :: "generator \<Rightarrow> nat list \<times> bool list \<Rightarrow> nat \<Rightarrow> (nat list \<times> bool list) option" where
  "count_pair g st i = (case st of (cnt, flag) \<Rightarrow> do {
     fi \<leftarrow> aget flag i;
     if fi then Some (cnt, flag)
     else do {
       s \<leftarrow> aget (stripes g) i;
       fm \<leftarrow> aget flag (matching_index s);
       if fm then Some (cnt, flag)
       else do {
         c \<leftarrow> aget cnt (cur_cost s);
         cnt1 \<leftarrow> aset cnt (cur_cost s) (wrap32 (c + 1));
         flag1 \<leftarrow> aset flag i True;
         flag2 \<leftarrow> aset flag1 (matching_index s) True;
         Some (cnt1, flag2)
       }
     }
   })"

definition sum_costs :: "nat \<Rightarrow> nat list \<Rightarrow> nat option" where
  "sum_costs r cnt =
     (if r = 255 then None
      else foldM (\<lambda>total i. do {
        c \<leftarrow> aget cnt i;
        Some (if c = 0 then total else wrap32 (total + wrap32 (i * c)))
      }) 0 [0..<Suc r])"

definition print_statics :: "generator \<Rightarrow> nat option" where
  "print_statics g = do {
     st \<leftarrow> foldM (count_pair g) (replicate (rs_n g + 1) 0, replicate (stripes_num g) False)
            [0..<stripes_num g];
     sum_costs (rs_n g) (fst st)
   }"

section \<open>What stays fixed\<close>

text \<open>The placements of the stripes, which no matching operation changes.\<close>

definition places :: "generator \<Rightarrow> (nat list \<times> nat list) list" where
  "places g = map (\<lambda>s. (data_dist s, parity_dist s)) (stripes g)"

definition same_config :: "generator \<Rightarrow> generator \<Rightarrow> bool" where
  "same_config g g' \<longleftrightarrow> g_params g' = g_params g \<and> rs_n g' = rs_n g \<and>
     stripes_num g' = stripes_num g \<and> places g' = places g"

lemma same_config_refl [simp]: "same_config g g"
  by (simp add: same_config_def)

lemma same_config_trans [trans]:
  "same_config g g' \<Longrightarrow> same_config g' g'' \<Longrightarrow> same_config g g''"
  by (simp add: same_config_def)

lemma same_but_memo_config: "same_but_memo g g' \<Longrightarrow> same_config g g'"
  by (simp add: same_config_def places_def same_but_memo_fields)

lemma same_config_length:
  assumes "same_config g g'"
  shows "length (stripes g') = length (stripes g)" and "stripes_num g' = stripes_num g"
    and "rs_n g' = rs_n g" and "g_params g' = g_params g"
  using assms map_eq_imp_length_eq by (fastforce simp: same_config_def places_def)+

lemma same_config_nth:
  assumes "same_config g g'" and "i < length (stripes g)"
  shows "data_dist (stripes g' ! i) = data_dist (stripes g ! i)"
    and "parity_dist (stripes g' ! i) = parity_dist (stripes g ! i)"
proof -
  have "places g' ! i = places g ! i" using assms(1) by (simp add: same_config_def)
  moreover have "i < length (stripes g')" using same_config_length(1) [OF assms(1)] assms(2) by simp
  ultimately show "data_dist (stripes g' ! i) = data_dist (stripes g ! i)"
    and "parity_dist (stripes g' ! i) = parity_dist (stripes g ! i)"
    using assms(2) by (simp_all add: places_def)
qed

lemma same_config_pair_cost:
  assumes "same_config g g'" and "i < length (stripes g)" and "j < length (stripes g)"
  shows "pair_cost g' i j = pair_cost g i j"
proof -
  have "min i j < length (stripes g)" and "max i j < length (stripes g)" using assms by auto
  then show ?thesis using assms(1)
    by (simp add: pair_cost_def merge_cost_def data_hosts_def parity_pairs_def same_config_nth
        same_config_length)
qed

lemma same_config_wf:
  assumes "same_config g g'" and "wf_config g"
  shows "wf_config g'"
  using assms by (auto simp: wf_config_def same_config_length valid_stripe_def same_config_nth)

lemma same_config_wf_gen:
  assumes c: "same_config g g'" and "wf_gen g"
    and "cost_table g' = cost_table g" and "static_c g' = static_c g"
  shows "wf_gen g'"
proof -
  have n: "length (stripes g) = stripes_num g"
    using assms(2) by (simp add: wf_gen_def wf_config_def)
  have "wf_table g'"
    unfolding wf_table_def
  proof (intro conjI allI impI)
    fix i j assume ij: "i < j \<and> j < stripes_num g'"
    then have "j < length (stripes g)" and "i < length (stripes g)"
      using n same_config_length(2) [OF c] by auto
    then have "pair_cost g' i j = pair_cost g i j"
      using same_config_pair_cost [OF c] by simp
    then show "cost_table g' ! slot (stripes_num g') i j \<in> {u8_max, pair_cost g' i j}"
      using ij assms same_config_length [OF c] by (simp add: wf_gen_def wf_table_def)
  qed (use assms same_config_length [OF c] in \<open>auto simp: wf_gen_def wf_table_def\<close>)
  with same_config_wf [OF c] assms(2) show ?thesis by (simp add: wf_gen_def)
qed

section \<open>Pairs\<close>

abbreviation sel :: "generator \<Rightarrow> nat \<Rightarrow> bool" where
  "sel g i \<equiv> selected (stripes g ! i)"

abbreviation mate :: "generator \<Rightarrow> nat \<Rightarrow> nat" where
  "mate g i \<equiv> matching_index (stripes g ! i)"

abbreviation scost :: "generator \<Rightarrow> nat \<Rightarrow> nat" where
  "scost g i \<equiv> cur_cost (stripes g ! i)"

text \<open>\<open>i\<close> and \<open>j\<close> are paired with each other, at the true cost of the pair.\<close>

definition mated :: "generator \<Rightarrow> nat \<Rightarrow> nat \<Rightarrow> bool" where
  "mated g i j \<longleftrightarrow> i < stripes_num g \<and> j < stripes_num g \<and> i \<noteq> j \<and> sel g i \<and> sel g j \<and>
     mate g i = j \<and> mate g j = i \<and> scost g i = pair_cost g i j \<and> scost g j = pair_cost g i j"

definition matching_ok :: "generator \<Rightarrow> bool" where
  "matching_ok g \<longleftrightarrow> (\<forall>i < stripes_num g. sel g i \<longrightarrow> mated g i (mate g i))"

definition all_matched :: "generator \<Rightarrow> bool" where
  "all_matched g \<longleftrightarrow> (\<forall>i < stripes_num g. sel g i)"

abbreviation free_stripes :: "generator \<Rightarrow> nat set" where
  "free_stripes g \<equiv> {x. x < stripes_num g \<and> \<not> sel g x}"

text \<open>The cost of a matching: every pair counts once, at its member with the smaller index.\<close>

definition pair_heads :: "generator \<Rightarrow> nat set" where
  "pair_heads g = {i. i < stripes_num g \<and> sel g i \<and> i < mate g i}"

definition matching_cost :: "generator \<Rightarrow> nat" where
  "matching_cost g = (\<Sum>i \<in> pair_heads g. scost g i)"

definition pair_up :: "nat \<Rightarrow> nat \<Rightarrow> nat \<Rightarrow> stripe list \<Rightarrow> stripe list" where
  "pair_up cost i j ss = ss[
     i := (ss ! i)\<lparr>matching_index := j, selected := True, cur_cost := cost\<rparr>,
     j := (ss ! j)\<lparr>matching_index := i, selected := True, cur_cost := cost\<rparr>]"

definition record_pair :: "nat \<Rightarrow> nat \<Rightarrow> nat \<Rightarrow> bool \<Rightarrow> generator \<Rightarrow> generator" where
  "record_pair i j cost flag g =
     (if \<not> flag then g
      else if cost = 0 then
        g\<lparr>zero_map := zero_push (zero_map g) (parity_dist (stripes g ! i)) i\<rparr>
      else if parity_dist (stripes g ! i) = parity_dist (stripes g ! j) then
        g\<lparr>none_zero_candidate := none_zero_candidate g @ [i]\<rparr>
      else g)"

lemma mark_matched_eq:
  assumes "i < length (stripes g)" and "j < length (stripes g)" and "i \<noteq> j"
  shows "mark_matched g i j cost flag =
    Some (record_pair i j cost flag (g\<lparr>stripes := pair_up cost i j (stripes g)\<rparr>))"
  using assms
  by (simp add: mark_matched_def upd_stripe_def record_pair_def pair_up_def nth_list_update
      list_update_swap [of i j])

lemma record_pair_fields [simp]:
  "stripes (record_pair i j c fl g) = stripes g"
  "g_params (record_pair i j c fl g) = g_params g"
  "rs_n (record_pair i j c fl g) = rs_n g"
  "stripes_num (record_pair i j c fl g) = stripes_num g"
  "cost_table (record_pair i j c fl g) = cost_table g"
  "static_c (record_pair i j c fl g) = static_c g"
  "static_all_one (record_pair i j c fl g) = static_all_one g"
  "remaining_stripes (record_pair i j c fl g) = remaining_stripes g"
  "parity_map (record_pair i j c fl g) = parity_map g"
  "partial_dist_map (record_pair i j c fl g) = partial_dist_map g"
  "blocks_to_sent (record_pair i j c fl g) = blocks_to_sent g"
  by (simp_all add: record_pair_def)


lemma length_pair_up [simp]: "length (pair_up c i j ss) = length ss"
  by (simp add: pair_up_def)

lemma pair_up_nth:
  assumes "i < length ss" and "j < length ss" and "i \<noteq> j"
  shows "pair_up c i j ss ! i = (ss ! i)\<lparr>matching_index := j, selected := True, cur_cost := c\<rparr>"
    and "pair_up c i j ss ! j = (ss ! j)\<lparr>matching_index := i, selected := True, cur_cost := c\<rparr>"
    and "x \<noteq> i \<Longrightarrow> x \<noteq> j \<Longrightarrow> pair_up c i j ss ! x = ss ! x"
  using assms by (simp_all add: pair_up_def)

lemma pair_up_places:
  assumes "i < length ss" and "j < length ss" and "i \<noteq> j"
  shows "map (\<lambda>s. (data_dist s, parity_dist s)) (pair_up c i j ss) =
    map (\<lambda>s. (data_dist s, parity_dist s)) ss"
  using assms by (auto simp: pair_up_def list_eq_iff_nth_eq nth_list_update)

text \<open>\<open>mark_matched\<close> as a whole: it returns, and this is the state it leaves.\<close>

definition paired :: "nat \<Rightarrow> nat \<Rightarrow> nat \<Rightarrow> bool \<Rightarrow> generator \<Rightarrow> generator" where
  "paired i j c fl g = record_pair i j c fl (g\<lparr>stripes := pair_up c i j (stripes g)\<rparr>)"

lemma paired_stripes: "stripes (paired i j c fl g) = pair_up c i j (stripes g)"
  by (simp add: paired_def)

lemma paired_fields [simp]:
  "stripes_num (paired i j c fl g) = stripes_num g"
  "rs_n (paired i j c fl g) = rs_n g"
  "g_params (paired i j c fl g) = g_params g"
  "remaining_stripes (paired i j c fl g) = remaining_stripes g"
  "parity_map (paired i j c fl g) = parity_map g"
  "partial_dist_map (paired i j c fl g) = partial_dist_map g"
  "static_all_one (paired i j c fl g) = static_all_one g"
  "blocks_to_sent (paired i j c fl g) = blocks_to_sent g"
  "cost_table (paired i j c fl g) = cost_table g"
  "static_c (paired i j c fl g) = static_c g"
  by (simp_all add: paired_def)

lemma wf_gen_length: "wf_gen g \<Longrightarrow> length (stripes g) = stripes_num g"
  by (simp add: wf_gen_def wf_config_def)

lemma paired_config:
  assumes "i < length (stripes g)" and "j < length (stripes g)" and "i \<noteq> j"
  shows "same_config g (paired i j c fl g)"
  using pair_up_places [OF assms] by (simp add: same_config_def places_def paired_stripes)

lemma paired_wf:
  assumes "wf_gen g" and "i < stripes_num g" and "j < stripes_num g" and "i \<noteq> j"
  shows "wf_gen (paired i j c fl g)"
proof (rule same_config_wf_gen)
  show "same_config g (paired i j c fl g)"
    using assms by (intro paired_config) (simp_all add: wf_gen_length)
qed (use assms in simp_all)

lemma mark_matched_paired:
  assumes "wf_gen g" and "i < stripes_num g" and "j < stripes_num g" and "i \<noteq> j"
  shows "mark_matched g i j c fl = Some (paired i j c fl g)"
  using assms by (simp add: mark_matched_eq paired_def wf_gen_length)

lemma paired_pair_cost:
  assumes "wf_gen g" "i < stripes_num g" "j < stripes_num g" "i \<noteq> j"
    and "x < stripes_num g" "y < stripes_num g"
  shows "pair_cost (paired i j c fl g) x y = pair_cost g x y"
  using assms by (intro same_config_pair_cost paired_config) (simp_all add: wf_gen_length)

lemma paired_nth:
  assumes "wf_gen g" and "i < stripes_num g" and "j < stripes_num g" and "i \<noteq> j"
  shows "sel (paired i j c fl g) x \<longleftrightarrow> x = i \<or> x = j \<or> sel g x"
    and "mate (paired i j c fl g) x = (if x = i then j else if x = j then i else mate g x)"
    and "scost (paired i j c fl g) x = (if x = i \<or> x = j then c else scost g x)"
  using assms by (auto simp: paired_stripes pair_up_def nth_list_update wf_gen_length)

lemma mated_paired_self:
  assumes "wf_gen g" "i < stripes_num g" "j < stripes_num g" "i \<noteq> j" "c = pair_cost g i j"
  shows "mated (paired i j c fl g) i j" and "mated (paired i j c fl g) j i"
  using assms by (simp_all add: mated_def paired_nth paired_pair_cost pair_cost_sym [of g j i])

lemma mated_paired_other:
  assumes "wf_gen g" "i < stripes_num g" "j < stripes_num g" "i \<noteq> j"
    and "mated g x y" and "{x, y} \<inter> {i, j} = {}"
  shows "mated (paired i j c fl g) x y"
  using assms by (auto simp: mated_def paired_nth paired_pair_cost)

lemma mated_sym: "mated g i j \<Longrightarrow> mated g j i"
  by (simp add: mated_def pair_cost_sym)

lemma matching_okD: "matching_ok g \<Longrightarrow> i < stripes_num g \<Longrightarrow> sel g i \<Longrightarrow> mated g i (mate g i)"
  by (simp add: matching_ok_def)

lemma matedD:
  assumes "mated g i j"
  shows "i < stripes_num g" "j < stripes_num g" "i \<noteq> j" "sel g i" "sel g j"
    "mate g i = j" "mate g j = i" "scost g i = pair_cost g i j" "scost g j = pair_cost g i j"
  using assms by (simp_all add: mated_def)

text \<open>Pairing two stripes that are both free keeps the invariant.\<close>

lemma matching_ok_paired:
  assumes wf: "wf_gen g" and ok: "matching_ok g"
    and ij: "i < stripes_num g" "j < stripes_num g" "i \<noteq> j"
    and free: "\<not> sel g i" "\<not> sel g j" and c: "c = pair_cost g i j"
  shows "matching_ok (paired i j c fl g)"
  unfolding matching_ok_def
proof (intro allI impI)
  fix x assume x: "x < stripes_num (paired i j c fl g)" "sel (paired i j c fl g) x"
  show "mated (paired i j c fl g) x (mate (paired i j c fl g) x)"
  proof (cases "x = i \<or> x = j")
    case True
    with mated_paired_self [OF wf ij c] show ?thesis
      using paired_nth(2) [OF wf ij] ij by auto
  next
    case False
    with x have m: "mated g x (mate g x)"
      using matching_okD [OF ok] paired_nth(1) [OF wf ij] by auto
    with free have "{x, mate g x} \<inter> {i, j} = {}" using matedD [OF m] False by auto
    with m False show ?thesis
      using mated_paired_other [OF wf ij m] paired_nth(2) [OF wf ij] by simp
  qed
qed

lemma finite_pair_heads [simp]: "finite (pair_heads g)"
  by (simp add: pair_heads_def)

section \<open>\<open>print_statics\<close> computes the cost of the matching\<close>

lemma sum_costs_total:
  assumes "r < 255" and "length cnt = Suc r"
  shows "sum_costs r cnt = Some (wrap32 (\<Sum>c \<le> r. c * cnt ! c))"
proof -
  let ?f = "\<lambda>total i. do {
        c \<leftarrow> aget cnt i;
        Some (if c = 0 then total else wrap32 (total + wrap32 (i * c)))
      }"
  have "\<exists>t. foldM ?f 0 [0..<Suc r] = Some t \<and> t = wrap32 (\<Sum>c < Suc r. c * cnt ! c)"
  proof (rule foldM_upt [where I = "\<lambda>i t. t = wrap32 (\<Sum>c < i. c * cnt ! c)"])
    fix i t assume "0 \<le> i" "i < Suc r" and t: "t = wrap32 (\<Sum>c < i. c * cnt ! c)"
    then show "\<exists>t'. ?f t i = Some t' \<and> t' = wrap32 (\<Sum>c < Suc i. c * cnt ! c)"
      using assms(2) by (auto simp: wrap32_def mod_simps)
  qed (simp_all add: wrap32_def)
  moreover have "{..<Suc r} = {..r}" by auto
  ultimately show ?thesis using assms(1) by (simp add: sum_costs_def)
qed

text \<open>Counting the pairs by cost, then weighing the counts, sums the costs.\<close>

lemma sum_by_cost:
  fixes f :: "nat \<Rightarrow> nat"
  assumes "finite A" and "\<And>x. x \<in> A \<Longrightarrow> f x \<le> r"
  shows "(\<Sum>c \<le> r. c * card {x \<in> A. f x = c}) = (\<Sum>x \<in> A. f x)"
proof -
  have "(\<Sum>x \<in> A. f x) = (\<Sum>c \<le> r. \<Sum>x \<in> {x \<in> A. f x = c}. f x)"
    using assms by (intro sum.group [symmetric]) auto
  also have "\<dots> = (\<Sum>c \<le> r. c * card {x \<in> A. f x = c})"
    by (intro sum.cong refl) (simp add: mult.commute)
  finally show ?thesis by simp
qed

text \<open>After \<open>i\<close> iterations: who is flagged, and how often each cost has been counted.\<close>

definition count_inv :: "generator \<Rightarrow> nat \<Rightarrow> nat list \<times> bool list \<Rightarrow> bool" where
  "count_inv g i st \<longleftrightarrow> (case st of (cnt, flag) \<Rightarrow>
     length cnt = rs_n g + 1 \<and> length flag = stripes_num g \<and>
     (\<forall>x < stripes_num g. flag ! x \<longleftrightarrow> x < i \<or> mate g x < i) \<and>
     (\<forall>c \<le> rs_n g. cnt ! c = card {x \<in> pair_heads g. x < i \<and> scost g x = c}))"

lemma count_pair_total:
  assumes wf: "wf_gen g" and ok: "matching_ok g" and all: "all_matched g"
    and i: "i < stripes_num g" and inv: "count_inv g i st"
  shows "\<exists>st'. count_pair g st i = Some st' \<and> count_inv g (Suc i) st'"
proof -
  obtain cnt flag where st: "st = (cnt, flag)" by fastforce
  let ?n = "stripes_num g" and ?m = "mate g i"
  have len: "length cnt = rs_n g + 1" "length flag = ?n" "length (stripes g) = ?n"
    and fl: "\<And>x. x < ?n \<Longrightarrow> flag ! x \<longleftrightarrow> x < i \<or> mate g x < i"
    and cn: "\<And>c. c \<le> rs_n g \<Longrightarrow> cnt ! c = card {x \<in> pair_heads g. x < i \<and> scost g x = c}"
    using inv wf unfolding count_inv_def st prod.case by (auto simp: wf_gen_length)
  have mt: "mated g x (mate g x)" if "x < ?n" for x
    using matching_okD [OF ok] all that by (simp add: all_matched_def)
  have mi: "?m < ?n" "?m \<noteq> i" "mate g ?m = i" "sel g i"
    using matedD [OF mt [OF i]] by auto
  have mate_eq: "mate g x = i \<longleftrightarrow> x = ?m" if "x < ?n" for x
    using matedD(7) [OF mt [OF that]] mi(3) by metis
  have fmi: "flag ! ?m \<longleftrightarrow> ?m < i" using fl mi by auto
  show ?thesis
  proof (cases "?m < i")
    case True
    then have nh: "i \<notin> pair_heads g" by (simp add: pair_heads_def)
    have "flag ! i" using fl i True by simp
    then have "count_pair g st i = Some (cnt, flag)"
      using i len by (simp add: count_pair_def st)
    moreover have "count_inv g (Suc i) (cnt, flag)"
      unfolding count_inv_def prod.case
    proof (intro conjI allI impI)
      fix x assume x: "x < ?n"
      show "flag ! x \<longleftrightarrow> x < Suc i \<or> mate g x < Suc i"
        using fl [OF x] mate_eq [OF x] True by (auto simp: less_Suc_eq)
    next
      fix c assume c: "c \<le> rs_n g"
      have "{x \<in> pair_heads g. x < Suc i \<and> scost g x = c} =
          {x \<in> pair_heads g. x < i \<and> scost g x = c}"
        using nh by (auto simp: less_Suc_eq)
      then show "cnt ! c = card {x \<in> pair_heads g. x < Suc i \<and> scost g x = c}"
        using cn [OF c] by simp
    qed (use len in simp_all)
    ultimately show ?thesis by blast
  next
    case False
    with mi have im: "i < ?m" by simp
    then have h: "i \<in> pair_heads g" using i mi by (simp add: pair_heads_def)
    have nf: "\<not> flag ! i" "\<not> flag ! ?m" using fl i False fmi by auto
    have sc: "scost g i \<le> rs_n g"
      using matedD(8) [OF mt [OF i]] pair_cost_le_rs_n [of g i ?m] wf i mi
      by (simp add: wf_gen_def)
    have "cnt ! scost g i \<le> card {x. x < i}"
      unfolding cn [OF sc] by (rule card_mono) auto
    then have small: "cnt ! scost g i + 1 < 4294967296"
      using i wf by (simp add: wf_gen_def wf_config_def)
    let ?cnt = "cnt[scost g i := cnt ! scost g i + 1]"
    let ?flag = "flag[i := True, ?m := True]"
    have "count_pair g st i = Some (?cnt, ?flag)"
      using i mi len nf sc small by (simp add: count_pair_def st wrap_simps)
    moreover have "count_inv g (Suc i) (?cnt, ?flag)"
      unfolding count_inv_def prod.case
    proof (intro conjI allI impI)
      fix x assume x: "x < ?n"
      show "?flag ! x \<longleftrightarrow> x < Suc i \<or> mate g x < Suc i"
        using fl [OF x] mate_eq [OF x] len x i mi
        by (auto simp: less_Suc_eq nth_list_update)
    next
      fix c assume c: "c \<le> rs_n g"
      show "?cnt ! c = card {x \<in> pair_heads g. x < Suc i \<and> scost g x = c}"
      proof (cases "c = scost g i")
        case True
        then have "{x \<in> pair_heads g. x < Suc i \<and> scost g x = c} =
            insert i {x \<in> pair_heads g. x < i \<and> scost g x = c}"
          using h by (auto simp: less_Suc_eq)
        then show ?thesis using True cn [OF c] c len by simp
      next
        case False
        then have "{x \<in> pair_heads g. x < Suc i \<and> scost g x = c} =
            {x \<in> pair_heads g. x < i \<and> scost g x = c}"
          by (auto simp: less_Suc_eq)
        then show ?thesis using False cn [OF c] by simp
      qed
    qed (use len in simp_all)
    ultimately show ?thesis by blast
  qed
qed

lemma matching_cost_bound:
  assumes "wf_config g" and "matching_ok g" and "x \<in> pair_heads g"
  shows "scost g x \<le> rs_n g"
proof -
  have "x < stripes_num g" "sel g x" using assms(3) by (simp_all add: pair_heads_def)
  then have "mated g x (mate g x)" using matching_okD [OF assms(2)] by simp
  then show ?thesis using pair_cost_le_rs_n [of g x "mate g x"] assms(1) by (simp add: mated_def)
qed

lemma print_statics_cost:
  assumes wf: "wf_gen g" and ok: "matching_ok g" and all: "all_matched g"
  shows "print_statics g = Some (wrap32 (matching_cost g))"
proof -
  let ?s = "(replicate (rs_n g + 1) 0, replicate (stripes_num g) False)"
  have "count_inv g 0 ?s" by (simp add: count_inv_def del: replicate_Suc)
  then obtain st where st: "foldM (count_pair g) ?s [0..<stripes_num g] = Some st"
      "count_inv g (stripes_num g) st"
    using foldM_upt [of 0 "stripes_num g" "count_inv g" ?s "count_pair g"]
      count_pair_total [OF wf ok all] by blast
  obtain cnt flag where cf: "st = (cnt, flag)" by fastforce
  have len: "length cnt = Suc (rs_n g)"
    and cn: "\<And>c. c \<le> rs_n g \<Longrightarrow> cnt ! c = card {x \<in> pair_heads g. scost g x = c}"
    using st(2) unfolding count_inv_def cf prod.case by (auto simp: pair_heads_def intro: arg_cong)
  have "(\<Sum>c \<le> rs_n g. c * cnt ! c) =
      (\<Sum>c \<le> rs_n g. c * card {x \<in> pair_heads g. scost g x = c})"
    by (rule sum.cong) (simp_all add: cn)
  also have "\<dots> = matching_cost g"
    unfolding matching_cost_def
    by (rule sum_by_cost) (use matching_cost_bound [OF _ ok] wf in \<open>auto simp: wf_gen_def\<close>)
  finally have "sum_costs (rs_n g) cnt = Some (wrap32 (matching_cost g))"
    using sum_costs_total [OF _ len] rs_n_less [of g] wf by (simp add: wf_gen_def)
  then show ?thesis using st(1) cf by (simp add: print_statics_def)
qed

section \<open>Both members of a pair carry its cost\<close>

lemma sum_over_pairs:
  fixes f :: "nat \<Rightarrow> nat"
  assumes ok: "matching_ok g" and f: "\<And>x. x < stripes_num g \<Longrightarrow> sel g x \<Longrightarrow> f (mate g x) = f x"
  shows "(\<Sum>x \<in> {x. x < stripes_num g \<and> sel g x}. f x) = 2 * (\<Sum>x \<in> pair_heads g. f x)"
proof -
  let ?S = "{x. x < stripes_num g \<and> sel g x}" and ?H = "pair_heads g"
  have m: "mated g x (mate g x)" if "x \<in> ?S" for x using matching_okD [OF ok] that by simp
  have H: "?H \<subseteq> ?S" by (auto simp: pair_heads_def)
  have S: "?S = ?H \<union> mate g ` ?H"
  proof
    show "?S \<subseteq> ?H \<union> mate g ` ?H"
    proof
      fix x assume x: "x \<in> ?S"
      note mx = matedD [OF m [OF x]]
      show "x \<in> ?H \<union> mate g ` ?H"
      proof (cases "x < mate g x")
        case True
        then show ?thesis using x by (simp add: pair_heads_def)
      next
        case False
        then have "mate g x \<in> ?H" using mx by (simp add: pair_heads_def)
        then show ?thesis using mx(7) by (metis UnI2 imageI)
      qed
    qed
    show "?H \<union> mate g ` ?H \<subseteq> ?S" using H m matedD(2,5) by blast
  qed
  have inj: "inj_on (mate g) ?H"
    using H m matedD(7) by (intro inj_onI) (metis subsetD)
  have disj: "?H \<inter> mate g ` ?H = {}"
  proof -
    have "mate g x \<notin> ?H" if "x \<in> ?H" for x
      using that matedD(7) [OF m] H by (auto simp: pair_heads_def)
    then show ?thesis by auto
  qed
  have "sum f ?S = sum f ?H + sum f (mate g ` ?H)"
    unfolding S by (rule sum.union_disjoint) (simp_all add: disj)
  also have "sum f (mate g ` ?H) = (\<Sum>x \<in> ?H. f (mate g x))"
    using inj by (simp add: sum.reindex)
  also have "\<dots> = sum f ?H" using H f by (intro sum.cong) auto
  finally show ?thesis by simp
qed

lemma matching_cost_sum:
  assumes "matching_ok g"
  shows "(\<Sum>x \<in> {x. x < stripes_num g \<and> sel g x}. scost g x) = 2 * matching_cost g"
  unfolding matching_cost_def
proof (rule sum_over_pairs [OF assms])
  fix x assume "x < stripes_num g" "sel g x"
  note m = matedD(8,9) [OF matching_okD [OF assms this]]
  then show "scost g (mate g x) = scost g x" by simp
qed

lemma matched_even:
  assumes "matching_ok g"
  shows "even (card {x. x < stripes_num g \<and> sel g x})"
  using sum_over_pairs [OF assms, of "\<lambda>_. 1"] by simp

text \<open>An even number of stripes of which at most one is free: all are matched.\<close>

lemma all_matched_if_even:
  assumes ok: "matching_ok g" and n: "even (stripes_num g)" and f: "card (free_stripes g) \<le> 1"
  shows "all_matched g"
proof -
  let ?S = "{x. x < stripes_num g \<and> sel g x}"
  have "{..<stripes_num g} = ?S \<union> free_stripes g" by auto
  then have "stripes_num g = card (?S \<union> free_stripes g)" using card_lessThan by metis
  also have "\<dots> = card ?S + card (free_stripes g)" by (rule card_Un_disjoint) auto
  finally have "even (card ?S + card (free_stripes g))" using n by metis
  then have "even (card (free_stripes g))" using matched_even [OF ok] by (simp only: even_add)
  with f have "card (free_stripes g) = 0" by (metis le_SucE One_nat_def le_zero_eq odd_one)
  then have "free_stripes g = {}" by simp
  then show ?thesis by (auto simp: all_matched_def)
qed

section \<open>An incomplete matching\<close>

text \<open>
  The stripes that are not matched have the partner the constructor gave them, which is no stripe. A loop
  over the pairs that looks up the partner of every stripe it has not met yet then leaves its array.
\<close>

definition unmatched_blank :: "generator \<Rightarrow> bool" where
  "unmatched_blank g \<longleftrightarrow> (\<forall>x < stripes_num g. \<not> sel g x \<longrightarrow> mate g x = u32_max)"

lemma pair_loop_undefined:
  assumes ok: "wf_gen g" "matching_ok g" "unmatched_blank g"
    and x: "x < stripes_num g" "\<not> sel g x" and init: "length (fl s) = stripes_num g" "\<not> fl s ! x"
    and none: "\<And>s. length (fl s) = stripes_num g \<Longrightarrow> \<not> fl s ! x \<Longrightarrow> aget (fl s) (mate g x) = None \<Longrightarrow>
      I s \<Longrightarrow> f s x = None"
    and keep: "I s" "\<And>s s' i. i < stripes_num g \<Longrightarrow> length (fl s) = stripes_num g \<Longrightarrow> I s \<Longrightarrow> f s i = Some s' \<Longrightarrow>
      I s' \<and> (fl s' = fl s \<or> fl s' = (fl s)[i := True, mate g i := True])"
  shows "foldM f s [0..<stripes_num g] = None"
proof (rule ccontr)
  let ?n = "stripes_num g" and ?J = "\<lambda>s. I s \<and> length (fl s) = stripes_num g \<and> \<not> fl s ! x"
  assume "\<not> ?thesis"
  moreover have "[0..<?n] = [0..<x] @ x # [Suc x..<?n]"
    using x(1) upt_add_eq_append [of 0 x "?n - x"] upt_conv_Cons [of x ?n] by simp
  ultimately obtain t where t: "foldM f s [0..<x] = Some t" "f t x \<noteq> None"
    by (cases "foldM f s [0..<x]") (auto simp: foldM_append bind_eq_Some_conv)
  have n: "?n < u32_max" using ok(1) by (simp add: wf_gen_def wf_config_def)
  have other: "mate g i \<noteq> x" if "i < x" for i
  proof (cases "sel g i")
    case True
    then have "sel g (mate g i)" using matedD(5) [OF matching_okD [OF ok(2) _ True]] that x(1) by simp
    then show ?thesis using x(2) by auto
  next
    case False
    then show ?thesis using ok(3) that x(1) n by (auto simp: unmatched_blank_def)
  qed
  have "?J t"
  proof (rule foldM_invariant [where I = ?J, OF t(1)])
    fix i a b assume i: "i \<in> set [0..<x]" and a: "?J a" "f a i = Some b"
    with keep(2) [of i a b] x(1) other [of i] show "?J b" by (auto simp: nth_list_update)
  qed (use init keep(1) in simp)
  moreover have "aget (fl t) (mate g x) = None"
    using ok(3) x n calculation by (simp add: unmatched_blank_def aget_def)
  ultimately show False using none [of t] t(2) by simp
qed

lemma odd_unmatched: "matching_ok g \<Longrightarrow> odd (stripes_num g) \<Longrightarrow> \<not> all_matched g"
proof
  assume ok: "matching_ok g" and n: "odd (stripes_num g)" and all: "all_matched g"
  then have "{x. x < stripes_num g \<and> sel g x} = {..<stripes_num g}" by (auto simp: all_matched_def)
  with matched_even [OF ok] n show False by simp
qed

lemma print_statics_incomplete:
  assumes "wf_gen g" and "matching_ok g" and "unmatched_blank g" and "\<not> all_matched g"
  shows "print_statics g = None"
proof -
  let ?s = "(replicate (rs_n g + 1) 0, replicate (stripes_num g) False)"
  obtain x where x: "x < stripes_num g" "\<not> sel g x" using assms(4) by (auto simp: all_matched_def)
  have "foldM (count_pair g) ?s [0..<stripes_num g] = None"
    by (rule pair_loop_undefined [where fl = snd and I = "\<lambda>_. True", OF assms(1-3) x])
      (use x wf_gen_length [OF assms(1)] in
        \<open>auto simp: count_pair_def Let_def aget_Some_iff aset_Some_iff bind_eq_Some_conv
          split: prod.splits if_splits\<close>)
  then show ?thesis by (simp add: print_statics_def)
qed

end
