(* ===== verification/Greedy.thy ===== *)
theory Greedy
  imports Matching
begin

unbundle bit_operations_syntax

text \<open>
  StripeMerge-G: \<open>MatchingGenerator::basic_greedy\<close> and \<open>random_match\<close>
  (src/matching_generator.cc). The pairs are collected in one bucket per cost, packed into
  64-bit tokens, and then taken greedily from the cheapest bucket up.

  \<open>greedy_inv\<close> is the invariant of the selection loop over the pairs processed so far;
  \<open>basic_greedy_total\<close> collects what holds when it returns: a matching that leaves at most one
  stripe over, in which no two stripes would both prefer each other to what they got.
\<close>

section \<open>Tokens\<close>

type_synonym token = "64 word"

definition make_token :: "nat \<Rightarrow> nat \<Rightarrow> token" where
  "make_token i j = push_bit 32 (of_nat j) OR of_nat i"

definition token_i :: "token \<Rightarrow> nat" where
  "token_i m = unat (m AND 0xFFFFFFFF)"

definition token_j :: "token \<Rightarrow> nat" where
  "token_j m = unat (drop_bit 32 m AND 0xFFFFFFFF)"

section \<open>Operations\<close>

definition collect_pair ::
  "generator \<times> token list list \<Rightarrow> nat \<Rightarrow> nat \<Rightarrow> (generator \<times> token list list) option" where
  "collect_pair st i j = (case st of (g, level) \<Rightarrow> do {
     (cost, g') \<leftarrow> get_cost g i j;
     l \<leftarrow> aget level cost;
     level' \<leftarrow> aset level cost (l @ [make_token i j]);
     Some (g', level')
   })"

definition collect_all ::
  "generator \<times> token list list \<Rightarrow> (generator \<times> token list list) option" where
  "collect_all st = foldM (\<lambda>st i.
     foldM (\<lambda>st j. collect_pair st i j) st [Suc i..<stripes_num (fst st)])
     st [0..<stripes_num (fst st)]"

definition collect_remaining ::
  "generator \<times> token list list \<Rightarrow> (generator \<times> token list list) option" where
  "collect_remaining st = foldM (\<lambda>st i. do {
     s \<leftarrow> aget (stripes (fst st)) i;
     if selected s then Some st
     else foldM (\<lambda>st j. do {
       t \<leftarrow> aget (stripes (fst st)) j;
       if selected t then Some st else collect_pair st i j
     }) st [Suc i..<stripes_num (fst st)]
   }) st [0..<stripes_num (fst st)]"

text \<open>The local variables of the selection loops.\<close>

record greedy =
  gr_gen :: generator
  gr_flag :: "bool list"
  gr_selected :: "nat list"
  gr_num :: nat

text \<open>
  The loop over one bucket; \<open>flag[j]\<close> is read only when \<open>flag[i]\<close> is false. It is left
  when no pair is wanted any more.
\<close>

fun select_level :: "nat \<Rightarrow> token list \<Rightarrow> greedy \<Rightarrow> greedy option" where
  "select_level cost [] st = Some st"
| "select_level cost (m # ms) st = do {
     let i = token_i m;
     let j = token_j m;
     fi \<leftarrow> aget (gr_flag st) i;
     fj \<leftarrow> (if fi then Some True else aget (gr_flag st) j);
     if \<not> fi \<and> \<not> fj then do {
       x \<leftarrow> aget (gr_selected st) cost;
       sel' \<leftarrow> aset (gr_selected st) cost (wrap32 (x + 1));
       flag1 \<leftarrow> aset (gr_flag st) j True;
       flag2 \<leftarrow> aset flag1 i True;
       g' \<leftarrow> mark_matched (gr_gen st) i j cost False;
       let num' = sub32 (gr_num st) 1;
       let st' = \<lparr>gr_gen = g', gr_flag = flag2, gr_selected = sel', gr_num = num'\<rparr>;
       if num' = 0 then Some st' else select_level cost ms st'
     } else select_level cost ms st
   }"

fun select_levels :: "nat list \<Rightarrow> token list list \<Rightarrow> greedy \<Rightarrow> greedy option" where
  "select_levels [] level st = Some st"
| "select_levels (c # cs) level st =
     (if gr_num st = 0 then Some st
      else do {
        l \<leftarrow> aget level c;
        st' \<leftarrow> select_level c l st;
        select_levels cs level st'
      })"

text \<open>
  The whole method. With \<open>rs_n = 255\<close> the 8-bit loop variable never exceeds the bound: the
  selection loop then ends only through its second condition, the summing loop never.
\<close>

definition basic_greedy :: "generator \<Rightarrow> bool \<Rightarrow> (exit_status + nat \<times> generator) option" where
  "basic_greedy g remain_flag =
     (if node_num (g_params g) < 2 * rs_k (g_params g) + rs_m (g_params g)
      then Some (Inl (Exit (-1)))
      else do {
        let level = replicate (rs_n g + 1) [];
        (g1, level1) \<leftarrow> (if \<not> remain_flag then collect_all (g, level)
                        else collect_remaining (g, level));
        let num = (if remain_flag then wrap32 (length (remaining_stripes g1) div 2)
                   else stripes_num g1 div 2);
        let st = \<lparr>gr_gen = g1, gr_flag = replicate (stripes_num g1) False,
                  gr_selected = replicate (rs_n g1 + 1) 0, gr_num = num\<rparr>;
        st' \<leftarrow> select_levels [0..<Suc (rs_n g1)] level1 st;
        if rs_n g1 = 255 \<and> gr_num st' \<noteq> 0 then None
        else if \<not> remain_flag then do {
          total \<leftarrow> sum_costs (rs_n g1) (gr_selected st');
          Some (Inr (total, gr_gen st'))
        } else Some (Inr (0, gr_gen st'))
      })"

text \<open>
  \<open>random_match\<close>: neighbours of a random order are paired. \<open>shuf\<close> is
  \<open>std::random_shuffle\<close>. With an odd number of stripes the last iteration reads past the end.
\<close>

function even_indices :: "nat \<Rightarrow> nat \<Rightarrow> nat list" where
  "even_indices i n = (if i < n then i # even_indices (i + 2) n else [])"
  by pat_completeness auto
termination by (relation "measure (\<lambda>(i, n). n - i)") auto

declare even_indices.simps [simp del]

definition match_at :: "nat list \<Rightarrow> generator \<Rightarrow> nat \<Rightarrow> generator option" where
  "match_at pos g i = do {
     a \<leftarrow> aget pos i;
     b \<leftarrow> aget pos (i + 1);
     (cost, g1) \<leftarrow> get_cost g a b;
     mark_matched g1 a b cost False
   }"

definition random_match :: "(nat list \<Rightarrow> nat list) \<Rightarrow> generator \<Rightarrow> generator option" where
  "random_match shuf g = do {
     let pos = shuf [0..<stripes_num g];
     foldM (match_at pos) g (even_indices 0 (stripes_num g))
   }"

section \<open>Tokens are a faithful encoding\<close>

lemma unat_make_token:
  assumes "i < 4294967296" and "j < 4294967296"
  shows "unat (make_token i j) = push_bit 32 j OR i"
proof -
  have "unat (of_nat i :: token) = i" and j: "unat (of_nat j :: token) = j"
    using assms by (simp_all add: unat_of_nat)
  moreover have "push_bit 32 j < 2 ^ 64" using assms(2) by (simp add: push_bit_eq_mult)
  then have "unat (push_bit 32 (of_nat j :: token)) = push_bit 32 j"
    using j by (simp add: unsigned_push_bit_eq take_bit_nat_eq_self)
  ultimately show ?thesis by (simp add: make_token_def unsigned_or_eq)
qed

lemma token_roundtrip:
  assumes i: "i < 4294967296" and j: "j < 4294967296"
  shows "token_i (make_token i j) = i" and "token_j (make_token i j) = j"
proof -
  have mask: "unat (0xFFFFFFFF :: token) = mask 32" by (simp add: mask_eq_exp_minus_1)
  have ti: "take_bit 32 i = i" and tj: "take_bit 32 j = j"
    using i j by (simp_all add: take_bit_nat_eq_self)
  have "token_i (make_token i j) = take_bit 32 (push_bit 32 j OR i)"
    unfolding token_i_def unsigned_and_eq unat_make_token [OF i j] mask
    by (simp add: take_bit_eq_mask)
  also have "\<dots> = i" using ti by (simp add: take_bit_or take_bit_push_bit)
  finally show "token_i (make_token i j) = i" .
  have "drop_bit 32 i = 0" using i by (simp add: drop_bit_eq_div)
  then have d: "drop_bit 32 (push_bit 32 j OR i) = j" by (simp add: drop_bit_or drop_bit_push_bit)
  have "unat (drop_bit 32 (make_token i j)) = j"
    unfolding unat_drop_bit_eq unat_make_token [OF i j] by (rule d)
  then show "token_j (make_token i j) = j"
    unfolding token_j_def unsigned_and_eq mask using tj by (simp add: take_bit_eq_mask)
qed


section \<open>Collecting the pairs by cost\<close>

definition row_pairs :: "(nat \<Rightarrow> bool) \<Rightarrow> nat \<Rightarrow> nat \<Rightarrow> (nat \<times> nat) list" where
  "row_pairs P n i = map (Pair i) (filter P [Suc i..<n])"

definition all_pairs :: "(nat \<Rightarrow> bool) \<Rightarrow> nat \<Rightarrow> (nat \<times> nat) list" where
  "all_pairs P n = concat (map (row_pairs P n) (filter P [0..<n]))"

lemma set_all_pairs: "set (all_pairs P n) = {(i, j). i < j \<and> j < n \<and> P i \<and> P j}"
  by (auto simp: all_pairs_def row_pairs_def image_iff Suc_le_eq)

definition cost_tokens :: "generator \<Rightarrow> (nat \<times> nat) list \<Rightarrow> nat \<Rightarrow> token list" where
  "cost_tokens g ps c =
     map (\<lambda>(i, j). make_token i j) (filter (\<lambda>(i, j). pair_cost g i j = c) ps)"

definition collected :: "generator \<Rightarrow> (nat \<times> nat) list \<Rightarrow> generator \<times> token list list \<Rightarrow> bool" where
  "collected g0 ps st \<longleftrightarrow> (case st of (g, level) \<Rightarrow>
     wf_gen g \<and> same_but_memo g0 g \<and> length level = rs_n g0 + 1 \<and>
     (\<forall>c \<le> rs_n g0. level ! c = cost_tokens g0 ps c))"

lemma collect_pair_total:
  assumes inv: "collected g0 ps st" and ij: "i < j" "j < stripes_num g0"
  shows "\<exists>st'. collect_pair st i j = Some st' \<and> collected g0 (ps @ [(i, j)]) st'"
proof -
  obtain g level where st: "st = (g, level)" by fastforce
  have g: "wf_gen g" "same_but_memo g0 g" "length level = rs_n g0 + 1"
    and lv: "\<And>c. c \<le> rs_n g0 \<Longrightarrow> level ! c = cost_tokens g0 ps c"
    using inv unfolding collected_def st prod.case by auto
  have n: "stripes_num g = stripes_num g0" "rs_n g = rs_n g0" "pair_cost g = pair_cost g0"
    using g(2) by (simp_all add: same_but_memo_fields same_but_memo_pair_cost)
  let ?c = "pair_cost g0 i j"
  have "i < stripes_num g" and "j < stripes_num g" and "i \<noteq> j" using ij n by auto
  then obtain g' where g': "get_cost g i j = Some (?c, g')" "wf_gen g'" "same_but_memo g g'"
    using get_cost_total [OF g(1)] n(3) by metis
  have c: "?c \<le> rs_n g0"
    using pair_cost_le_rs_n [of g i j] g(1) ij n by (simp add: wf_gen_def)
  let ?level = "level[?c := level ! ?c @ [make_token i j]]"
  have "collect_pair st i j = Some (g', ?level)"
    using g'(1) g(3) c by (simp add: collect_pair_def st)
  moreover have "collected g0 (ps @ [(i, j)]) (g', ?level)"
    unfolding collected_def prod.case
  proof (intro conjI allI impI)
    fix d assume "d \<le> rs_n g0"
    then show "?level ! d = cost_tokens g0 (ps @ [(i, j)]) d"
      using lv g(3) c by (auto simp: nth_list_update cost_tokens_def)
  qed (use g g' in \<open>auto intro: same_but_memo_trans\<close>)
  ultimately show ?thesis by blast
qed

lemma collected_init:
  assumes "wf_gen g"
  shows "collected g [] (g, replicate (rs_n g + 1) [])"
  using assms by (simp add: collected_def cost_tokens_def del: replicate_Suc)

lemma collected_fields:
  assumes "collected g0 ps st"
  shows "stripes (fst st) = stripes g0" and "stripes_num (fst st) = stripes_num g0"
  using assms by (auto simp: collected_def same_but_memo_fields)

text \<open>The two collecting loops, over all stripes and over the free ones.\<close>

lemma collect_all_total:
  assumes wf: "wf_gen g"
  shows "\<exists>st. collect_all (g, replicate (rs_n g + 1) []) = Some st \<and>
    collected g (all_pairs (\<lambda>_. True) (stripes_num g)) st"
proof -
  let ?n = "stripes_num g"
  let ?I = "\<lambda>is. collected g (concat (map (row_pairs (\<lambda>_. True) ?n) is))"
  have row: "\<exists>st'. foldM (\<lambda>st j. collect_pair st i j) st [Suc i..<?n] = Some st' \<and>
      collected g (ps @ row_pairs (\<lambda>_. True) ?n i) st'"
    if "collected g ps st" for ps st i
  proof -
    have "\<exists>st'. foldM (\<lambda>st j. collect_pair st i j) st [Suc i..<?n] = Some st' \<and>
        collected g (ps @ map (Pair i) [Suc i..<?n]) st'"
    proof (rule foldM_total [where I = "\<lambda>js. collected g (ps @ map (Pair i) js)"])
      show "collected g (ps @ map (Pair i) []) st" using that by simp
    next
      fix pre j post st
      assume split: "[Suc i..<?n] = pre @ j # post" and inv: "collected g (ps @ map (Pair i) pre) st"
      have "j \<in> set [Suc i..<?n]" unfolding split by simp
      then show "\<exists>st'. collect_pair st i j = Some st' \<and>
          collected g (ps @ map (Pair i) (pre @ [j])) st'"
        using collect_pair_total [OF inv, of i j] by simp
    qed
    then show ?thesis by (simp add: row_pairs_def)
  qed
  have "\<exists>st. foldM (\<lambda>st i. foldM (\<lambda>st j. collect_pair st i j) st
      [Suc i..<stripes_num (fst st)]) (g, replicate (rs_n g + 1) []) [0..<?n] = Some st \<and>
      ?I [0..<?n] st"
  proof (rule foldM_total [where I = ?I])
    show "?I [] (g, replicate (rs_n g + 1) [])" using collected_init [OF wf] by simp
  next
    fix pre i post st
    assume inv: "?I pre st"
    show "\<exists>st'. foldM (\<lambda>st j. collect_pair st i j) st [Suc i..<stripes_num (fst st)] = Some st' \<and>
        ?I (pre @ [i]) st'"
      using row [OF inv, of i] collected_fields [OF inv] by simp
  qed
  then show ?thesis by (simp add: collect_all_def all_pairs_def)
qed

lemma collect_remaining_total:
  assumes wf: "wf_gen g"
  shows "\<exists>st. collect_remaining (g, replicate (rs_n g + 1) []) = Some st \<and>
    collected g (all_pairs (\<lambda>i. \<not> sel g i) (stripes_num g)) st"
proof -
  let ?n = "stripes_num g" and ?P = "\<lambda>i. \<not> sel g i"
  let ?row = "\<lambda>i st j. do {
       t \<leftarrow> aget (stripes (fst st)) j;
       if selected t then Some st else collect_pair st i j
     }"
  let ?I = "\<lambda>is. collected g (concat (map (row_pairs ?P ?n) (filter ?P is)))"
  have len: "length (stripes g) = ?n" using wf by (rule wf_gen_length)
  have row: "\<exists>st'. foldM (?row i) st [Suc i..<?n] = Some st' \<and>
      collected g (ps @ row_pairs ?P ?n i) st'"
    if "collected g ps st" for ps st i
  proof -
    have "\<exists>st'. foldM (?row i) st [Suc i..<?n] = Some st' \<and>
        collected g (ps @ map (Pair i) (filter ?P [Suc i..<?n])) st'"
    proof (rule foldM_total [where I = "\<lambda>js. collected g (ps @ map (Pair i) (filter ?P js))"])
      show "collected g (ps @ map (Pair i) (filter ?P [])) st" using that by simp
    next
      fix pre j post st
      assume split: "[Suc i..<?n] = pre @ j # post"
        and inv: "collected g (ps @ map (Pair i) (filter ?P pre)) st"
      have j: "j \<in> set [Suc i..<?n]" unfolding split by simp
      then have "aget (stripes (fst st)) j = Some (stripes g ! j)"
        using collected_fields [OF inv] len by simp
      then show "\<exists>st'. ?row i st j = Some st' \<and>
          collected g (ps @ map (Pair i) (filter ?P (pre @ [j]))) st'"
        using collect_pair_total [OF inv, of i j] j inv by (cases "sel g j") auto
    qed
    then show ?thesis by (simp add: row_pairs_def)
  qed
  have "\<exists>st. collect_remaining (g, replicate (rs_n g + 1) []) = Some st \<and> ?I [0..<?n] st"
    unfolding collect_remaining_def fst_conv
  proof (rule foldM_total [where I = ?I])
    show "?I [] (g, replicate (rs_n g + 1) [])" using collected_init [OF wf] by simp
  next
    fix pre i post st
    assume split: "[0..<?n] = pre @ i # post" and inv: "?I pre st"
    have i: "i \<in> set [0..<?n]" unfolding split by simp
    then have a: "aget (stripes (fst st)) i = Some (stripes g ! i)"
      using collected_fields [OF inv] len by simp
    show "\<exists>st'. do {
         s \<leftarrow> aget (stripes (fst st)) i;
         if selected s then Some st else foldM (?row i) st [Suc i..<stripes_num (fst st)]
       } = Some st' \<and> ?I (pre @ [i]) st'"
    proof (cases "sel g i")
      case True
      then show ?thesis using a inv by simp
    next
      case False
      then show ?thesis using a row [OF inv, of i] collected_fields [OF inv] by simp
    qed
  qed
  then show ?thesis by (simp add: all_pairs_def)
qed


section \<open>The selection loop\<close>

text \<open>Everything outside the stripes' pairing fields and the memo.\<close>

definition same_but_pairs :: "generator \<Rightarrow> generator \<Rightarrow> bool" where
  "same_but_pairs g g' \<longleftrightarrow>
     g'\<lparr>cost_table := [], static_c := None, stripes := []\<rparr> =
     g\<lparr>cost_table := [], static_c := None, stripes := []\<rparr>"

lemma same_but_pairs_refl [simp]: "same_but_pairs g g"
  by (simp add: same_but_pairs_def)

lemma same_but_pairs_trans [trans]:
  "same_but_pairs g g' \<Longrightarrow> same_but_pairs g' g'' \<Longrightarrow> same_but_pairs g g''"
  by (simp add: same_but_pairs_def)

lemma same_but_memo_pairs: "same_but_memo g g' \<Longrightarrow> same_but_pairs g g'"
  unfolding same_but_memo_def same_but_pairs_def
  by (drule arg_cong [of _ _ "stripes_update (\<lambda>_. [])"]) simp

lemma same_but_pairs_paired: "same_but_pairs g (paired i j c False g)"
  by (simp add: same_but_pairs_def paired_def record_pair_def)

lemma same_but_pairs_fields:
  assumes "same_but_pairs g g'"
  shows "remaining_stripes g' = remaining_stripes g" "parity_map g' = parity_map g"
    "partial_dist_map g' = partial_dist_map g" "zero_map g' = zero_map g"
    "none_zero_candidate g' = none_zero_candidate g" "blocks_to_sent g' = blocks_to_sent g"
    "static_all_one g' = static_all_one g"
proof -
  note eq = assms [unfolded same_but_pairs_def]
  show "remaining_stripes g' = remaining_stripes g" using arg_cong [OF eq, of remaining_stripes] by simp
  show "parity_map g' = parity_map g" using arg_cong [OF eq, of parity_map] by simp
  show "partial_dist_map g' = partial_dist_map g" using arg_cong [OF eq, of partial_dist_map] by simp
  show "zero_map g' = zero_map g" using arg_cong [OF eq, of zero_map] by simp
  show "none_zero_candidate g' = none_zero_candidate g"
    using arg_cong [OF eq, of none_zero_candidate] by simp
  show "blocks_to_sent g' = blocks_to_sent g" using arg_cong [OF eq, of blocks_to_sent] by simp
  show "static_all_one g' = static_all_one g" using arg_cong [OF eq, of static_all_one] by simp
qed

text \<open>
  A pair is settled when one of its members has been taken in this run, at no higher cost than
  that of the pair.
\<close>

definition settled :: "generator \<Rightarrow> bool list \<Rightarrow> nat \<Rightarrow> nat \<Rightarrow> bool" where
  "settled g fl i j \<longleftrightarrow>
     fl ! i \<and> scost g i \<le> pair_cost g i j \<or> fl ! j \<and> scost g j \<le> pair_cost g i j"

definition flags_ok :: "generator \<Rightarrow> nat \<Rightarrow> generator \<Rightarrow> bool list \<Rightarrow> bool" where
  "flags_ok g0 c g fl \<longleftrightarrow> (\<forall>x < stripes_num g0.
     (sel g x \<longleftrightarrow> sel g0 x \<or> fl ! x) \<and>
     (fl ! x \<longrightarrow> \<not> sel g0 x \<and> scost g x \<le> c) \<and>
     (\<not> fl ! x \<longrightarrow> stripes g ! x = stripes g0 ! x))"

definition counts_ok :: "generator \<Rightarrow> nat \<Rightarrow> greedy \<Rightarrow> bool" where
  "counts_ok g0 num0 st \<longleftrightarrow>
     card {x. x < stripes_num g0 \<and> gr_flag st ! x} + 2 * gr_num st = 2 * num0 \<and>
     (\<forall>d \<le> rs_n g0. gr_selected st ! d =
        card {x \<in> pair_heads (gr_gen st). gr_flag st ! x \<and> cur_cost (stripes (gr_gen st) ! x) = d})"

definition greedy_inv :: "generator \<Rightarrow> nat \<Rightarrow> nat \<Rightarrow> (nat \<times> nat) set \<Rightarrow> greedy \<Rightarrow> bool" where
  "greedy_inv g0 num0 c ps st \<longleftrightarrow>
     wf_gen (gr_gen st) \<and> same_config g0 (gr_gen st) \<and> matching_ok (gr_gen st) \<and>
     same_but_pairs g0 (gr_gen st) \<and>
     length (gr_flag st) = stripes_num g0 \<and> length (gr_selected st) = rs_n g0 + 1 \<and>
     flags_ok g0 c (gr_gen st) (gr_flag st) \<and> counts_ok g0 num0 st \<and>
     ps \<subseteq> {(i, j). i < j \<and> j < stripes_num g0} \<and>
     (\<forall>(i, j) \<in> ps. settled (gr_gen st) (gr_flag st) i j)"

lemma greedy_inv_mono:
  assumes "greedy_inv g0 num0 c ps st" and "c \<le> c'"
  shows "greedy_inv g0 num0 c' ps st"
proof -
  have "flags_ok g0 c' (gr_gen st) (gr_flag st)"
    using assms by (fastforce simp: greedy_inv_def flags_ok_def)
  with assms show ?thesis by (simp add: greedy_inv_def)
qed

text \<open>The state after one pair has been taken.\<close>

definition take_pair :: "nat \<Rightarrow> nat \<Rightarrow> nat \<Rightarrow> greedy \<Rightarrow> greedy" where
  "take_pair c i j st = \<lparr>gr_gen = paired i j c False (gr_gen st),
     gr_flag = (gr_flag st)[j := True, i := True],
     gr_selected = (gr_selected st)[c := gr_selected st ! c + 1],
     gr_num = gr_num st - 1\<rparr>"

lemma take_pair_fields [simp]:
  "gr_gen (take_pair c i j st) = paired i j c False (gr_gen st)"
  "gr_flag (take_pair c i j st) = (gr_flag st)[j := True, i := True]"
  "gr_selected (take_pair c i j st) = (gr_selected st)[c := gr_selected st ! c + 1]"
  "gr_num (take_pair c i j st) = gr_num st - 1"
  by (simp_all add: take_pair_def)

text \<open>The facts about one selection step, for a pair that can be taken.\<close>

definition can_take :: "generator \<Rightarrow> nat \<Rightarrow> nat \<Rightarrow> nat \<Rightarrow> greedy \<Rightarrow> bool" where
  "can_take g0 c i j st \<longleftrightarrow> i < j \<and> j < stripes_num g0 \<and> \<not> sel g0 i \<and> \<not> sel g0 j \<and>
     c = pair_cost g0 i j \<and> \<not> gr_flag st ! i \<and> \<not> gr_flag st ! j \<and> 0 < gr_num st"

lemma take_pair_gen:
  assumes inv: "greedy_inv g0 num0 c ps st" and t: "can_take g0 c i j st"
  shows "wf_gen (gr_gen st)" "i < stripes_num (gr_gen st)" "j < stripes_num (gr_gen st)" "i \<noteq> j"
    "stripes_num (gr_gen st) = stripes_num g0"
    "c = pair_cost (gr_gen st) i j" "\<not> sel (gr_gen st) i" "\<not> sel (gr_gen st) j"
    "length (gr_flag st) = stripes_num g0"
proof -
  have c: "same_config g0 (gr_gen st)" and w: "wf_gen (gr_gen st)" using inv
    by (simp_all add: greedy_inv_def)
  show n: "stripes_num (gr_gen st) = stripes_num g0" using same_config_length [OF c] by simp
  have len: "length (stripes g0) = stripes_num g0"
    using same_config_length [OF c] wf_gen_length [OF w] by simp
  show "wf_gen (gr_gen st)" by (rule w)
  show "i < stripes_num (gr_gen st)" "j < stripes_num (gr_gen st)" "i \<noteq> j"
    using t n by (auto simp: can_take_def)
  show "c = pair_cost (gr_gen st) i j"
    using t len same_config_pair_cost [OF c, of i j] by (simp add: can_take_def)
  show "\<not> sel (gr_gen st) i" "\<not> sel (gr_gen st) j"
    using inv t by (auto simp: greedy_inv_def can_take_def flags_ok_def)
  show "length (gr_flag st) = stripes_num g0" using inv by (simp add: greedy_inv_def)
qed

lemma take_pair_flags:
  assumes inv: "greedy_inv g0 num0 c ps st" and t: "can_take g0 c i j st"
  shows "flags_ok g0 c (gr_gen (take_pair c i j st)) (gr_flag (take_pair c i j st))"
  unfolding flags_ok_def take_pair_fields
proof (intro allI impI)
  fix x assume x: "x < stripes_num g0"
  note f = take_pair_gen [OF inv t]
  let ?g = "gr_gen st" and ?fl = "gr_flag st"
  have old: "(sel ?g x \<longleftrightarrow> sel g0 x \<or> ?fl ! x) \<and> (?fl ! x \<longrightarrow> \<not> sel g0 x \<and> scost ?g x \<le> c) \<and>
      (\<not> ?fl ! x \<longrightarrow> stripes ?g ! x = stripes g0 ! x)"
    using inv x by (simp add: greedy_inv_def flags_ok_def)
  have fl: "?fl[j := True, i := True] ! x \<longleftrightarrow> x = i \<or> x = j \<or> ?fl ! x"
    using x f by (simp add: nth_list_update)
  have st: "x \<noteq> i \<Longrightarrow> x \<noteq> j \<Longrightarrow> stripes (paired i j c False ?g) ! x = stripes ?g ! x"
    by (simp add: paired_stripes pair_up_def)
  show "(sel (paired i j c False ?g) x \<longleftrightarrow> sel g0 x \<or> ?fl[j := True, i := True] ! x) \<and>
      (?fl[j := True, i := True] ! x \<longrightarrow> \<not> sel g0 x \<and> scost (paired i j c False ?g) x \<le> c) \<and>
      (\<not> ?fl[j := True, i := True] ! x \<longrightarrow>
        stripes (paired i j c False ?g) ! x = stripes g0 ! x)"
    unfolding fl paired_nth [OF f(1-4)] using old st t by (auto simp: can_take_def)
qed

lemma take_pair_counts:
  assumes inv: "greedy_inv g0 num0 c ps st" and t: "can_take g0 c i j st"
  shows "counts_ok g0 num0 (take_pair c i j st)"
proof -
  note f = take_pair_gen [OF inv t]
  let ?g = "gr_gen st" and ?fl = "gr_flag st" and ?g' = "paired i j c False (gr_gen st)"
  let ?fl' = "(gr_flag st)[j := True, i := True]"
  have ij: "i < j" "j < stripes_num g0" "\<not> ?fl ! i" "\<not> ?fl ! j" "0 < gr_num st"
    using t by (simp_all add: can_take_def)
  have cnt: "card {x. x < stripes_num g0 \<and> ?fl ! x} + 2 * gr_num st = 2 * num0"
    and sl: "\<And>d. d \<le> rs_n g0 \<Longrightarrow> gr_selected st ! d =
        card {x \<in> pair_heads ?g. ?fl ! x \<and> scost ?g x = d}"
    using inv by (simp_all add: greedy_inv_def counts_ok_def)
  have fl': "?fl' ! x \<longleftrightarrow> x = i \<or> x = j \<or> ?fl ! x" if "x < stripes_num g0" for x
    using that f by (simp add: nth_list_update)
  have "{x. x < stripes_num g0 \<and> ?fl' ! x} = insert i (insert j {x. x < stripes_num g0 \<and> ?fl ! x})"
    using fl' ij by auto
  then have "card {x. x < stripes_num g0 \<and> ?fl' ! x} = card {x. x < stripes_num g0 \<and> ?fl ! x} + 2"
    using ij by simp
  then have one: "card {x. x < stripes_num g0 \<and> ?fl' ! x} + 2 * (gr_num st - 1) = 2 * num0"
    using cnt ij by simp
  have "rs_n ?g = rs_n g0" using inv same_config_length(3) by (auto simp: greedy_inv_def)
  then have c: "c \<le> rs_n g0"
    using pair_cost_le_rs_n [of ?g i j] f by (simp add: wf_gen_def)
  have len: "length (gr_selected st) = rs_n g0 + 1" using inv by (simp add: greedy_inv_def)
  have heads: "x \<in> pair_heads ?g' \<and> ?fl' ! x \<and> scost ?g' x = d \<longleftrightarrow>
      x = i \<and> d = c \<or> x \<in> pair_heads ?g \<and> ?fl ! x \<and> scost ?g x = d" for x d
  proof (cases "x < stripes_num g0")
    case True
    then show ?thesis
      using fl' [OF True] ij f by (auto simp: pair_heads_def paired_nth [OF f(1-4)])
  next
    case False
    then show ?thesis using f ij by (auto simp: pair_heads_def)
  qed
  have "(gr_selected st)[c := gr_selected st ! c + 1] ! d =
      card {x \<in> pair_heads ?g'. ?fl' ! x \<and> scost ?g' x = d}" if d: "d \<le> rs_n g0" for d
  proof (cases "d = c")
    case True
    then have "{x \<in> pair_heads ?g'. ?fl' ! x \<and> scost ?g' x = d} =
        insert i {x \<in> pair_heads ?g. ?fl ! x \<and> scost ?g x = d}"
      using heads [of _ d] by auto
    then show ?thesis using True sl [OF c] ij c len by simp
  next
    case False
    then have "{x \<in> pair_heads ?g'. ?fl' ! x \<and> scost ?g' x = d} =
        {x \<in> pair_heads ?g. ?fl ! x \<and> scost ?g x = d}"
      using heads [of _ d] by auto
    then show ?thesis using False sl [OF d] by simp
  qed
  with one show ?thesis by (simp add: counts_ok_def)
qed

lemma take_pair_inv:
  assumes inv: "greedy_inv g0 num0 c ps st" and t: "can_take g0 c i j st"
  shows "greedy_inv g0 num0 c (insert (i, j) ps) (take_pair c i j st)"
proof -
  note f = take_pair_gen [OF inv t]
  let ?g = "gr_gen st" and ?fl = "gr_flag st" and ?g' = "paired i j c False (gr_gen st)"
  have ps: "\<And>x y. (x, y) \<in> ps \<Longrightarrow> settled ?g ?fl x y \<and> x < stripes_num g0 \<and> y < stripes_num g0"
    using inv by (fastforce simp: greedy_inv_def)
  have ij: "i < j" "j < stripes_num g0" "\<not> ?fl ! i" "\<not> ?fl ! j"
    using t by (simp_all add: can_take_def)
  have cfg: "same_config ?g ?g'"
    using f by (intro paired_config) (simp_all add: wf_gen_length)
  have "settled ?g' (?fl[j := True, i := True]) x y" if xy: "(x, y) \<in> insert (i, j) ps" for x y
  proof (cases "(x, y) = (i, j)")
    case True
    have "scost ?g' i = c" "pair_cost ?g' i j = c"
      using f(6) by (simp_all add: paired_nth [OF f(1-4)] paired_pair_cost [OF f(1-4) f(2,3)])
    then show ?thesis using True ij f by (simp add: settled_def)
  next
    case False
    with xy ps [of x y] have old: "settled ?g ?fl x y" "x < stripes_num g0" "y < stripes_num g0"
      by auto
    then have "pair_cost ?g' x y = pair_cost ?g x y"
      using paired_pair_cost [OF f(1-4)] f(5) by simp
    then show ?thesis
      using old ij f by (auto simp: settled_def nth_list_update paired_nth [OF f(1-4)])
  qed
  moreover have "matching_ok ?g'"
    using inv f by (intro matching_ok_paired) (simp_all add: greedy_inv_def)
  moreover have "same_config g0 ?g'"
    using inv cfg by (auto simp: greedy_inv_def intro: same_config_trans)
  moreover have "same_but_pairs g0 ?g'"
    using inv same_but_pairs_paired by (auto simp: greedy_inv_def intro: same_but_pairs_trans)
  moreover have "wf_gen ?g'" using f by (intro paired_wf) simp_all
  ultimately show ?thesis
    using take_pair_flags [OF inv t] take_pair_counts [OF inv t] inv
    using ij unfolding greedy_inv_def take_pair_fields by auto
qed


lemma wf_gen_num: "wf_gen g \<Longrightarrow> stripes_num g < 2147483648"
  by (simp add: wf_gen_def wf_config_def)

lemma counts_small:
  assumes inv: "greedy_inv g0 num0 c ps st" and d: "d \<le> rs_n g0"
  shows "gr_selected st ! d < 2147483648"
proof -
  let ?g = "gr_gen st"
  have n: "stripes_num ?g < 2147483648" using inv by (simp add: greedy_inv_def wf_gen_num)
  have "gr_selected st ! d = card {x \<in> pair_heads ?g. gr_flag st ! x \<and> scost ?g x = d}"
    using inv d by (simp add: greedy_inv_def counts_ok_def)
  also have "\<dots> \<le> card {0..<stripes_num ?g}"
    by (intro card_mono) (auto simp: pair_heads_def)
  finally show ?thesis using n by simp
qed

text \<open>The tokens of one bucket, taken one after the other.\<close>

lemma select_level_take:
  assumes inv: "greedy_inv g0 num0 c ps st" and t: "can_take g0 c i j st"
    and num: "num0 < 2147483648"
  shows "select_level c (make_token i j # ms) st =
    (if gr_num st = 1 then Some (take_pair c i j st) else select_level c ms (take_pair c i j st))"
proof -
  note f = take_pair_gen [OF inv t]
  have ij: "i < j" "j < stripes_num g0" "\<not> gr_flag st ! i" "\<not> gr_flag st ! j" "0 < gr_num st"
    using t by (simp_all add: can_take_def)
  have "stripes_num g0 < 2147483648" using wf_gen_num [OF f(1)] f(5) by simp
  then have tok: "token_i (make_token i j) = i" "token_j (make_token i j) = j"
    using ij by (simp_all add: token_roundtrip)
  have "rs_n (gr_gen st) = rs_n g0" using inv same_config_length(3) by (auto simp: greedy_inv_def)
  then have c: "c \<le> rs_n g0"
    using pair_cost_le_rs_n [of "gr_gen st" i j] f by (simp add: wf_gen_def)
  have len: "length (gr_selected st) = rs_n g0 + 1" using inv by (simp add: greedy_inv_def)
  have "gr_num st \<le> num0" using inv by (simp add: greedy_inv_def counts_ok_def)
  then have sub: "sub32 (gr_num st) 1 = gr_num st - 1"
    using ij num by (simp add: wrap_simps)
  have mm: "mark_matched (gr_gen st) i j c False = Some (paired i j c False (gr_gen st))"
    using f by (simp add: mark_matched_paired)
  have w: "wrap32 (gr_selected st ! c + 1) = gr_selected st ! c + 1"
    using counts_small [OF inv c] by (simp add: wrap_simps)
  show ?thesis
    using ij f c len sub mm w
    by (simp add: tok take_pair_def Let_def)
qed

lemma select_level_skip:
  assumes inv: "greedy_inv g0 num0 c ps st" and "i < j" "j < stripes_num g0"
    and "gr_flag st ! i \<or> gr_flag st ! j"
  shows "select_level c (make_token i j # ms) st = select_level c ms st"
proof -
  have "stripes_num g0 < 2147483648" and "length (gr_flag st) = stripes_num g0"
    using inv wf_gen_num same_config_length(2) by (fastforce simp: greedy_inv_def)+
  with assms show ?thesis by (cases "gr_flag st ! i") (simp_all add: token_roundtrip)
qed

lemma settled_flagged:
  assumes inv: "greedy_inv g0 num0 c ps st" and "i < j" "j < stripes_num g0"
    and "gr_flag st ! i \<or> gr_flag st ! j" and "c \<le> pair_cost g0 i j"
  shows "settled (gr_gen st) (gr_flag st) i j"
proof -
  have c: "same_config g0 (gr_gen st)" and len: "length (stripes g0) = stripes_num g0"
    and fl: "flags_ok g0 c (gr_gen st) (gr_flag st)"
    using inv same_config_length wf_gen_length by (fastforce simp: greedy_inv_def)+
  have "pair_cost (gr_gen st) i j = pair_cost g0 i j"
    using same_config_pair_cost [OF c, of i j] assms len by simp
  moreover have "gr_flag st ! x \<Longrightarrow> scost (gr_gen st) x \<le> c" if "x < stripes_num g0" for x
    using fl that by (simp add: flags_ok_def)
  from this [of i] this [of j] assms
  have "gr_flag st ! i \<and> scost (gr_gen st) i \<le> c \<or> gr_flag st ! j \<and> scost (gr_gen st) j \<le> c"
    by auto
  ultimately show ?thesis using assms(5) by (auto simp: settled_def)
qed

lemma greedy_inv_insert:
  assumes "greedy_inv g0 num0 c ps st" and "i < j" "j < stripes_num g0"
    and "settled (gr_gen st) (gr_flag st) i j"
  shows "greedy_inv g0 num0 c (insert (i, j) ps) st"
  using assms by (simp add: greedy_inv_def)

abbreviation tokens :: "(nat \<times> nat) list \<Rightarrow> token list" where
  "tokens qs \<equiv> map (\<lambda>(i, j). make_token i j) qs"

abbreviation free_pairs :: "generator \<Rightarrow> (nat \<times> nat) set" where
  "free_pairs g \<equiv> {(i, j). i < j \<and> j < stripes_num g \<and> \<not> sel g i \<and> \<not> sel g j}"

lemma select_level_total:
  assumes "greedy_inv g0 num0 c ps st" and "0 < gr_num st" and "num0 < 2147483648"
    and "\<And>i j. (i, j) \<in> set qs \<Longrightarrow> (i, j) \<in> free_pairs g0 \<and> c = pair_cost g0 i j"
  shows "\<exists>st' ps'. select_level c (tokens qs) st = Some st' \<and>
    greedy_inv g0 num0 c ps' st' \<and> ps \<subseteq> ps' \<and> (gr_num st' = 0 \<or> set qs \<subseteq> ps')"
  using assms
proof (induction qs arbitrary: st ps)
  case Nil
  then show ?case by auto
next
  case (Cons q qs)
  obtain i j where q: "q = (i, j)" by fastforce
  have ij: "i < j" "j < stripes_num g0" "\<not> sel g0 i" "\<not> sel g0 j" "c = pair_cost g0 i j"
    using Cons.prems(4) [of i j] q by auto
  have qs: "\<And>x y. (x, y) \<in> set qs \<Longrightarrow> (x, y) \<in> free_pairs g0 \<and> c = pair_cost g0 x y"
    using Cons.prems(4) by auto
  show ?case
  proof (cases "gr_flag st ! i \<or> gr_flag st ! j")
    case True
    have "greedy_inv g0 num0 c (insert (i, j) ps) st"
      using greedy_inv_insert [OF Cons.prems(1) ij(1,2)]
        settled_flagged [OF Cons.prems(1) ij(1,2) True] ij(5) by simp
    from Cons.IH [OF this Cons.prems(2,3) qs]
    show ?thesis using select_level_skip [OF Cons.prems(1) ij(1,2) True] q by auto
  next
    case False
    then have t: "can_take g0 c i j st" using ij Cons.prems(2) by (simp add: can_take_def)
    note step = select_level_take [OF Cons.prems(1) t Cons.prems(3)]
      and inv' = take_pair_inv [OF Cons.prems(1) t]
    show ?thesis
    proof (cases "gr_num st = 1")
      case True
      then have "select_level c (tokens (q # qs)) st = Some (take_pair c i j st)"
        using step q by simp
      moreover have "gr_num (take_pair c i j st) = 0" using True by simp
      ultimately show ?thesis using inv' by blast
    next
      case n: False
      then have pos: "0 < gr_num (take_pair c i j st)" using Cons.prems(2) by simp
      from Cons.IH [OF inv' pos Cons.prems(3) qs]
      obtain st' ps' where r: "select_level c (tokens qs) (take_pair c i j st) = Some st'"
        "greedy_inv g0 num0 c ps' st'" "insert (i, j) ps \<subseteq> ps'" "gr_num st' = 0 \<or> set qs \<subseteq> ps'"
        by blast
      have "select_level c (tokens (q # qs)) st = Some st'" using step n q r(1) by simp
      with r q show ?thesis by auto
    qed
  qed
qed

declare upt_Suc [simp del]

text \<open>All buckets, from cost \<open>c\<close> up.\<close>

lemma select_levels_total:
  assumes "greedy_inv g0 num0 c ps st" and num: "num0 < 2147483648"
    and lv: "length level = rs_n g0 + 1"
      "\<And>d. d \<le> rs_n g0 \<Longrightarrow> level ! d = cost_tokens g0 qs d"
    and qs: "set qs = free_pairs g0"
    and "{(i, j) \<in> free_pairs g0. pair_cost g0 i j < c} \<subseteq> ps" and "c \<le> Suc (rs_n g0)"
  shows "\<exists>st' ps' c'. select_levels [c..<Suc (rs_n g0)] level st = Some st' \<and>
    greedy_inv g0 num0 c' ps' st' \<and>
    (if gr_num st' = 0 then {(i, j) \<in> free_pairs g0. pair_cost g0 i j < c'} \<subseteq> ps'
     else {(i, j) \<in> free_pairs g0. pair_cost g0 i j \<le> rs_n g0} \<subseteq> ps')"
  using assms(1,6,7)
proof (induction "Suc (rs_n g0) - c" arbitrary: c st ps)
  case 0
  then have "[c..<Suc (rs_n g0)] = []" and "c = Suc (rs_n g0)" by simp_all
  with 0 show ?case by (intro exI [of _ st] exI [of _ ps] exI [of _ c]) (auto simp: less_Suc_eq_le)
next
  case (Suc k)
  then have c: "c \<le> rs_n g0" by simp
  then have upt: "[c..<Suc (rs_n g0)] = c # [Suc c..<Suc (rs_n g0)]"
    by (intro upt_conv_Cons) simp
  show ?case
  proof (cases "gr_num st = 0")
    case True
    then show ?thesis unfolding upt using Suc.prems(1,2) by auto
  next
    case False
    let ?qs = "filter (\<lambda>(i, j). pair_cost g0 i j = c) qs"
    have "\<And>i j. (i, j) \<in> set ?qs \<Longrightarrow> (i, j) \<in> free_pairs g0 \<and> c = pair_cost g0 i j"
      using qs by auto
    from select_level_total [OF Suc.prems(1) _ num this] False
    obtain st1 ps1 where s: "select_level c (tokens ?qs) st = Some st1"
      "greedy_inv g0 num0 c ps1 st1" "ps \<subseteq> ps1" "gr_num st1 = 0 \<or> set ?qs \<subseteq> ps1" by blast
    have unf: "select_levels [c..<Suc (rs_n g0)] level st =
        select_levels [Suc c..<Suc (rs_n g0)] level st1"
      unfolding upt using False s(1) lv c by (simp add: cost_tokens_def)
    show ?thesis
    proof (cases "gr_num st1 = 0")
      case True
      then have "select_levels [Suc c..<Suc (rs_n g0)] level st1 = Some st1"
        by (cases "[Suc c..<Suc (rs_n g0)]") simp_all
      with unf True s Suc.prems(2) show ?thesis by (metis (no_types, lifting) order_trans)
    next
      case n: False
      have "k = Suc (rs_n g0) - Suc c" using Suc.hyps(2) by simp
      moreover have "greedy_inv g0 num0 (Suc c) ps1 st1" using greedy_inv_mono [OF s(2)] by simp
      moreover have "{(i, j) \<in> free_pairs g0. pair_cost g0 i j < Suc c} \<subseteq> ps1"
        using Suc.prems(2) s(3,4) n qs by (auto simp: less_Suc_eq)
      ultimately show ?thesis using Suc.hyps(1) [of "Suc c" ps1 st1] c unf by auto
    qed
  qed
qed


section \<open>What the greedy search returns\<close>

text \<open>
  No two stripes that were free at the start could both be better off together: one of them
  has been paired, at no higher cost than that of the pair.
\<close>

definition no_better_pair :: "generator \<Rightarrow> generator \<Rightarrow> bool" where
  "no_better_pair g g' \<longleftrightarrow> (\<forall>(i, j) \<in> free_pairs g.
     sel g' i \<and> scost g' i \<le> pair_cost g i j \<or> sel g' j \<and> scost g' j \<le> pair_cost g i j)"

definition greedy_result :: "generator \<Rightarrow> generator \<Rightarrow> bool" where
  "greedy_result g g' \<longleftrightarrow>
     wf_gen g' \<and> same_config g g' \<and> same_but_pairs g g' \<and> matching_ok g' \<and>
     (\<forall>x < stripes_num g. sel g x \<or> \<not> sel g' x \<longrightarrow> stripes g' ! x = stripes g ! x) \<and>
     no_better_pair g g' \<and>
     (\<exists>taken. free_stripes g = free_stripes g' \<union> taken \<and> free_stripes g' \<inter> taken = {} \<and>
        even (card taken)) \<and>
     card (free_stripes g') \<le> 1"

lemma free_card_le:
  assumes "no_better_pair g g'" and "free_stripes g' \<subseteq> free_stripes g"
  shows "card (free_stripes g') \<le> 1"
proof (rule ccontr)
  assume "\<not> card (free_stripes g') \<le> 1"
  then obtain x y where xy: "x \<in> free_stripes g'" "y \<in> free_stripes g'" "x \<noteq> y"
    using card_le_Suc0_iff_eq [of "free_stripes g'"] by auto
  have "sel g' i \<or> sel g' j" if "i < j" "i \<in> free_stripes g'" "j \<in> free_stripes g'" for i j
  proof -
    have "i \<in> free_stripes g" "j \<in> free_stripes g" using that(2,3) assms(2) by blast+
    then have "(i, j) \<in> free_pairs g" using that(1) by simp
    then show ?thesis using assms(1) by (auto simp: no_better_pair_def)
  qed
  from this [of x y] this [of y x] xy show False by (cases x y rule: linorder_cases) auto
qed

lemma greedy_inv_result:
  assumes inv: "greedy_inv g0 num0 c ps st" and len: "length (stripes g0) = stripes_num g0"
    and num: "card (free_stripes g0) \<le> 2 * num0 + 1"
    and fin: "if gr_num st = 0 then {(i, j) \<in> free_pairs g0. pair_cost g0 i j < c} \<subseteq> ps
      else free_pairs g0 \<subseteq> ps"
  shows "greedy_result g0 (gr_gen st)"
proof -
  let ?g = "gr_gen st" and ?fl = "gr_flag st"
  let ?taken = "{x. x < stripes_num g0 \<and> ?fl ! x}"
  have cfg: "same_config g0 ?g" using inv by (simp add: greedy_inv_def)
  have n: "stripes_num ?g = stripes_num g0" using same_config_length [OF cfg] by simp
  have fl: "\<And>x. x < stripes_num g0 \<Longrightarrow> (sel ?g x \<longleftrightarrow> sel g0 x \<or> ?fl ! x) \<and>
      (?fl ! x \<longrightarrow> \<not> sel g0 x) \<and> (\<not> ?fl ! x \<longrightarrow> stripes ?g ! x = stripes g0 ! x)"
    using inv by (simp add: greedy_inv_def flags_ok_def)
  have cards: "card ?taken + 2 * gr_num st = 2 * num0"
    using inv by (simp add: greedy_inv_def counts_ok_def)
  have split: "free_stripes g0 = free_stripes ?g \<union> ?taken" "free_stripes ?g \<inter> ?taken = {}"
    using fl n by auto
  have pc: "pair_cost ?g i j = pair_cost g0 i j" if "i < j" "j < stripes_num g0" for i j
    using same_config_pair_cost [OF cfg, of i j] that len by simp
  have settled: "settled ?g ?fl i j" if ij: "(i, j) \<in> free_pairs g0" for i j
  proof (cases "(i, j) \<in> ps")
    case True
    then show ?thesis using inv by (auto simp: greedy_inv_def)
  next
    case False
    with fin ij have z: "gr_num st = 0" and c: "c \<le> pair_cost g0 i j"
      by (auto split: if_splits)
    have "?fl ! i \<or> ?fl ! j"
    proof (rule ccontr)
      assume "\<not> (?fl ! i \<or> ?fl ! j)"
      then have "{i, j} \<subseteq> free_stripes ?g" using fl ij n by auto
      then have "card {i, j} \<le> card (free_stripes ?g)" by (intro card_mono) auto
      moreover have "card (free_stripes g0) = card (free_stripes ?g) + card ?taken"
        unfolding split(1) by (rule card_Un_disjoint) (use split(2) in auto)
      ultimately show False using num cards z ij by simp
    qed
    then show ?thesis using settled_flagged [OF inv _ _ _ c] ij by simp
  qed
  have nb: "no_better_pair g0 ?g"
    unfolding no_better_pair_def
  proof clarify
    fix i j assume ij: "i < j" "j < stripes_num g0" "\<not> sel g0 i" "\<not> sel g0 j"
    assume nj: "\<not> (sel ?g j \<and> scost ?g j \<le> pair_cost g0 i j)"
    have "settled ?g ?fl i j" using settled ij by simp
    with nj fl ij pc show "sel ?g i \<and> scost ?g i \<le> pair_cost g0 i j"
      by (auto simp: settled_def)
  qed
  have "even (card ?taken)" using cards by presburger
  moreover have "card (free_stripes ?g) \<le> 1" using free_card_le [OF nb] split(1) by blast
  moreover have "\<forall>x < stripes_num g0. sel g0 x \<or> \<not> sel ?g x \<longrightarrow> stripes ?g ! x = stripes g0 ! x"
    using fl by blast
  moreover have "wf_gen ?g" "same_but_pairs g0 ?g" "matching_ok ?g"
    using inv by (simp_all add: greedy_inv_def)
  ultimately show ?thesis
    unfolding greedy_result_def using cfg nb split by (intro conjI exI [of _ ?taken]) assumption+
qed

text \<open>When nothing was paired before, the counters of the run weigh up to the matching's cost.\<close>

lemma greedy_inv_total_cost:
  assumes inv: "greedy_inv g0 num0 c ps st" and fresh: "\<forall>x < stripes_num g0. \<not> sel g0 x"
    and r: "rs_n g0 < 255"
  shows "sum_costs (rs_n g0) (gr_selected st) = Some (wrap32 (matching_cost (gr_gen st)))"
proof -
  let ?g = "gr_gen st"
  have cfg: "same_config g0 ?g" and ok: "matching_ok ?g" and wf: "wf_config ?g"
    using inv by (simp_all add: greedy_inv_def wf_gen_def)
  have n: "stripes_num ?g = stripes_num g0" "rs_n ?g = rs_n g0"
    using same_config_length [OF cfg] by simp_all
  have "{x \<in> pair_heads ?g. gr_flag st ! x \<and> scost ?g x = d} = {x \<in> pair_heads ?g. scost ?g x = d}"
    for d
    using inv fresh n by (auto simp: greedy_inv_def flags_ok_def pair_heads_def)
  then have cn: "gr_selected st ! d = card {x \<in> pair_heads ?g. scost ?g x = d}" if "d \<le> rs_n g0" for d
    using inv that by (simp add: greedy_inv_def counts_ok_def)
  have "(\<Sum>d \<le> rs_n g0. d * gr_selected st ! d) =
      (\<Sum>d \<le> rs_n g0. d * card {x \<in> pair_heads ?g. scost ?g x = d})"
    by (rule sum.cong) (simp_all add: cn)
  also have "\<dots> = matching_cost ?g"
    unfolding matching_cost_def
    by (rule sum_by_cost) (use matching_cost_bound [OF wf ok] n in auto)
  finally show ?thesis using sum_costs_total [OF r] inv by (simp add: greedy_inv_def)
qed

text \<open>The states in which the search may be started.\<close>

definition greedy_ready :: "generator \<Rightarrow> bool \<Rightarrow> bool" where
  "greedy_ready g remain_flag \<longleftrightarrow> wf_gen g \<and> matching_ok g \<and>
     2 * rs_k (g_params g) + rs_m (g_params g) \<le> node_num (g_params g) \<and>
     (if remain_flag
      then card (free_stripes g) \<le> length (remaining_stripes g) \<and>
        length (remaining_stripes g) \<le> stripes_num g
      else \<forall>x < stripes_num g. \<not> sel g x)"

lemma greedy_inv_init:
  assumes mem: "same_but_memo g g1" and wf1: "wf_gen g1" and ok: "matching_ok g"
    and wf: "wf_gen g"
  shows "greedy_inv g num 0 {} \<lparr>gr_gen = g1, gr_flag = replicate (stripes_num g) False,
    gr_selected = replicate (rs_n g + 1) 0, gr_num = num\<rparr>"
proof -
  have s: "stripes g1 = stripes g" "stripes_num g1 = stripes_num g" "pair_cost g1 = pair_cost g"
    using mem by (simp_all add: same_but_memo_fields same_but_memo_pair_cost)
  have "mated g1 = mated g" using s by (simp add: fun_eq_iff mated_def)
  then have "matching_ok g1" using ok s by (simp add: matching_ok_def)
  moreover have "{x \<in> pair_heads g1. replicate (stripes_num g) False ! x \<and> scost g1 x = d} = {}" for d
    using s by (auto simp: pair_heads_def)
  moreover have "{x. x < stripes_num g \<and> replicate (stripes_num g) False ! x} = {}" by auto
  ultimately show ?thesis
    using mem wf1 s unfolding greedy_inv_def
    by (simp add: same_but_memo_config same_but_memo_pairs flags_ok_def counts_ok_def
        del: replicate_Suc)
qed

lemma basic_greedy_total:
  assumes ready: "greedy_ready g r"
  shows "\<exists>total g'. basic_greedy g r = Some (Inr (total, g')) \<and> greedy_result g g' \<and>
    (\<not> r \<longrightarrow> total = wrap32 (matching_cost g'))"
proof -
  have wf: "wf_gen g" and ok: "matching_ok g"
    and nodes: "\<not> node_num (g_params g) < 2 * rs_k (g_params g) + rs_m (g_params g)"
    using ready by (simp_all add: greedy_ready_def)
  have n: "stripes_num g < 2147483648" using wf by (rule wf_gen_num)
  have len: "length (stripes g) = stripes_num g" using wf by (rule wf_gen_length)
  have r255: "rs_n g < 255" using wf rs_n_less by (simp add: wf_gen_def)
  let ?qs = "all_pairs (if r then (\<lambda>i. \<not> sel g i) else (\<lambda>_. True)) (stripes_num g)"
  let ?num = "if r then length (remaining_stripes g) div 2 else stripes_num g div 2"
  have free: "\<not> r \<Longrightarrow> free_stripes g = {0..<stripes_num g}"
    using ready by (auto simp: greedy_ready_def)
  have qs: "set ?qs = free_pairs g"
    using ready by (auto simp: set_all_pairs greedy_ready_def)
  obtain g1 level where col: "(if \<not> r then collect_all (g, replicate (rs_n g + 1) [])
      else collect_remaining (g, replicate (rs_n g + 1) [])) = Some (g1, level)"
    "collected g ?qs (g1, level)"
  proof (cases r)
    case True
    with collect_remaining_total [OF wf] that show ?thesis by auto
  next
    case False
    with collect_all_total [OF wf] that show ?thesis by auto
  qed
  have g1: "wf_gen g1" "same_but_memo g g1" "length level = rs_n g + 1"
    "\<And>d. d \<le> rs_n g \<Longrightarrow> level ! d = cost_tokens g ?qs d"
    using col(2) unfolding collected_def prod.case by auto
  have f1: "stripes_num g1 = stripes_num g" "rs_n g1 = rs_n g"
    "remaining_stripes g1 = remaining_stripes g"
    using g1(2) by (simp_all add: same_but_memo_fields)
  have num: "?num < 2147483648" "card (free_stripes g) \<le> 2 * ?num + 1"
  proof -
    have "length (remaining_stripes g) \<le> stripes_num g" if r
      using ready that by (simp add: greedy_ready_def)
    with n show "?num < 2147483648" by (cases r) auto
    have "card (free_stripes g) \<le> (if r then length (remaining_stripes g) else stripes_num g)"
      using ready free by (cases r) (simp_all add: greedy_ready_def)
    then show "card (free_stripes g) \<le> 2 * ?num + 1" by (cases r) simp_all
  qed
  let ?st = "\<lparr>gr_gen = g1, gr_flag = replicate (stripes_num g) False,
      gr_selected = replicate (rs_n g + 1) 0, gr_num = ?num\<rparr>"
  have "greedy_inv g ?num 0 {} ?st" using greedy_inv_init [OF g1(2,1) ok wf] .
  from select_levels_total [OF this num(1) g1(3,4) qs]
  obtain st ps c where st: "select_levels [0..<Suc (rs_n g)] level ?st = Some st"
    "greedy_inv g ?num c ps st"
    "if gr_num st = 0 then {(i, j) \<in> free_pairs g. pair_cost g i j < c} \<subseteq> ps
     else {(i, j) \<in> free_pairs g. pair_cost g i j \<le> rs_n g} \<subseteq> ps" by auto
  have "\<And>i j. (i, j) \<in> free_pairs g \<Longrightarrow> pair_cost g i j \<le> rs_n g"
    using pair_cost_le_rs_n [of g] wf by (auto simp: wf_gen_def)
  with st(3) have "if gr_num st = 0 then {(i, j) \<in> free_pairs g. pair_cost g i j < c} \<subseteq> ps
     else free_pairs g \<subseteq> ps" by (auto split: if_splits)
  from greedy_inv_result [OF st(2) len num(2) this]
  have res: "greedy_result g (gr_gen st)" .
  have tot: "sum_costs (rs_n g) (gr_selected st) = Some (wrap32 (matching_cost (gr_gen st)))"
    if "\<not> r" using greedy_inv_total_cost [OF st(2)] that ready r255
    by (simp add: greedy_ready_def)
  have "basic_greedy g r = Some (Inr (if r then 0 else wrap32 (matching_cost (gr_gen st)), gr_gen st))"
  proof (cases r)
    case True
    then have "wrap32 (length (remaining_stripes g) div 2) = length (remaining_stripes g) div 2"
      using num(1) by (simp add: wrap_simps)
    with True show ?thesis using nodes col(1) st(1) f1 r255
      by (simp add: basic_greedy_def Let_def)
  next
    case False
    then show ?thesis using nodes col(1) st(1) f1 r255 tot
      by (simp add: basic_greedy_def Let_def)
  qed
  with res show ?thesis by simp
qed

section \<open>The random matching\<close>

lemma even_indices_last: "odd n \<Longrightarrow> even i \<Longrightarrow> i < n \<Longrightarrow> n - 1 \<in> set (even_indices i n)"
proof (induction i n rule: even_indices.induct)
  case (1 i n)
  show ?case
  proof (cases "i + 2 < n")
    case True
    then show ?thesis using 1 by (subst even_indices.simps) simp
  next
    case False
    with 1 have "n = Suc i" by presburger
    then show ?thesis by (subst even_indices.simps) simp
  qed
qed

text \<open>After the pairs of the first \<open>i\<close> positions have been recorded.\<close>

definition random_inv :: "generator \<Rightarrow> nat list \<Rightarrow> nat \<Rightarrow> generator \<Rightarrow> bool" where
  "random_inv g0 pos i g \<longleftrightarrow> wf_gen g \<and> same_config g0 g \<and> matching_ok g \<and>
     (\<forall>x < stripes_num g0. sel g x \<longleftrightarrow> x \<in> set (take i pos))"

lemma random_step:
  assumes inv: "random_inv g0 pos i g" and p: "mset pos = mset [0..<stripes_num g0]"
    and i: "Suc i < stripes_num g0"
  shows "\<exists>g'. match_at pos g i = Some g' \<and> random_inv g0 pos (i + 2) g'"
proof -
  have len: "length pos = stripes_num g0" using mset_eq_length [OF p] by simp
  have dist: "distinct pos" using mset_eq_imp_distinct_iff [OF p] by simp
  have set: "set pos = {..<stripes_num g0}" 
    by (simp only: mset_eq_setD [OF p] set_upt atLeast0LessThan)
  let ?a = "pos ! i" and ?b = "pos ! Suc i"
  have "?a \<in> set pos" "?b \<in> set pos" using i len by simp_all
  then have ab: "?a < stripes_num g0" "?b < stripes_num g0" using set by blast+
  have ne: "?a \<noteq> ?b" using i len dist by (simp add: nth_eq_iff_index_eq)
  note ab = ab ne
  have t2: "take (i + 2) pos = take i pos @ [?a, ?b]"
    using i len by (simp add: take_Suc_conv_app_nth)
  have wf: "wf_gen g" and cfg: "same_config g0 g" and ok: "matching_ok g"
    and sel: "\<And>x. x < stripes_num g0 \<Longrightarrow> sel g x \<longleftrightarrow> x \<in> set (take i pos)"
    using inv by (simp_all add: random_inv_def)
  have n: "stripes_num g = stripes_num g0" using same_config_length(2) [OF cfg] .
  have "distinct (take (i + 2) pos)" using dist by simp
  then have "?a \<notin> set (take i pos)" "?b \<notin> set (take i pos)" unfolding t2 by auto
  then have fr: "\<not> sel g ?a" "\<not> sel g ?b" using sel ab by simp_all
  from get_cost_total [OF wf, of ?a ?b] ab n obtain g1 where
    g1: "get_cost g ?a ?b = Some (pair_cost g ?a ?b, g1)" "wf_gen g1" "same_but_memo g g1" by auto
  have f: "stripes_num g1 = stripes_num g0" "stripes g1 = stripes g" "pair_cost g1 = pair_cost g"
    using g1(3) n by (simp_all add: same_but_memo_fields same_but_memo_pair_cost)
  have "mated g1 = mated g" using f n by (simp add: fun_eq_iff mated_def)
  then have ok1: "matching_ok g1" using ok f n by (simp add: matching_ok_def)
  have ab1: "?a < stripes_num g1" "?b < stripes_num g1" "?a \<noteq> ?b" using ab f by simp_all
  let ?g = "paired ?a ?b (pair_cost g ?a ?b) False g1"
  have "mark_matched g1 ?a ?b (pair_cost g ?a ?b) False = Some ?g"
    using mark_matched_paired [OF g1(2) ab1] .
  moreover have "random_inv g0 pos (i + 2) ?g"
    unfolding random_inv_def
  proof (intro conjI)
    show "same_config g0 ?g"
      using same_config_trans [OF cfg same_config_trans [OF same_but_memo_config [OF g1(3)]]]
        paired_config [of ?a g1 ?b] ab1 wf_gen_length [OF g1(2)] by simp
    show "matching_ok ?g"
      using matching_ok_paired [OF g1(2) ok1 ab1] fr f by simp
    show "\<forall>x < stripes_num g0. sel ?g x \<longleftrightarrow> x \<in> set (take (i + 2) pos)"
      using sel f unfolding t2 paired_nth(1) [OF g1(2) ab1] by auto
  qed (rule paired_wf [OF g1(2) ab1])
  ultimately show ?thesis using g1(1) i len by (simp add: match_at_def)
qed

lemma random_match_total:
  assumes wf: "wf_gen g" and fresh: "\<forall>x < stripes_num g. \<not> sel g x" and n: "even (stripes_num g)"
    and p: "mset (shuf [0..<stripes_num g]) = mset [0..<stripes_num g]"
  shows "\<exists>g'. random_match shuf g = Some g' \<and> wf_gen g' \<and> same_config g g' \<and> matching_ok g' \<and>
    all_matched g'"
proof -
  let ?pos = "shuf [0..<stripes_num g]"
  let ?f = "match_at ?pos"
  have loop: "\<exists>g'. foldM ?f h (even_indices i (stripes_num g)) = Some g' \<and>
      random_inv g ?pos (stripes_num g) g'"
    if "even i" "i \<le> stripes_num g" "random_inv g ?pos i h" for i h
    using that
  proof (induction i "stripes_num g" arbitrary: h rule: even_indices.induct)
    case (1 i)
    show ?case
    proof (cases "i < stripes_num g")
      case False
      with 1 show ?thesis by (subst even_indices.simps) simp
    next
      case True
      with n 1 have i: "Suc i < stripes_num g" by presburger
      from random_step [OF 1(4) p i] obtain h' where
        h: "?f h i = Some h'" "random_inv g ?pos (i + 2) h'" by blast
      have "even (i + 2)" "i + 2 \<le> stripes_num g" using 1(2) i by simp_all
      from 1(1) [OF True this h(2)] show ?thesis using h(1) True by (subst even_indices.simps) simp
    qed
  qed
  have "random_inv g ?pos 0 g"
    using wf fresh by (simp add: random_inv_def matching_ok_def)
  from loop [OF _ _ this] obtain g' where
    g': "foldM ?f g (even_indices 0 (stripes_num g)) = Some g'"
      "random_inv g ?pos (stripes_num g) g'" by auto
  have "length ?pos = stripes_num g" "set ?pos = {..<stripes_num g}"
    using mset_eq_length [OF p] by (simp_all only: mset_eq_setD [OF p] set_upt atLeast0LessThan
        length_upt diff_zero)
  with g'(2) have "all_matched g'"
    using same_config_length(2) [of g g'] by (simp add: all_matched_def random_inv_def)
  with g' show ?thesis by (simp add: random_match_def random_inv_def)
qed

lemma random_match_odd:
  assumes "odd (stripes_num g)" and "length (shuf [0..<stripes_num g]) = stripes_num g"
  shows "random_match shuf g = None"
proof -
  have "stripes_num g - 1 \<in> set (even_indices 0 (stripes_num g))"
    using even_indices_last [OF assms(1), of 0] odd_pos [OF assms(1)] by simp
  moreover have "aget (shuf [0..<stripes_num g]) (stripes_num g - 1 + 1) = None"
    using assms odd_pos [OF assms(1)] by (simp add: aget_def)
  then have "match_at (shuf [0..<stripes_num g]) h (stripes_num g - 1) = None" for h
    by (cases "aget (shuf [0..<stripes_num g]) (stripes_num g - 1)") (simp_all add: match_at_def)
  ultimately show ?thesis unfolding random_match_def Let_def by (rule foldM_undefined)
qed

text \<open>A stripe that the search leaves over keeps the partner of its constructor.\<close>

lemma greedy_blank: "greedy_result g g' \<Longrightarrow> fresh_gen g \<Longrightarrow> unmatched_blank g'"
  using same_config_length(2) [of g g'] by (auto simp: greedy_result_def fresh_gen_def unmatched_blank_def)

section \<open>Properties\<close>

text \<open>C5. StripeMerge-G on any valid input: \<open>basic_greedy\<close> returns. It leaves the placements
  alone and a matching in which the members of a pair name each other and carry the true merge
  cost; at most one stripe stays single, none when their number is even; no two stripes could
  both be better off with each other; the returned total is the cost of the matching in
  32-bit arithmetic. For an even number of stripes \<open>print_statics\<close> reports the same; for an odd one it
  reads out of bounds.\<close>

theorem basic_greedy_correct:
  assumes "good_input nodes k m pls"
  shows "\<exists>g total g'. load_generator None None nodes k m pls = Some g \<and>
    basic_greedy g False = Some (Inr (total, g')) \<and> same_config g g' \<and> matching_ok g' \<and>
    no_better_pair g g' \<and> card (free_stripes g') \<le> 1 \<and> total = wrap32 (matching_cost g') \<and>
    (if even (length pls) then all_matched g' \<and> print_statics g' = Some total
     else print_statics g' = None)"
proof -
  from load_generator_total [OF assms, of None None] obtain g where
    g: "load_generator None None nodes k m pls = Some g" "wf_gen g" "fresh_gen g"
      "stripes_num g = length pls" "g_params g = set_params nodes k m" by auto
  have "greedy_ready g False"
    using g assms by (simp add: fresh_gen_def greedy_ready_def matching_ok_def good_input_def set_params_def)
  from basic_greedy_total [OF this] obtain total g' where
    r: "basic_greedy g False = Some (Inr (total, g'))" "greedy_result g g'"
      "total = wrap32 (matching_cost g')" by auto
  have w: "wf_gen g'" "same_config g g'" "matching_ok g'" "no_better_pair g g'"
    "card (free_stripes g') \<le> 1" using r(2) by (simp_all add: greedy_result_def)
  have n: "stripes_num g' = length pls" using same_config_length [OF w(2)] g(4) by simp
  have "all_matched g'" if "even (length pls)"
    by (rule all_matched_if_even [OF w(3) _ w(5)]) (simp add: n that)
  moreover have "print_statics g' = None" if "odd (length pls)"
    using print_statics_incomplete [OF w(1,3) greedy_blank [OF r(2) g(3)]] odd_unmatched [OF w(3)] n that
    by simp
  ultimately show ?thesis
    using g(1) r(1,3) w print_statics_cost [OF w(1,3)] by auto
qed

theorem basic_greedy_correct_witness:
  "\<exists>g total g'. load_generator None None 6 1 2 [([0], [1, 2]), ([3], [1, 4]), ([5], [1, 2]), ([2], [3, 4])]
      = Some g \<and> basic_greedy g False = Some (Inr (total, g')) \<and> all_matched g' \<and>
    print_statics g' = Some total"
proof -
  have "good_input 6 1 2 [([0], [1, 2]), ([3], [1, 4]), ([5], [1, 2]), ([2], [3, 4])]"
    by (simp add: good_input_def valid_placement_def)
  from basic_greedy_correct [OF this] show ?thesis by auto
qed

text \<open>C37. The baseline \<open>random_match\<close>: when the shuffle is a reordering and the number of
  stripes is even, it returns a complete matching with true costs; when it is odd, the last
  iteration reads past the end of the shuffled vector and the result is undefined.\<close>

theorem random_match_correct:
  assumes "good_input nodes k m pls" and "\<forall>xs. mset (shuf xs) = mset xs"
  shows "\<exists>g. load_generator None None nodes k m pls = Some g \<and>
    (if even (length pls)
     then \<exists>g'. random_match shuf g = Some g' \<and> same_config g g' \<and> matching_ok g' \<and> all_matched g'
     else random_match shuf g = None)"
proof -
  from load_generator_total [OF assms(1), of None None] obtain g where
    g: "load_generator None None nodes k m pls = Some g" "wf_gen g" "fresh_gen g"
      "stripes_num g = length pls" by auto
  have p: "mset (shuf [0..<stripes_num g]) = mset [0..<stripes_num g]" using assms(2) by blast
  have nsel: "\<forall>x < stripes_num g. \<not> sel g x" using g(3) by (simp add: fresh_gen_def)
  show ?thesis
    using g(1,4) random_match_total [OF g(2) nsel, of shuf] p random_match_odd [of g shuf] mset_eq_length [OF p]
    by auto
qed

theorem random_match_correct_witness:
  "\<exists>g. load_generator None None 4 1 1 [([0], [1]), ([2], [1]), ([0], [3])] = Some g \<and>
    random_match rev g = None"
proof -
  have "good_input 4 1 1 [([0], [1]), ([2], [1]), ([0], [3])]"
    by (simp add: good_input_def valid_placement_def)
  from random_match_correct [OF this, of rev] show ?thesis by auto
qed

end
