(* ===== verification/Search.thy ===== *)
theory Search
  imports Greedy
begin

text \<open>
  The parity-guided search of StripeMerge-P: \<open>single_search\<close>, \<open>search_for_matching\<close> and the
  main loop of \<open>dist_based_search\<close> of \<open>MatchingGenerator\<close> (src/matching_generator.cc).

  The source keeps list iterators (\<open>self_it\<close>, \<open>peer_it\<close>, the clean-up queues); the lists hold
  pairwise different stripe indices (part of the invariant), so an iterator is the element it
  stands at, and erasing it removes that element.
\<close>

section \<open>Operations\<close>

text \<open>
  The loop of \<open>single_search\<close>: the least cost so far, the peer it was found at (\<open>None\<close> for the
  end iterator), whether the stripe itself was met, and the selected stripes to clean up.
\<close>

record scan =
  sc_min :: nat
  sc_peer :: "nat option"
  sc_self :: bool
  sc_cleanup :: "nat list"

fun scan_domain :: "nat \<Rightarrow> nat \<Rightarrow> nat list \<Rightarrow> generator \<Rightarrow> scan \<Rightarrow> (generator \<times> scan) option" where
  "scan_domain index tgt [] g sc = Some (g, sc)"
| "scan_domain index tgt (j # js) g sc = do {
     s \<leftarrow> aget (stripes g) j;
     if selected s then scan_domain index tgt js g (sc\<lparr>sc_cleanup := sc_cleanup sc @ [j]\<rparr>)
     else if j = index then scan_domain index tgt js g (sc\<lparr>sc_self := True\<rparr>)
     else do {
       (cost, g') \<leftarrow> get_cost g index j;
       if cost < sc_min sc then
         (if cost = tgt then Some (g', sc\<lparr>sc_min := cost, sc_peer := Some j\<rparr>)
          else scan_domain index tgt js g' (sc\<lparr>sc_min := cost, sc_peer := Some j\<rparr>))
       else scan_domain index tgt js g' sc
     }
   }"

text \<open>
  \<open>single_search\<close> returns whether it succeeded, the search domain and the state. Erasing the
  end iterator is undefined.
\<close>

definition single_search ::
  "generator \<Rightarrow> nat \<Rightarrow> nat list \<Rightarrow> nat \<Rightarrow> (bool \<times> nat list \<times> generator) option" where
  "single_search g index sdom tgt = do {
     s \<leftarrow> aget (stripes g) index;
     (g1, sc) \<leftarrow> scan_domain index tgt sdom g
       \<lparr>sc_min = cur_cost s, sc_peer = None, sc_self = False, sc_cleanup = []\<rparr>;
     s1 \<leftarrow> aget (stripes g1) index;
     (g2, sdom1) \<leftarrow> (if sc_min sc < cur_cost s1 then do {
         g2 \<leftarrow> upd_stripe g1 index (\<lambda>s. s\<lparr>cur_cost := sc_min sc\<rparr>);
         g3 \<leftarrow> upd_stripe g2 index (\<lambda>s. s\<lparr>matching_index :=
                 (case sc_peer sc of None \<Rightarrow> u32_max | Some j \<Rightarrow> j)\<rparr>);
         if sc_min sc = tgt then do {
           peer \<leftarrow> sc_peer sc;
           let d = remove1 peer sdom;
           Some (g3, if sc_self sc then remove1 index d else d)
         } else Some (g3, sdom)
       } else Some (g1, sdom));
     Some (sc_min sc = tgt, fold remove1 (sc_cleanup sc) sdom1, g2)
   }"

text \<open>The \<open>while\<close> loop of \<open>search_for_matching\<close> over the masks.\<close>

partial_function (option) comb_loop ::
  "nat \<Rightarrow> nat \<Rightarrow> nat list \<Rightarrow> int \<Rightarrow> generator \<Rightarrow> int \<Rightarrow> (bool \<times> generator) option" where
  "comb_loop index tgt pd all_one g comb =
     (if comb < all_one then do {
        let key = project (nat comb) pd @ [wrap16 (nat comb)];
        (success, g1) \<leftarrow> (case partial_dist_map g key of
            None \<Rightarrow> Some (False, g)
          | Some l \<Rightarrow>
              if 1 < length l then do {
                (ok, l', g') \<leftarrow> single_search g index l tgt;
                Some (ok, g'\<lparr>partial_dist_map := (partial_dist_map g')(key \<mapsto> l')\<rparr>)
              } else Some (False, g));
        comb' \<leftarrow> next_comb comb;
        if success then Some (True, g1)
        else comb_loop index tgt pd all_one g1 comb'
      } else Some (False, g))"

definition init_all_one :: "generator \<Rightarrow> nat option" where
  "init_all_one g = (case static_all_one g of
     Some a \<Rightarrow> Some a
   | None \<Rightarrow> if rs_m (g_params g) < 31 then Some (wrap8 (2 ^ rs_m (g_params g) - 1)) else None)"

text \<open>
  \<open>search_for_matching\<close>; its branch for target cost 0 is \<open>search_aligned\<close>.
  \<open>parity_map[pd]\<close> inserts an empty list when the key is missing.
\<close>

definition search_aligned :: "generator \<Rightarrow> nat \<Rightarrow> nat list \<Rightarrow> nat \<Rightarrow> (bool \<times> generator) option" where
  "search_aligned g index pd tgt = (
     let l = listed (parity_map g) pd;
         g1 = g\<lparr>parity_map := (parity_map g)(pd \<mapsto> l)\<rparr>
     in if 1 < length l then do {
          (ok, l', g2) \<leftarrow> single_search g1 index l tgt;
          Some (ok, g2\<lparr>parity_map := (parity_map g2)(pd \<mapsto> l')\<rparr>)
        } else Some (False, g1))"

definition search_for_matching :: "generator \<Rightarrow> nat \<Rightarrow> nat \<Rightarrow> (bool \<times> generator) option" where
  "search_for_matching g0 index tgt = do {
     all_one \<leftarrow> init_all_one g0;
     let g = g0\<lparr>static_all_one := Some all_one\<rparr>;
     s \<leftarrow> aget (stripes g) index;
     let pd = parity_dist s;
     if tgt = 0 then search_aligned g index pd tgt
     else if rs_m (g_params g) < tgt \<or> 31 \<le> rs_m (g_params g) - tgt then None
     else comb_loop index tgt pd (int all_one) g (2 ^ (rs_m (g_params g) - tgt) - 1)
   }"

text \<open>
  One iteration of the inner loop of \<open>dist_based_search\<close>; the second component is the queue
  \<open>it_to_del\<close>. \<open>mark_found\<close> is its end, from \<open>if (succeed)\<close> on.
\<close>

definition mark_found :: "nat \<Rightarrow> nat list \<Rightarrow> bool \<times> generator \<Rightarrow> (generator \<times> nat list) option" where
  "mark_found cur del r = (case r of (succeed, g1) \<Rightarrow>
     if succeed then do {
       s1 \<leftarrow> aget (stripes g1) cur;
       g2 \<leftarrow> mark_matched g1 cur (matching_index s1) (cur_cost s1) True;
       Some (g2, del @ [cur])
     } else Some (g1, del))"

definition search_step :: "nat \<Rightarrow> generator \<times> nat list \<Rightarrow> nat \<Rightarrow> (generator \<times> nat list) option" where
  "search_step cost st cur = (case st of (g, del) \<Rightarrow> do {
     s \<leftarrow> aget (stripes g) cur;
     if selected s then Some (g, del @ [cur])
     else do {
       r \<leftarrow> (if cur_cost s = cost then do {
            t \<leftarrow> aget (stripes g) (matching_index s);
            if \<not> selected t then Some (True, g)
            else do {
              g' \<leftarrow> upd_stripe g cur (\<lambda>s. s\<lparr>matching_index := u32_max\<rparr>);
              g'' \<leftarrow> upd_stripe g' cur (\<lambda>s. s\<lparr>cur_cost := u8_max\<rparr>);
              search_for_matching g'' cur cost
            }
          } else search_for_matching g cur cost);
       mark_found cur del r
     }
   })"

definition search_pass :: "nat \<Rightarrow> generator \<Rightarrow> generator option" where
  "search_pass cost g = do {
     (g', del) \<leftarrow> foldM (search_step cost) (g, []) (remaining_stripes g);
     Some (g'\<lparr>remaining_stripes := fold remove1 del (remaining_stripes g')\<rparr>)
   }"

fun search_levels :: "nat list \<Rightarrow> generator \<Rightarrow> generator option" where
  "search_levels [] g = Some g"
| "search_levels (c # cs) g =
     (if remaining_stripes g = [] then Some g
      else do { g' \<leftarrow> search_pass c g; search_levels cs g' })"

section \<open>Scanning one search domain\<close>

definition scan_ok :: "generator \<Rightarrow> nat \<Rightarrow> nat \<Rightarrow> nat list \<Rightarrow> scan \<Rightarrow> scan \<Rightarrow> bool" where
  "scan_ok g index t l sc sc' \<longleftrightarrow>
     (sc_min sc' = sc_min sc \<and> sc_peer sc' = sc_peer sc \<or>
      (\<exists>j \<in> set l. \<not> sel g j \<and> j \<noteq> index \<and> sc_peer sc' = Some j \<and>
         sc_min sc' = pair_cost g index j \<and> sc_min sc' < sc_min sc)) \<and>
     (sc_min sc' = t \<or>
      t < sc_min sc' \<and> (\<forall>j \<in> set l. \<not> sel g j \<and> j \<noteq> index \<longrightarrow> t < pair_cost g index j)) \<and>
     (\<exists>cl. sc_cleanup sc' = sc_cleanup sc @ cl \<and> set cl \<subseteq> {j \<in> set l. sel g j})"

lemma scan_domain_total:
  assumes "wf_gen g" and "index < stripes_num g" and "\<forall>j \<in> set l. j < stripes_num g"
    and "t < sc_min sc"
    and "\<forall>j \<in> set l. \<not> sel g j \<and> j \<noteq> index \<longrightarrow> t \<le> pair_cost g index j"
  shows "\<exists>g' sc'. scan_domain index t l g sc = Some (g', sc') \<and> wf_gen g' \<and>
    same_but_memo g g' \<and> scan_ok g index t l sc sc'"
  using assms
proof (induction l arbitrary: g sc)
  case Nil
  then show ?case by (auto simp: scan_ok_def)
next
  case (Cons j js)
  have len: "j < length (stripes g)" using Cons.prems wf_gen_length by simp
  consider "sel g j" | "\<not> sel g j" "j = index" | "\<not> sel g j" "j \<noteq> index" by blast
  then show ?case
  proof cases
    case 1
    let ?sc = "sc\<lparr>sc_cleanup := sc_cleanup sc @ [j]\<rparr>"
    from Cons.IH [OF Cons.prems(1,2), of ?sc] Cons.prems obtain g' sc' where
      r: "scan_domain index t js g ?sc = Some (g', sc')" "wf_gen g'" "same_but_memo g g'"
        "scan_ok g index t js ?sc sc'" by auto
    from r(4) 1 have "scan_ok g index t (j # js) sc sc'" by (auto simp: scan_ok_def)
    with r 1 len show ?thesis by simp
  next
    case 2
    let ?sc = "sc\<lparr>sc_self := True\<rparr>"
    from Cons.IH [OF Cons.prems(1,2), of ?sc] Cons.prems obtain g' sc' where
      r: "scan_domain index t js g ?sc = Some (g', sc')" "wf_gen g'" "same_but_memo g g'"
        "scan_ok g index t js ?sc sc'" by auto
    from r(4) 2 have "scan_ok g index t (j # js) sc sc'" by (auto simp: scan_ok_def)
    with r 2 len show ?thesis by simp
  next
    case 3
    let ?c = "pair_cost g index j"
    let ?sc = "sc\<lparr>sc_min := ?c, sc_peer := Some j\<rparr>"
    from get_cost_total [of g index j] Cons.prems 3 obtain g1 where
      g1: "get_cost g index j = Some (?c, g1)" "wf_gen g1" "same_but_memo g g1" by auto
    have f: "stripes_num g1 = stripes_num g" "stripes g1 = stripes g" "pair_cost g1 = pair_cost g"
      using g1(3) by (simp_all add: same_but_memo_fields same_but_memo_pair_cost)
    have ok: "\<forall>k \<in> set js. \<not> sel g1 k \<and> k \<noteq> index \<longrightarrow> t \<le> pair_cost g1 index k"
      using Cons.prems f by simp
    have t: "t \<le> ?c" using Cons.prems 3 by simp
    show ?thesis
    proof (cases "?c < sc_min sc")
      case less: True
      show ?thesis
      proof (cases "?c = t")
        case True
        then have "scan_ok g index t (j # js) sc ?sc" using 3 less by (auto simp: scan_ok_def)
        with g1 len 3 less True show ?thesis by simp
      next
        case False
        with t have "t < sc_min ?sc" by simp
        from Cons.IH [OF g1(2), of ?sc] this Cons.prems f ok obtain g' sc' where
          r: "scan_domain index t js g1 ?sc = Some (g', sc')" "wf_gen g'" "same_but_memo g1 g'"
            "scan_ok g1 index t js ?sc sc'" by auto
        have "scan_ok g index t (j # js) sc sc'"
          using r(4) 3 less False t unfolding scan_ok_def f by auto
        with r g1 len 3 less False show ?thesis by (auto intro: same_but_memo_trans)
      qed
    next
      case False
      from Cons.IH [OF g1(2), of sc] Cons.prems f ok obtain g' sc' where
        r: "scan_domain index t js g1 sc = Some (g', sc')" "wf_gen g'" "same_but_memo g1 g'"
          "scan_ok g1 index t js sc sc'" by auto
      have "t < ?c" using False Cons.prems by simp
      then have "scan_ok g index t (j # js) sc sc'"
        using r(4) unfolding scan_ok_def f by auto
      with r g1 len 3 False show ?thesis by (auto intro: same_but_memo_trans)
    qed
  qed
qed

section \<open>Searching one domain\<close>

text \<open>A search for the stripe \<open>index\<close> touches no other stripe and selects none.\<close>

definition tuned :: "generator \<Rightarrow> nat \<Rightarrow> generator \<Rightarrow> bool" where
  "tuned g index g' \<longleftrightarrow> wf_gen g' \<and> same_config g g' \<and>
     remaining_stripes g' = remaining_stripes g \<and> zero_map g' = zero_map g \<and>
     none_zero_candidate g' = none_zero_candidate g \<and> blocks_to_sent g' = blocks_to_sent g \<and>
     (\<forall>x < stripes_num g. sel g' x = sel g x \<and> (x \<noteq> index \<longrightarrow> stripes g' ! x = stripes g ! x))"

text \<open>
  What a free stripe remembers: nothing, or a partner and the cost of the pair (the partner may
  have been selected in the meantime).
\<close>

definition memo_ok :: "generator \<Rightarrow> nat \<Rightarrow> bool" where
  "memo_ok g x \<longleftrightarrow> scost g x = u8_max \<and> mate g x = u32_max \<or>
     mate g x < stripes_num g \<and> mate g x \<noteq> x \<and> scost g x = pair_cost g x (mate g x)"

text \<open>The search found the free partner \<open>p\<close> at the wanted cost.\<close>

definition hit :: "generator \<Rightarrow> nat \<Rightarrow> nat \<Rightarrow> nat \<Rightarrow> generator \<Rightarrow> bool" where
  "hit g t index p g' \<longleftrightarrow> p < stripes_num g \<and> p \<noteq> index \<and> \<not> sel g p \<and> pair_cost g index p = t \<and>
     mate g' index = p \<and> scost g' index = t"

definition free_in :: "generator \<Rightarrow> nat list \<Rightarrow> nat set" where
  "free_in g l = {x \<in> set l. \<not> sel g x}"

lemma tuned_refl: "wf_gen g \<Longrightarrow> tuned g index g"
  by (simp add: tuned_def)

lemma tuned_trans:
  assumes "tuned g index g'" and "tuned g' index g''"
  shows "tuned g index g''"
  using assms same_config_length(2) [of g g'] same_config_trans [of g g' g'']
  by (simp add: tuned_def)

lemma tuned_memo: "wf_gen g' \<Longrightarrow> same_but_memo g g' \<Longrightarrow> tuned g index g'"
  by (simp add: tuned_def same_but_memo_config same_but_memo_fields)

lemma fold_remove1:
  "distinct l \<Longrightarrow> distinct (fold remove1 xs l) \<and> set (fold remove1 xs l) = set l - set xs"
  by (induction xs arbitrary: l) auto

definition set_memo :: "generator \<Rightarrow> nat \<Rightarrow> nat \<Rightarrow> nat \<Rightarrow> generator" where
  "set_memo g x c p =
     g\<lparr>stripes := (stripes g)[x := (stripes g ! x)\<lparr>cur_cost := c, matching_index := p\<rparr>]\<rparr>"

lemma set_memo_upd:
  assumes "x < length (stripes g)"
  shows "\<exists>h. upd_stripe g x (\<lambda>s. s\<lparr>cur_cost := c\<rparr>) = Some h \<and>
      upd_stripe h x (\<lambda>s. s\<lparr>matching_index := p\<rparr>) = Some (set_memo g x c p)"
  and "\<exists>h. upd_stripe g x (\<lambda>s. s\<lparr>matching_index := p\<rparr>) = Some h \<and>
      upd_stripe h x (\<lambda>s. s\<lparr>cur_cost := c\<rparr>) = Some (set_memo g x c p)"
  using assms by (simp add: upd_stripe_def set_memo_def, cases "stripes g ! x",
      simp add: upd_stripe_def set_memo_def)

lemma set_memo_nth:
  assumes "x < length (stripes g)"
  shows "sel (set_memo g x c p) y = sel g y"
    and "mate (set_memo g x c p) x = p" and "scost (set_memo g x c p) x = c"
    and "y \<noteq> x \<Longrightarrow> stripes (set_memo g x c p) ! y = stripes g ! y"
  using assms by (simp_all add: set_memo_def nth_list_update)

lemma set_memo_config: "same_config g (set_memo g x c p)"
  by (cases "x < length (stripes g)")
    (auto simp: same_config_def places_def set_memo_def list_eq_iff_nth_eq nth_list_update)

lemma set_memo_pairs: "same_but_pairs g (set_memo g x c p)"
  by (simp add: same_but_pairs_def set_memo_def)

lemma set_memo_fields [simp]:
  "stripes_num (set_memo g x c p) = stripes_num g" "rs_n (set_memo g x c p) = rs_n g"
  "g_params (set_memo g x c p) = g_params g"
  "cost_table (set_memo g x c p) = cost_table g" "static_c (set_memo g x c p) = static_c g"
  "static_all_one (set_memo g x c p) = static_all_one g"
  "remaining_stripes (set_memo g x c p) = remaining_stripes g"
  "zero_map (set_memo g x c p) = zero_map g"
  "parity_map (set_memo g x c p) = parity_map g"
  "partial_dist_map (set_memo g x c p) = partial_dist_map g"
  "none_zero_candidate (set_memo g x c p) = none_zero_candidate g"
  "blocks_to_sent (set_memo g x c p) = blocks_to_sent g"
  "length (stripes (set_memo g x c p)) = length (stripes g)"
  by (simp_all add: set_memo_def)

lemma set_memo_tuned:
  assumes "wf_gen g" and "x < stripes_num g"
  shows "tuned g x (set_memo g x c p)"
  using same_config_wf_gen [OF set_memo_config assms(1)] assms
  by (simp add: tuned_def set_memo_config set_memo_nth wf_gen_length)

lemma tuned_pair_cost:
  assumes "tuned g index g'" and "wf_gen g" and "x < stripes_num g" and "y < stripes_num g"
  shows "pair_cost g' x y = pair_cost g x y"
  using assms by (intro same_config_pair_cost) (simp_all add: tuned_def wf_gen_length)

lemma tuned_num: "tuned g index g' \<Longrightarrow> stripes_num g' = stripes_num g"
  by (simp add: tuned_def same_config_length)

lemma tuned_wf: "tuned g index g' \<Longrightarrow> wf_gen g'"
  by (simp add: tuned_def)

lemma tuned_sel: "tuned g index g' \<Longrightarrow> x < stripes_num g \<Longrightarrow> sel g' x = sel g x"
  by (simp add: tuned_def)

lemma tuned_other:
  "tuned g index g' \<Longrightarrow> x < stripes_num g \<Longrightarrow> x \<noteq> index \<Longrightarrow> stripes g' ! x = stripes g ! x"
  by (simp add: tuned_def)

definition searched :: "generator \<Rightarrow> nat \<Rightarrow> nat \<Rightarrow> nat list \<Rightarrow> bool \<Rightarrow> nat list \<Rightarrow> generator \<Rightarrow> bool" where
  "searched g index t l ok l' g' \<longleftrightarrow>
     tuned g index g' \<and> same_but_pairs g g' \<and> memo_ok g' index \<and> distinct l' \<and> set l' \<subseteq> set l \<and>
     (if ok then \<exists>p. hit g t index p g' \<and> free_in g l - {index, p} \<subseteq> set l'
      else t < scost g' index \<and> free_in g l \<subseteq> set l' \<and>
        (\<forall>j \<in> free_in g l - {index}. t < pair_cost g index j))"

lemma single_search_total:
  assumes wf: "wf_gen g" and idx: "index < stripes_num g"
    and l: "\<forall>j \<in> set l. j < stripes_num g" "distinct l"
    and t: "t < scost g index" and memo: "memo_ok g index"
    and low: "\<forall>j \<in> free_in g l - {index}. t \<le> pair_cost g index j"
  shows "\<exists>ok l' g'. single_search g index l t = Some (ok, l', g') \<and> searched g index t l ok l' g'"
proof -
  let ?sc = "\<lparr>sc_min = scost g index, sc_peer = None, sc_self = False, sc_cleanup = []\<rparr>"
  from scan_domain_total [OF wf idx l(1), of t ?sc] t low obtain g1 sc where
    r: "scan_domain index t l g ?sc = Some (g1, sc)" "wf_gen g1" "same_but_memo g g1"
      "scan_ok g index t l ?sc sc" by (auto simp: free_in_def)
  have f: "stripes_num g1 = stripes_num g" "stripes g1 = stripes g" "pair_cost g1 = pair_cost g"
    using r(3) by (simp_all add: same_but_memo_fields same_but_memo_pair_cost)
  have len: "index < length (stripes g)" using idx wf_gen_length [OF wf] by simp
  have t1: "tuned g index g1" using tuned_memo r by blast
  let ?cl = "sc_cleanup sc"
  have cl: "set ?cl \<subseteq> {j \<in> set l. sel g j}" using r(4) by (auto simp: scan_ok_def)
  show ?thesis
  proof (cases "sc_min sc < scost g index")
    case False
    then have m: "sc_min sc = scost g index" using r(4) by (auto simp: scan_ok_def)
    have "single_search g index l t = Some (False, fold remove1 ?cl l, g1)"
      using r(1) len f m t by (simp add: single_search_def)
    moreover have "searched g index t l False (fold remove1 ?cl l) g1"
      using r(3,4) t m t1 cl memo fold_remove1 [OF l(2), of ?cl] f
      by (auto simp: searched_def free_in_def scan_ok_def same_but_memo_pairs memo_ok_def)
    ultimately show ?thesis by blast
  next
    case True
    then obtain p where p: "p \<in> set l" "\<not> sel g p" "p \<noteq> index" "sc_peer sc = Some p"
      "sc_min sc = pair_cost g index p"
      using r(4) by (auto simp: scan_ok_def)
    let ?g = "set_memo g1 index (sc_min sc) p"
    have t2: "tuned g index ?g"
      using tuned_trans [OF t1] set_memo_tuned [OF r(2)] idx f by simp
    have sp: "same_but_pairs g ?g"
      using same_but_pairs_trans [OF same_but_memo_pairs [OF r(3)] set_memo_pairs] .
    have nm: "mate ?g index = p" "scost ?g index = pair_cost g index p"
      using set_memo_nth [of index g1] len f p by simp_all
    have mo: "memo_ok ?g index"
      using nm p l(1) idx f tuned_pair_cost [OF t2 wf] by (simp add: memo_ok_def)
    obtain h where upd: "upd_stripe g1 index (\<lambda>s. s\<lparr>cur_cost := pair_cost g index p\<rparr>) = Some h"
        "upd_stripe h index (\<lambda>s. s\<lparr>matching_index := p\<rparr>) = Some ?g"
      using set_memo_upd(1) [of index g1 "sc_min sc" p] len f p(5) by auto
    show ?thesis
    proof (cases "sc_min sc = t")
      case True
      let ?l = "fold remove1 ?cl (if sc_self sc then remove1 index (remove1 p l) else remove1 p l)"
      have "single_search g index l t = Some (True, ?l, ?g)"
        using r(1) len f p True \<open>sc_min sc < scost g index\<close>
        by (simp add: single_search_def upd [unfolded p(5)])
      moreover have "hit g t index p ?g"
        using p nm l(1) True by (simp add: hit_def)
      moreover have "distinct ?l" "set ?l \<subseteq> set l" "free_in g l - {index, p} \<subseteq> set ?l"
        using cl l(2) fold_remove1 [of "remove1 index (remove1 p l)" ?cl]
          fold_remove1 [of "remove1 p l" ?cl] by (auto simp: free_in_def)
      ultimately have "searched g index t l True ?l ?g"
        unfolding searched_def if_True using t2 sp mo by blast
      with \<open>single_search g index l t = Some (True, ?l, ?g)\<close> show ?thesis by blast
    next
      case False
      then have res: "single_search g index l t = Some (False, fold remove1 ?cl l, ?g)"
        using r(1) len f p \<open>sc_min sc < scost g index\<close>
        by (simp add: single_search_def upd [unfolded p(5)])
      have "t < scost ?g index" "\<forall>j \<in> free_in g l - {index}. t < pair_cost g index j"
        using r(4) False nm(2) p(5) unfolding scan_ok_def free_in_def by simp_all
      moreover have "free_in g l \<subseteq> set (fold remove1 ?cl l)" "set (fold remove1 ?cl l) \<subseteq> set l"
        "distinct (fold remove1 ?cl l)"
        using cl fold_remove1 [OF l(2), of ?cl] by (auto simp: free_in_def)
      ultimately have "searched g index t l False (fold remove1 ?cl l) ?g"
        using t2 sp mo unfolding searched_def by simp
      with res show ?thesis by blast
    qed
  qed
qed

section \<open>The search domains\<close>

definition parity_keyed :: "generator \<Rightarrow> nat list \<Rightarrow> nat set" where
  "parity_keyed g q = {i. i < stripes_num g \<and> stripe_parity g i = q}"

definition mask_keyed :: "generator \<Rightarrow> nat \<Rightarrow> nat list \<Rightarrow> nat set" where
  "mask_keyed g s q = {i. i < stripes_num g \<and> 1 \<le> s \<and> s < 2 ^ rs_m (g_params g) \<and>
     project s (stripe_parity g i) = q}"

text \<open>
  A list of the index is a search domain of the stripes \<open>K\<close>: it names only stripes of \<open>K\<close>,
  each once, and every free one except those in \<open>X\<close> (a pair just taken).
\<close>

definition dom_ok :: "generator \<Rightarrow> nat set \<Rightarrow> nat set \<Rightarrow> nat list \<Rightarrow> bool" where
  "dom_ok g X K l \<longleftrightarrow> distinct l \<and> set l \<subseteq> K \<and> {x \<in> K. \<not> sel g x} - X \<subseteq> set l"

definition maps_ok :: "generator \<Rightarrow> nat set \<Rightarrow> bool" where
  "maps_ok g X \<longleftrightarrow> (\<forall>q. dom_ok g X (parity_keyed g q) (listed (parity_map g) q)) \<and>
     (\<forall>s q. dom_ok g X (mask_keyed g s q) (listed (partial_dist_map g) (q @ [s])))"

lemma keyed_config:
  assumes "same_config g g'" and "wf_gen g"
  shows "parity_keyed g' q = parity_keyed g q" and "mask_keyed g' s q = mask_keyed g s q"
  using same_config_nth(2) [OF assms(1)] wf_gen_length [OF assms(2)]
    same_config_length(2,4) [OF assms(1)]
  by (auto simp: parity_keyed_def mask_keyed_def stripe_parity_def)

lemma keyed_bound: "x \<in> parity_keyed g q \<Longrightarrow> x < stripes_num g"
    "x \<in> mask_keyed g s q \<Longrightarrow> x < stripes_num g"
  by (simp_all add: parity_keyed_def mask_keyed_def)

lemma dom_ok_sel:
  assumes "dom_ok g X K l" and "X \<subseteq> X'"
    and "\<And>x. x \<in> K \<Longrightarrow> x \<notin> X' \<Longrightarrow> \<not> sel g' x \<Longrightarrow> \<not> sel g x"
  shows "dom_ok g' X' K l"
  using assms unfolding dom_ok_def by blast

text \<open>Going to a state of the same configuration, where more stripes are selected or excepted.\<close>

lemma maps_ok_step:
  assumes m: "maps_ok g X" and c: "same_config g g'" and wf: "wf_gen g" and X: "X \<subseteq> X'"
    and s: "\<And>x. x < stripes_num g \<Longrightarrow> x \<notin> X' \<Longrightarrow> \<not> sel g' x \<Longrightarrow> \<not> sel g x"
    and p: "\<And>q. listed (parity_map g') q \<noteq> listed (parity_map g) q \<Longrightarrow>
      dom_ok g' X' (parity_keyed g q) (listed (parity_map g') q)"
    and d: "\<And>k q. listed (partial_dist_map g') (q @ [k]) \<noteq> listed (partial_dist_map g) (q @ [k]) \<Longrightarrow>
      dom_ok g' X' (mask_keyed g k q) (listed (partial_dist_map g') (q @ [k]))"
  shows "maps_ok g' X'"
  unfolding maps_ok_def keyed_config [OF c wf]
proof (intro conjI allI)
  fix q
  have "dom_ok g X (parity_keyed g q) (listed (parity_map g) q)" using m by (simp add: maps_ok_def)
  then have "dom_ok g' X' (parity_keyed g q) (listed (parity_map g) q)"
    by (rule dom_ok_sel [OF _ X]) (use s keyed_bound in blast)
  with p show "dom_ok g' X' (parity_keyed g q) (listed (parity_map g') q)" by metis
next
  fix k q
  have "dom_ok g X (mask_keyed g k q) (listed (partial_dist_map g) (q @ [k]))"
    using m by (simp add: maps_ok_def)
  then have "dom_ok g' X' (mask_keyed g k q) (listed (partial_dist_map g) (q @ [k]))"
    by (rule dom_ok_sel [OF _ X]) (use s keyed_bound in blast)
  with d show "dom_ok g' X' (mask_keyed g k q) (listed (partial_dist_map g') (q @ [k]))" by metis
qed

text \<open>The states in which stripe \<open>index\<close> is searched for at cost \<open>t\<close>, and what a search does.\<close>

definition searchable :: "generator \<Rightarrow> nat \<Rightarrow> nat \<Rightarrow> bool" where
  "searchable g index t \<longleftrightarrow> wf_gen g \<and> index < stripes_num g \<and> \<not> sel g index \<and> maps_ok g {} \<and>
     t < scost g index \<and> memo_ok g index \<and>
     (\<forall>y < stripes_num g. \<not> sel g y \<and> y \<noteq> index \<longrightarrow> t \<le> pair_cost g index y)"

definition probed :: "generator \<Rightarrow> nat \<Rightarrow> nat \<Rightarrow> nat set \<Rightarrow> bool \<Rightarrow> generator \<Rightarrow> bool" where
  "probed g index t K ok g' \<longleftrightarrow> tuned g index g' \<and> memo_ok g' index \<and>
     (if ok then \<exists>p. hit g t index p g' \<and> maps_ok g' {index, p}
      else t < scost g' index \<and> maps_ok g' {} \<and>
        (\<forall>y \<in> K. \<not> sel g y \<and> y \<noteq> index \<longrightarrow> t < pair_cost g index y))"

lemma probed_searchable:
  assumes "searchable g index t" and "probed g index t K False g'"
  shows "searchable g' index t"
  using assms tuned_sel [of g index g'] tuned_num [of g index g'] tuned_wf [of g index g']
    tuned_pair_cost [of g index g' index]
  by (simp add: searchable_def probed_def)

lemma probed_trans:
  assumes s: "searchable g index t" and a: "probed g index t K False g1"
    and b: "probed g1 index t K' ok g2" and K: "K' \<subseteq> {..<stripes_num g}"
  shows "probed g index t (K \<union> K') ok g2"
proof -
  have t1: "tuned g index g1" and t2: "tuned g1 index g2"
    using a b by (simp_all add: probed_def)
  have wf: "wf_gen g" "index < stripes_num g" using s by (simp_all add: searchable_def)
  have n: "stripes_num g1 = stripes_num g" using tuned_num [OF t1] .
  have h: "hit g t index p g2" if "hit g1 t index p g2" for p
    using that n tuned_sel [OF t1] tuned_pair_cost [OF t1 wf(1,2)] by (auto simp: hit_def)
  have "\<forall>y \<in> K'. \<not> sel g y \<and> y \<noteq> index \<longrightarrow> t < pair_cost g index y" if "\<not> ok"
  proof (intro ballI impI)
    fix y assume y: "y \<in> K'" "\<not> sel g y \<and> y \<noteq> index"
    with K have "sel g1 y = sel g y" "pair_cost g1 index y = pair_cost g index y"
      using tuned_sel [OF t1] tuned_pair_cost [OF t1 wf(1,2)] by auto
    with y b that show "t < pair_cost g index y" by (auto simp: probed_def)
  qed
  then show ?thesis
    using a b h tuned_trans [OF t1 t2] unfolding probed_def by (auto split: if_splits)
qed

lemma probed_nothing:
  assumes "searchable g index t" and "tuned g index g'" and "stripes g' = stripes g"
    and "maps_ok g' {}" and "\<forall>y \<in> K. \<not> sel g y \<and> y \<noteq> index \<longrightarrow> t < pair_cost g index y"
  shows "probed g index t K False g'"
  using assms tuned_num [of g index g'] tuned_pair_cost [of g index g' index]
  by (auto simp: probed_def searchable_def memo_ok_def)

text \<open>A domain with at most one entry holds the stripe itself only.\<close>

lemma dom_short:
  assumes "dom_ok g {} K l" and "\<not> 1 < length l" and "index \<in> K" and "\<not> sel g index"
  shows "\<forall>y \<in> K. \<not> sel g y \<and> y \<noteq> index \<longrightarrow> t < pair_cost g index y"
proof (intro ballI impI)
  fix y assume y: "y \<in> K" "\<not> sel g y \<and> y \<noteq> index"
  with assms have "{y, index} \<subseteq> set l" by (auto simp: dom_ok_def)
  then have "card {y, index} \<le> length l" by (meson List.finite_set card_length card_mono le_trans)
  with assms y show "t < pair_cost g index y" by simp
qed

lemma search_domain:
  assumes s: "searchable g index t" and d: "dom_ok g {} K l" and K: "K \<subseteq> {..<stripes_num g}"
  shows "\<exists>ok l' g'. single_search g index l t = Some (ok, l', g') \<and> tuned g index g' \<and>
    same_but_pairs g g' \<and> memo_ok g' index \<and>
    (if ok then \<exists>p. hit g t index p g' \<and> dom_ok g' {index, p} K l'
     else t < scost g' index \<and> dom_ok g' {} K l' \<and>
       (\<forall>y \<in> K. \<not> sel g y \<and> y \<noteq> index \<longrightarrow> t < pair_cost g index y))"
proof -
  have l: "\<forall>j \<in> set l. j < stripes_num g" "distinct l" using d K by (auto simp: dom_ok_def)
  have low: "\<forall>j \<in> free_in g l - {index}. t \<le> pair_cost g index j"
    using s l by (auto simp: searchable_def free_in_def)
  from single_search_total [OF _ _ l _ _ low] s obtain ok l' g' where
    r: "single_search g index l t = Some (ok, l', g')" "searched g index t l ok l' g'"
    by (auto simp: searchable_def)
  have tn: "tuned g index g'" using r(2) by (simp add: searched_def)
  have fr: "\<And>x. x \<in> K \<Longrightarrow> \<not> sel g' x \<Longrightarrow> x \<in> free_in g l"
    using d K tuned_sel [OF tn] by (auto simp: dom_ok_def free_in_def)
  have mono: "dom_ok g' X K l'" if "free_in g l - X \<subseteq> set l'" for X
    using that r(2) d fr by (auto simp: searched_def dom_ok_def)
  show ?thesis
  proof (cases ok)
    case True
    with r(2) obtain p where "hit g t index p g'" "free_in g l - {index, p} \<subseteq> set l'"
      by (auto simp: searched_def)
    with True r mono show ?thesis by (auto simp: searched_def)
  next
    case False
    with r(2) have f: "t < scost g' index" "free_in g l \<subseteq> set l'"
      "\<forall>j \<in> free_in g l - {index}. t < pair_cost g index j"
      by (auto simp: searched_def)
    have "\<forall>y \<in> K. \<not> sel g y \<and> y \<noteq> index \<longrightarrow> t < pair_cost g index y"
      using f(3) d by (auto simp: dom_ok_def free_in_def)
    with False r f mono [of "{}"] show ?thesis by (auto simp: searched_def)
  qed
qed

section \<open>Searching under every mask\<close>

text \<open>None of the notions of this theory depends on the maps of the index.\<close>

lemma wf_gen_index [simp]:
  "wf_gen (g\<lparr>partial_dist_map := m\<rparr>) = wf_gen g" "wf_gen (g\<lparr>parity_map := m\<rparr>) = wf_gen g"
  "wf_gen (g\<lparr>static_all_one := a\<rparr>) = wf_gen g" "wf_gen (g\<lparr>remaining_stripes := r\<rparr>) = wf_gen g"
  by (simp_all add: wf_gen_def wf_config_def wf_table_def pair_cost_def)

lemma same_config_index [simp]:
  "same_config h (g\<lparr>partial_dist_map := m\<rparr>) = same_config h g"
  "same_config h (g\<lparr>parity_map := m\<rparr>) = same_config h g"
  "same_config h (g\<lparr>static_all_one := a\<rparr>) = same_config h g"
  "same_config h (g\<lparr>remaining_stripes := r\<rparr>) = same_config h g"
  by (simp_all add: same_config_def places_def)

lemma pair_cost_index [simp]:
  "pair_cost (g\<lparr>partial_dist_map := m\<rparr>) = pair_cost g"
  "pair_cost (g\<lparr>parity_map := m\<rparr>) = pair_cost g"
  "pair_cost (g\<lparr>static_all_one := a\<rparr>) = pair_cost g"
  "pair_cost (g\<lparr>remaining_stripes := r\<rparr>) = pair_cost g"
  by (simp_all add: pair_cost_def fun_eq_iff)

lemma tuned_index [simp]:
  "tuned g index (g'\<lparr>partial_dist_map := m\<rparr>) = tuned g index g'"
  "tuned g index (g'\<lparr>parity_map := m\<rparr>) = tuned g index g'"
  "tuned g index (g'\<lparr>static_all_one := a\<rparr>) = tuned g index g'"
  by (simp_all add: tuned_def)

lemma memo_ok_index [simp]:
  "memo_ok (g\<lparr>partial_dist_map := m\<rparr>) x = memo_ok g x"
  "memo_ok (g\<lparr>parity_map := m\<rparr>) x = memo_ok g x"
  "memo_ok (g\<lparr>static_all_one := a\<rparr>) x = memo_ok g x"
  "memo_ok (g\<lparr>remaining_stripes := r\<rparr>) x = memo_ok g x"
  by (simp_all add: memo_ok_def)

lemma hit_index [simp]:
  "hit g t index p (g'\<lparr>partial_dist_map := m\<rparr>) = hit g t index p g'"
  "hit g t index p (g'\<lparr>parity_map := m\<rparr>) = hit g t index p g'"
  by (simp_all add: hit_def)

lemma dom_ok_index [simp]:
  "dom_ok (g\<lparr>partial_dist_map := m\<rparr>) X K l = dom_ok g X K l"
  "dom_ok (g\<lparr>parity_map := m\<rparr>) X K l = dom_ok g X K l"
  "dom_ok (g\<lparr>static_all_one := a\<rparr>) X K l = dom_ok g X K l"
  "dom_ok (g\<lparr>remaining_stripes := r\<rparr>) X K l = dom_ok g X K l"
  by (simp_all add: dom_ok_def)

lemma keyed_index [simp]:
  "parity_keyed (g\<lparr>static_all_one := a\<rparr>) q = parity_keyed g q"
  "mask_keyed (g\<lparr>static_all_one := a\<rparr>) s q = mask_keyed g s q"
  "parity_keyed (g\<lparr>remaining_stripes := r\<rparr>) q = parity_keyed g q"
  "mask_keyed (g\<lparr>remaining_stripes := r\<rparr>) s q = mask_keyed g s q"
  by (simp_all add: parity_keyed_def mask_keyed_def stripe_parity_def)

lemma maps_ok_index [simp]:
  "maps_ok (g\<lparr>static_all_one := a\<rparr>) X = maps_ok g X"
  "maps_ok (g\<lparr>remaining_stripes := r\<rparr>) X = maps_ok g X"
  by (simp_all add: maps_ok_def)

lemma listed_upd: "listed (m(k \<mapsto> l)) q = (if q = k then l else listed m q)"
  by (simp add: listed_def)

text \<open>One mask: a lookup in \<open>partial_dist_map\<close> and, when the list is worth it, a search.\<close>

definition mask_step :: "nat \<Rightarrow> nat \<Rightarrow> generator \<Rightarrow> nat list \<Rightarrow> (bool \<times> generator) option" where
  "mask_step index t g key = (case partial_dist_map g key of
     None \<Rightarrow> Some (False, g)
   | Some l \<Rightarrow>
       if 1 < length l then do {
         (ok, l', g') \<leftarrow> single_search g index l t;
         Some (ok, g'\<lparr>partial_dist_map := (partial_dist_map g')(key \<mapsto> l')\<rparr>)
       } else Some (False, g))"

lemma comb_loop_unfold:
  "comb_loop index t pd a g comb =
     (if comb < a then do {
        (ok, g1) \<leftarrow> mask_step index t g (project (nat comb) pd @ [wrap16 (nat comb)]);
        comb' \<leftarrow> next_comb comb;
        if ok then Some (True, g1) else comb_loop index t pd a g1 comb'
      } else Some (False, g))"
  by (subst comb_loop.simps) (simp add: mask_step_def Let_def)

lemma mask_step_total:
  assumes s: "searchable g index t" and mem: "index \<in> mask_keyed g k q"
  shows "\<exists>ok g'. mask_step index t g (q @ [k]) = Some (ok, g') \<and>
    probed g index t (mask_keyed g k q) ok g' \<and> static_all_one g' = static_all_one g"
proof -
  let ?K = "mask_keyed g k q" and ?l = "listed (partial_dist_map g) (q @ [k])"
  have wf: "wf_gen g" and maps: "maps_ok g {}" and nsel: "\<not> sel g index"
    using s by (simp_all add: searchable_def)
  have d: "dom_ok g {} ?K ?l" using maps by (simp add: maps_ok_def)
  have K: "?K \<subseteq> {..<stripes_num g}" using keyed_bound by blast
  show ?thesis
  proof (cases "1 < length ?l")
    case False
    then have "mask_step index t g (q @ [k]) = Some (False, g)"
      by (auto simp: mask_step_def listed_def split: option.splits)
    moreover have "probed g index t ?K False g"
      using probed_nothing [OF s tuned_refl [OF wf] refl maps] dom_short [OF d False mem nsel]
      by blast
    ultimately show ?thesis by blast
  next
    case True
    then have l: "partial_dist_map g (q @ [k]) = Some ?l"
      by (auto simp: listed_def split: option.splits)
    from search_domain [OF s d K] obtain ok l' g' where
      r: "single_search g index ?l t = Some (ok, l', g')" "tuned g index g'" "same_but_pairs g g'"
        "memo_ok g' index"
        "if ok then \<exists>p. hit g t index p g' \<and> dom_ok g' {index, p} ?K l'
         else t < scost g' index \<and> dom_ok g' {} ?K l' \<and>
           (\<forall>y \<in> ?K. \<not> sel g y \<and> y \<noteq> index \<longrightarrow> t < pair_cost g index y)" by blast
    let ?g = "g'\<lparr>partial_dist_map := (partial_dist_map g')(q @ [k] \<mapsto> l')\<rparr>"
    have "mask_step index t g (q @ [k]) = Some (ok, ?g)"
      unfolding mask_step_def using True l r(1) by simp
    moreover have f: "parity_map g' = parity_map g" "partial_dist_map g' = partial_dist_map g"
      "static_all_one g' = static_all_one g"
      using r(3) by (simp_all add: same_but_pairs_fields)
    have mo: "maps_ok ?g X" if "dom_ok g' X ?K l'" for X
    proof (rule maps_ok_step [OF maps _ wf])
      show "same_config g ?g" using r(2) by (simp add: tuned_def)
      show "\<not> sel g x" if "x < stripes_num g" "\<not> sel ?g x" for x
        using that tuned_sel [OF r(2)] by simp
      show "dom_ok ?g X (mask_keyed g k' q') (listed (partial_dist_map ?g) (q' @ [k']))"
        if "listed (partial_dist_map ?g) (q' @ [k']) \<noteq> listed (partial_dist_map g) (q' @ [k'])"
        for k' q'
      proof -
        have "q' = q \<and> k' = k" using that f by (auto simp: listed_upd split: if_splits)
        then show ?thesis using \<open>dom_ok g' X ?K l'\<close> by (simp add: listed_upd)
      qed
    qed (use f in simp_all)
    have "probed g index t ?K ok ?g"
      unfolding probed_def using r(2,4,5) mo by (auto split: if_splits)
    ultimately show ?thesis using f by auto
  qed
qed

lemma comb_loop_total:
  assumes "walk fuel a comb = Some cs" and "searchable g index t"
    and "\<forall>c \<in> set cs. 1 \<le> c \<and> c < 2 ^ rs_m (g_params g)" and "rs_m (g_params g) \<le> 7"
    and "pd = stripe_parity g index"
  shows "\<exists>ok g'. comb_loop index t pd a g comb = Some (ok, g') \<and>
    probed g index t (\<Union>c \<in> set cs. mask_keyed g (nat c) (project (nat c) pd)) ok g' \<and>
    static_all_one g' = static_all_one g"
  using assms
proof (induction fuel arbitrary: comb cs g)
  case 0
  then have "\<not> comb < a" "cs = []" by (auto split: if_splits)
  then have "comb_loop index t pd a g comb = Some (False, g)" by (simp add: comb_loop_unfold)
  moreover have "probed g index t {} False g"
    using probed_nothing [OF "0.prems"(2) tuned_refl refl] "0.prems"(2) by (simp add: searchable_def)
  ultimately show ?case using \<open>cs = []\<close> by auto
next
  case (Suc fuel)
  note s = Suc.prems(2)
  have wf: "wf_gen g" using s by (simp add: searchable_def)
  show ?case
  proof (cases "comb < a")
    case False
    then have "cs = []" using Suc.prems(1) by simp
    have "comb_loop index t pd a g comb = Some (False, g)"
      using False by (simp add: comb_loop_unfold)
    moreover have "probed g index t {} False g"
      using probed_nothing [OF s tuned_refl refl] s by (simp add: searchable_def)
    ultimately show ?thesis using \<open>cs = []\<close> by auto
  next
    case True
    then obtain c' cs' where w: "next_comb comb = Some c'" "walk fuel a c' = Some cs'"
      "cs = comb # cs'"
      using Suc.prems(1) by (auto simp: bind_eq_Some_conv)
    have c: "1 \<le> comb" "comb < 2 ^ rs_m (g_params g)" using Suc.prems(3) w(3) by simp_all
    let ?k = "nat comb" and ?q = "project (nat comb) pd"
    have kb: "?k < 2 ^ rs_m (g_params g)" using c by (simp add: nat_less_iff)
    also have "(2::nat) ^ rs_m (g_params g) \<le> 2 ^ 7"
      using Suc.prems(4) by (intro power_increasing) auto
    finally have w16: "wrap16 ?k = ?k" by (simp add: wrap_simps)
    have "index \<in> mask_keyed g ?k ?q"
      using s kb c Suc.prems(5) by (simp add: mask_keyed_def searchable_def)
    from mask_step_total [OF s this] obtain ok g1 where
      r: "mask_step index t g (?q @ [?k]) = Some (ok, g1)"
        "probed g index t (mask_keyed g ?k ?q) ok g1" "static_all_one g1 = static_all_one g" by blast
    show ?thesis
    proof (cases ok)
      case True
      then have "comb_loop index t pd a g comb = Some (True, g1)"
        using r(1) w(1) \<open>comb < a\<close> w16 by (subst comb_loop_unfold) simp
      with r True show ?thesis
        by (intro exI [of _ True] exI [of _ g1]) (simp add: probed_def)
    next
      case False
      have cfg: "same_config g g1" using r(2) by (simp add: probed_def tuned_def)
      note keyed = keyed_config [OF cfg wf]
      have "searchable g1 index t" using probed_searchable [OF s] r(2) False by simp
      moreover have "g_params g1 = g_params g" using same_config_length(4) [OF cfg] .
      moreover have "stripe_parity g1 index = pd"
        using same_config_nth(2) [OF cfg] wf_gen_length [OF wf] s Suc.prems(5)
        by (simp add: stripe_parity_def searchable_def)
      ultimately obtain ok' g2 where
        i: "comb_loop index t pd a g1 c' = Some (ok', g2)"
        "probed g1 index t (\<Union>c \<in> set cs'. mask_keyed g1 (nat c) (project (nat c) pd)) ok' g2"
        "static_all_one g2 = static_all_one g1"
        using Suc.IH [OF w(2), of g1] Suc.prems(3,4) w(3) by auto
      have "comb_loop index t pd a g comb = Some (ok', g2)"
        using r(1) w(1) \<open>comb < a\<close> w16 False i(1) by (subst comb_loop_unfold) simp
      moreover have "probed g index t (mask_keyed g ?k ?q \<union>
          (\<Union>c \<in> set cs'. mask_keyed g (nat c) (project (nat c) pd))) ok' g2"
        by (rule probed_trans [OF s _ i(2) [unfolded keyed]]) (use r(2) False keyed_bound in auto)
      ultimately show ?thesis using w(3) r(3) i(3) by auto
    qed
  qed
qed

section \<open>Searching the partner of one stripe\<close>

lemma mismatches_zip_sym: "length xs = length ys \<Longrightarrow> mismatches (zip xs ys) = mismatches (zip ys xs)"
  by (induction xs ys rule: list_induct2) auto

text \<open>The misaligned parity positions bound the cost of the pair from below.\<close>

lemma pair_mismatches_le:
  assumes "wf_gen g" and "x < stripes_num g" and "y < stripes_num g"
  shows "mismatches (zip (stripe_parity g x) (stripe_parity g y)) \<le> pair_cost g x y"
proof -
  have "length (stripe_parity g z) = rs_m (g_params g)" if "z < stripes_num g" for z
    using assms(1) that by (simp add: stripe_parity_def wf_gen_def wf_config_def valid_stripe_def)
  then have "mismatches (zip (stripe_parity g x) (stripe_parity g y)) =
      mismatches (parity_pairs (stripes g ! min x y) (stripes g ! max x y))"
    using assms mismatches_zip_sym [of "stripe_parity g x" "stripe_parity g y"]
    by (cases "x \<le> y") (simp_all add: parity_pairs_def stripe_parity_def min_def max_def)
  then show ?thesis using mismatches_le_cost by (simp add: pair_cost_def)
qed

lemma parity_length:
  "wf_gen g \<Longrightarrow> x < stripes_num g \<Longrightarrow> length (stripe_parity g x) = rs_m (g_params g)"
  by (simp add: stripe_parity_def wf_gen_def wf_config_def valid_stripe_def)

lemma search_zero_total:
  assumes s: "searchable g index 0"
  shows "\<exists>ok g'. search_aligned g index (stripe_parity g index) 0 = Some (ok, g') \<and>
    probed g index 0 {..<stripes_num g} ok g' \<and> static_all_one g' = static_all_one g"
proof -
  let ?pd = "stripe_parity g index"
  let ?K = "parity_keyed g ?pd" and ?l = "listed (parity_map g) ?pd"
  let ?g1 = "g\<lparr>parity_map := (parity_map g)(?pd \<mapsto> ?l)\<rparr>"
  have wf: "wf_gen g" and maps: "maps_ok g {}" and idx: "index < stripes_num g"
    and nsel: "\<not> sel g index" using s by (simp_all add: searchable_def)
  have t1: "tuned g index ?g1" using tuned_refl [OF wf] by simp
  have m1: "maps_ok ?g1 {}"
    by (rule maps_ok_step [OF maps _ wf]) (auto simp: listed_upd split: if_splits)
  have s1: "searchable ?g1 index 0" using s m1 by (simp add: searchable_def)
  have d: "dom_ok ?g1 {} ?K ?l" using maps by (simp add: maps_ok_def)
  have K: "?K \<subseteq> {..<stripes_num ?g1}" using keyed_bound by auto
  have all: "\<forall>y \<in> {..<stripes_num g}. \<not> sel g y \<and> y \<noteq> index \<longrightarrow> 0 < pair_cost g index y"
    if "\<forall>y \<in> ?K. \<not> sel g y \<and> y \<noteq> index \<longrightarrow> 0 < pair_cost g index y"
  proof (intro ballI impI)
    fix y assume y: "y \<in> {..<stripes_num g}" "\<not> sel g y \<and> y \<noteq> index"
    show "0 < pair_cost g index y"
    proof (cases "stripe_parity g y = ?pd")
      case True
      with y that show ?thesis by (simp add: parity_keyed_def)
    next
      case False
      have "length ?pd = length (stripe_parity g y)"
        using parity_length [OF wf] idx y by simp
      then have "0 < mismatches (zip ?pd (stripe_parity g y))"
        using mismatches_0_iff [of ?pd "stripe_parity g y"] False by auto
      with pair_mismatches_le [OF wf idx] y show ?thesis by fastforce
    qed
  qed
  show ?thesis
  proof (cases "1 < length ?l")
    case False
    have "index \<in> ?K" using idx by (simp add: parity_keyed_def)
    with dom_short [OF d False] nsel all have "probed g index 0 {..<stripes_num g} False ?g1"
      by (intro probed_nothing [OF s t1 _ m1]) simp_all
    with False show ?thesis by (auto simp: search_aligned_def)
  next
    case True
    from search_domain [OF s1 d K] obtain ok l' g' where
      r: "single_search ?g1 index ?l 0 = Some (ok, l', g')" "tuned ?g1 index g'"
        "same_but_pairs ?g1 g'" "memo_ok g' index"
        "if ok then \<exists>p. hit ?g1 0 index p g' \<and> dom_ok g' {index, p} ?K l'
         else 0 < scost g' index \<and> dom_ok g' {} ?K l' \<and>
           (\<forall>y \<in> ?K. \<not> sel ?g1 y \<and> y \<noteq> index \<longrightarrow> 0 < pair_cost ?g1 index y)" by blast
    let ?g = "g'\<lparr>parity_map := (parity_map g')(?pd \<mapsto> l')\<rparr>"
    have f: "parity_map g' = parity_map ?g1" "partial_dist_map g' = partial_dist_map g"
      "static_all_one g' = static_all_one g"
      using r(3) by (simp_all add: same_but_pairs_fields)
    have t2: "tuned g index g'" using tuned_trans [OF t1 r(2)] .
    have mo: "maps_ok ?g X" if "dom_ok g' X ?K l'" for X
    proof (rule maps_ok_step [OF maps _ wf])
      show "same_config g ?g" using t2 by (simp add: tuned_def)
      show "\<not> sel g x" if "x < stripes_num g" "\<not> sel ?g x" for x
        using that tuned_sel [OF t2] by simp
      show "dom_ok ?g X (parity_keyed g q) (listed (parity_map ?g) q)"
        if "listed (parity_map ?g) q \<noteq> listed (parity_map g) q" for q
      proof -
        have "q = ?pd" using that f by (auto simp: listed_upd split: if_splits)
        then show ?thesis using \<open>dom_ok g' X ?K l'\<close> by (simp add: listed_upd)
      qed
    qed (use f in simp_all)
    have "probed g index 0 {..<stripes_num g} ok ?g"
      unfolding probed_def using t2 r(4,5) mo all by (auto simp: hit_def split: if_splits)
    with True r(1) f show ?thesis by (auto simp: search_aligned_def Let_def)
  qed
qed

definition static_ok :: "generator \<Rightarrow> bool" where
  "static_ok g \<longleftrightarrow> static_all_one g \<in> {None, Some (2 ^ rs_m (g_params g) - 1)}"

lemma init_all_one_ok:
  assumes "static_ok g" and "rs_m (g_params g) \<le> 7"
  shows "init_all_one g = Some (2 ^ rs_m (g_params g) - 1)"
proof -
  have "(2::nat) ^ rs_m (g_params g) \<le> 2 ^ 7" using assms(2) by (intro power_increasing) auto
  with assms show ?thesis by (auto simp: static_ok_def init_all_one_def wrap_simps)
qed

lemma search_for_matching_total:
  assumes s: "searchable g index t" and t: "t < rs_m (g_params g)" and m: "rs_m (g_params g) \<le> 7"
    and st: "static_ok g"
  shows "\<exists>ok g'. search_for_matching g index t = Some (ok, g') \<and>
    probed g index t {..<stripes_num g} ok g' \<and> static_ok g'"
proof -
  let ?m = "rs_m (g_params g)" and ?pd = "stripe_parity g index"
  let ?g = "g\<lparr>static_all_one := Some (2 ^ ?m - 1)\<rparr>"
  have wf: "wf_gen g" and idx: "index < stripes_num g" using s by (simp_all add: searchable_def)
  have len: "index < length (stripes g)" using idx wf_gen_length [OF wf] by simp
  have s1: "searchable ?g index t" using s by (simp add: searchable_def)
  have pd: "stripe_parity ?g index = ?pd" by (simp add: stripe_parity_def)
  have g1: "probed g index t K ok g'" if "probed ?g index t K ok g'" for K ok g'
    using that by (cases ok) (auto simp: probed_def tuned_def hit_def same_config_def places_def)
  have fin: "static_ok g'" if "probed g index t K ok g'" "static_all_one g' = static_all_one ?g" for K ok g'
    using that same_config_length(4) [of g g'] by (simp add: static_ok_def probed_def tuned_def)
  show ?thesis
  proof (cases "t = 0")
    case True
    from search_zero_total [OF s1 [unfolded True]] obtain ok g' where
      r: "search_aligned ?g index ?pd 0 = Some (ok, g')"
      "probed ?g index 0 {..<stripes_num g} ok g'" "static_all_one g' = static_all_one ?g"
      unfolding pd by auto
    have "search_for_matching g index t = Some (ok, g')"
      using r(1) len True
      by (simp add: search_for_matching_def init_all_one_ok [OF st m] Let_def stripe_parity_def)
    with g1 r(2,3) fin True show ?thesis by blast
  next
    case False
    then have t1: "1 \<le> t" by simp
    let ?cs = "filter (\<lambda>s. popcount s = int (?m - t)) [1..2 ^ ?m - 2]"
    have w: "walk 64 (all_ones ?m) (first_comb ?m t) = Some ?cs" using comb_walk [OF t1 t m] .
    have a: "int (2 ^ ?m - 1) = all_ones ?m" by (simp add: of_nat_diff)
    have "\<forall>c \<in> set ?cs. 1 \<le> c \<and> c < 2 ^ rs_m (g_params ?g)" by auto
    from comb_loop_total [OF w s1 this _ refl] m obtain ok g' where
      r: "comb_loop index t ?pd (all_ones ?m) ?g (first_comb ?m t) = Some (ok, g')"
        "probed ?g index t (\<Union>c \<in> set ?cs. mask_keyed ?g (nat c) (project (nat c) ?pd)) ok g'"
        "static_all_one g' = static_all_one ?g"
      unfolding pd by auto
    have "search_for_matching g index t = Some (ok, g')"
      using r(1) len False t m a by (simp add: search_for_matching_def init_all_one_ok [OF st m] Let_def
          stripe_parity_def)
    moreover have "probed g index t {..<stripes_num g} ok g'"
    proof -
      have "t < pair_cost g index y" if y: "y < stripes_num g" "\<not> sel g y" "y \<noteq> index"
        and all: "\<forall>y \<in> (\<Union>c \<in> set ?cs. mask_keyed g (nat c) (project (nat c) ?pd)).
          \<not> sel g y \<and> y \<noteq> index \<longrightarrow> t < pair_cost g index y" for y
      proof (rule ccontr)
        assume "\<not> t < pair_cost g index y"
        with pair_mismatches_le [OF wf idx y(1)]
        have "mismatches (zip ?pd (stripe_parity g y)) \<le> t" by linarith
        from walk_finds_pair [OF t1 t m _ _ this w] parity_length [OF wf] idx y(1) obtain k where
          k: "int k \<in> set ?cs" "1 \<le> k" "k < 2 ^ ?m" "project k ?pd = project k (stripe_parity g y)"
          by auto
        then have "y \<in> mask_keyed g (nat (int k)) (project (nat (int k)) ?pd)"
          using y(1) by (simp add: mask_keyed_def)
        with all k(1) y show False using \<open>\<not> t < pair_cost g index y\<close> by blast
      qed
      then show ?thesis using g1 [OF r(2)] by (auto simp: probed_def)
    qed
    ultimately show ?thesis using fin r(3) by blast
  qed
qed

section \<open>The invariant of the search\<close>

text \<open>No two stripes could both be better off together.\<close>

definition stable_pairs :: "generator \<Rightarrow> bool" where
  "stable_pairs g \<longleftrightarrow> (\<forall>i j. i < stripes_num g \<and> j < stripes_num g \<and> i \<noteq> j \<longrightarrow>
     \<not> sel g i \<and> \<not> sel g j \<or> sel g i \<and> scost g i \<le> pair_cost g i j \<or>
     sel g j \<and> scost g j \<le> pair_cost g i j)"

text \<open>The pairs worth another look (\<open>none_zero_candidate\<close>), and the free pairs (\<open>zero_map\<close>).\<close>

definition cands_ok :: "generator \<Rightarrow> nat list \<Rightarrow> bool" where
  "cands_ok g cs \<longleftrightarrow> distinct cs \<and> (\<forall>i \<in> set cs. i < stripes_num g \<and> sel g i \<and>
     scost g i \<noteq> 0 \<and> stripe_parity g i = stripe_parity g (mate g i) \<and> mate g i \<notin> set cs)"

definition zeros_ok :: "generator \<Rightarrow> bool" where
  "zeros_ok g \<longleftrightarrow> (\<forall>q. \<forall>i \<in> set (listed (zero_map g) q). i < stripes_num g \<and> sel g i \<and>
     scost g i = 0 \<and> stripe_parity g i = q)"

text \<open>
  At level \<open>c\<close>, after the stripes \<open>P\<close> have been looked at: no free pair is cheaper than \<open>c\<close>,
  and one with a member in \<open>P\<close> is dearer.
\<close>

definition level_ok :: "generator \<Rightarrow> nat \<Rightarrow> nat set \<Rightarrow> bool" where
  "level_ok g c P \<longleftrightarrow>
     (\<forall>x < stripes_num g. \<not> sel g x \<longrightarrow> memo_ok g x \<and> c \<le> scost g x \<and> (x \<in> P \<longrightarrow> c < scost g x)) \<and>
     (\<forall>x < stripes_num g. \<forall>y < stripes_num g. \<not> sel g x \<and> \<not> sel g y \<and> x \<noteq> y \<longrightarrow>
        c \<le> pair_cost g x y \<and> (x \<in> P \<longrightarrow> c < pair_cost g x y))"

definition search_inv :: "generator \<Rightarrow> nat \<Rightarrow> nat set \<Rightarrow> nat set \<Rightarrow> generator \<Rightarrow> bool" where
  "search_inv g0 c P X g \<longleftrightarrow> wf_gen g \<and> same_config g0 g \<and> blocks_to_sent g = blocks_to_sent g0 \<and>
     matching_ok g \<and> static_ok g \<and> maps_ok g X \<and> stable_pairs g \<and> cands_ok g (none_zero_candidate g) \<and>
     zeros_ok g \<and> level_ok g c P"

lemma search_invD:
  assumes "search_inv g0 c P X g"
  shows "wf_gen g" "same_config g0 g" "matching_ok g" "static_ok g" "maps_ok g X" "stable_pairs g"
    "cands_ok g (none_zero_candidate g)" "zeros_ok g" "level_ok g c P"
    "blocks_to_sent g = blocks_to_sent g0"
  using assms by (simp_all add: search_inv_def)

lemma search_inv_params: "search_inv g0 c P X g \<Longrightarrow> g_params g = g_params g0"
  by (rule same_config_length(4) [OF search_invD(2)])

lemma stripe_parity_config:
  "same_config g g' \<Longrightarrow> wf_gen g \<Longrightarrow> x < stripes_num g \<Longrightarrow> stripe_parity g' x = stripe_parity g x"
  by (simp add: stripe_parity_def same_config_nth wf_gen_length)

text \<open>A search that touches only the free stripe \<open>x\<close> keeps the invariant.\<close>

lemma tuned_mated:
  assumes "tuned g x g'" and "wf_gen g" and "\<not> sel g x" and "mated g i j"
  shows "mated g' i j"
proof -
  have "i \<noteq> x" "j \<noteq> x" using assms(3,4) by (auto simp: mated_def)
  with assms tuned_other [OF assms(1)] tuned_num [OF assms(1)] tuned_pair_cost [OF assms(1,2)]
  show ?thesis by (simp add: mated_def)
qed

lemma tuned_level:
  assumes t: "tuned g x g'" and wf: "wf_gen g" and nsel: "\<not> sel g x" and l: "level_ok g c P"
    and m: "memo_ok g' x" "c \<le> scost g' x" "x \<in> P \<longrightarrow> c < scost g' x"
  shows "level_ok g' c P"
proof -
  note n = tuned_num [OF t] and pc = tuned_pair_cost [OF t wf] and s = tuned_sel [OF t]
    and o = tuned_other [OF t]
  have "memo_ok g' y \<and> c \<le> scost g' y \<and> (y \<in> P \<longrightarrow> c < scost g' y)"
    if "y < stripes_num g" "\<not> sel g' y" for y
  proof (cases "y = x")
    case False
    then have "memo_ok g y \<Longrightarrow> memo_ok g' y" using o that n pc by (auto simp: memo_ok_def)
    with False l that s o show ?thesis by (simp add: level_ok_def)
  qed (use m in simp)
  moreover have "c \<le> pair_cost g' y z \<and> (y \<in> P \<longrightarrow> c < pair_cost g' y z)"
    if "y < stripes_num g" "z < stripes_num g" "\<not> sel g' y" "\<not> sel g' z" "y \<noteq> z" for y z
    using l that s pc by (simp add: level_ok_def)
  ultimately show ?thesis unfolding level_ok_def n by blast
qed

lemma tuned_inv:
  assumes inv: "search_inv g0 c P X g" and t: "tuned g x g'" and nsel: "\<not> sel g x"
    and m: "maps_ok g' X'" "static_ok g'" and l: "level_ok g' c P'"
  shows "search_inv g0 c P' X' g'"
proof -
  note D = search_invD [OF inv]
  note n = tuned_num [OF t] and pc = tuned_pair_cost [OF t D(1)] and s = tuned_sel [OF t]
    and o = tuned_other [OF t]
  have cfg: "same_config g g'" using t by (simp add: tuned_def)
  note sp = stripe_parity_config [OF cfg D(1)]
  have keep: "stripes g' ! i = stripes g ! i" if "i < stripes_num g" "sel g i" for i
    using o that nsel by metis
  have "matching_ok g'"
    using D(3) s keep n tuned_mated [OF t D(1) nsel] by (simp add: matching_ok_def)
  moreover have "stable_pairs g'"
    unfolding stable_pairs_def n
  proof (intro allI impI)
    fix i j assume ij: "i < stripes_num g \<and> j < stripes_num g \<and> i \<noteq> j"
    with D(6) have "\<not> sel g i \<and> \<not> sel g j \<or> sel g i \<and> scost g i \<le> pair_cost g i j \<or>
      sel g j \<and> scost g j \<le> pair_cost g i j" by (simp add: stable_pairs_def)
    with ij s keep pc show "\<not> sel g' i \<and> \<not> sel g' j \<or> sel g' i \<and> scost g' i \<le> pair_cost g' i j \<or>
      sel g' j \<and> scost g' j \<le> pair_cost g' i j" by metis
  qed
  moreover have "cands_ok g' (none_zero_candidate g')"
  proof -
    have "stripe_parity g' i = stripe_parity g' (mate g' i) \<and> mate g' i \<notin> set (none_zero_candidate g)
        \<and> sel g' i \<and> scost g' i \<noteq> 0"
      if "i \<in> set (none_zero_candidate g)" for i
    proof -
      have i: "i < stripes_num g" "sel g i" "scost g i \<noteq> 0"
        "stripe_parity g i = stripe_parity g (mate g i)" "mate g i \<notin> set (none_zero_candidate g)"
        using D(7) that by (simp_all add: cands_ok_def)
      moreover have "mate g i < stripes_num g"
        using matching_okD [OF D(3)] i by (simp add: mated_def)
      ultimately show ?thesis using keep [OF i(1,2)] sp s by simp
    qed
    then show ?thesis using D(7) n t by (simp add: cands_ok_def tuned_def)
  qed
  moreover have "zeros_ok g'"
    using D(8) keep sp n s t by (simp add: zeros_ok_def tuned_def)
  moreover have "same_config g0 g'" using same_config_trans [OF D(2) cfg] .
  ultimately show ?thesis
    using m l t D(10) unfolding search_inv_def by (simp add: tuned_def)
qed

text \<open>Taking the pair the search has found.\<close>

lemma listed_zero_push: "listed (zero_push m pd i) q = (if q = pd then i # listed m pd else listed m q)"
  by (auto simp: listed_def zero_push_def split: option.splits)

lemma paired_parity:
  assumes "wf_gen g" "i < stripes_num g" "j < stripes_num g" "i \<noteq> j" "x < stripes_num g"
  shows "stripe_parity (paired i j c fl g) x = stripe_parity g x"
  using stripe_parity_config [OF paired_config assms(1,5)] assms by (simp add: wf_gen_length)

lemma maps_ok_paired:
  assumes wf: "wf_gen g" and ij: "i < stripes_num g" "j < stripes_num g" "i \<noteq> j"
    and m: "maps_ok g {i, j}"
  shows "maps_ok (paired i j c fl g) {}"
proof -
  have cfg: "same_config g (paired i j c fl g)"
    using ij by (intro paired_config) (simp_all add: wf_gen_length [OF wf])
  have "dom_ok (paired i j c fl g) {} K l" if "dom_ok g {i, j} K l" for K l
    using that by (auto simp: dom_ok_def paired_nth [OF wf ij])
  with m show ?thesis by (simp add: maps_ok_def keyed_config [OF cfg wf])
qed

lemma stable_paired:
  assumes wf: "wf_gen g" and ij: "i < stripes_num g" "j < stripes_num g" "i \<noteq> j"
    and free: "\<not> sel g i" "\<not> sel g j" and st: "stable_pairs g"
    and low: "\<And>x y. x < stripes_num g \<Longrightarrow> y < stripes_num g \<Longrightarrow> x \<noteq> y \<Longrightarrow> \<not> sel g x \<Longrightarrow> \<not> sel g y \<Longrightarrow>
      c \<le> pair_cost g x y"
  shows "stable_pairs (paired i j c fl g)"
  unfolding stable_pairs_def
proof (intro allI impI)
  let ?g = "paired i j c fl g"
  fix x y assume "x < stripes_num ?g \<and> y < stripes_num ?g \<and> x \<noteq> y"
  then have xy: "x < stripes_num g" "y < stripes_num g" "x \<noteq> y" by simp_all
  have pc: "pair_cost ?g x y = pair_cost g x y" using paired_pair_cost [OF wf ij xy(1,2)] .
  consider "\<not> sel g x" "\<not> sel g y" | "sel g x" "scost g x \<le> pair_cost g x y"
    | "sel g y" "scost g y \<le> pair_cost g x y" using st xy by (auto simp: stable_pairs_def)
  then show "\<not> sel ?g x \<and> \<not> sel ?g y \<or> sel ?g x \<and> scost ?g x \<le> pair_cost ?g x y \<or>
      sel ?g y \<and> scost ?g y \<le> pair_cost ?g x y"
  proof cases
    case 1
    then show ?thesis using low [OF xy 1] by (simp add: pc paired_nth [OF wf ij])
  next
    case 2
    with free have "x \<noteq> i" "x \<noteq> j" by auto
    with 2 show ?thesis by (simp add: pc paired_nth [OF wf ij])
  next
    case 3
    with free have "y \<noteq> i" "y \<noteq> j" by auto
    with 3 show ?thesis by (simp add: pc paired_nth [OF wf ij])
  qed
qed

lemma level_paired:
  assumes wf: "wf_gen g" and ij: "i < stripes_num g" "j < stripes_num g" "i \<noteq> j"
    and l: "level_ok g c P"
  shows "level_ok (paired i j c fl g) c (insert i P)"
proof -
  have "memo_ok (paired i j c fl g) x = memo_ok g x"
    if "x < stripes_num g" "x \<noteq> i" "x \<noteq> j" for x
    using that paired_pair_cost [OF wf ij] by (auto simp: memo_ok_def paired_nth [OF wf ij])
  with l show ?thesis
    by (auto simp: level_ok_def paired_nth [OF wf ij] paired_pair_cost [OF wf ij])
qed

lemma cands_paired:
  assumes wf: "wf_gen g" and ij: "i < stripes_num g" "j < stripes_num g" "i \<noteq> j"
    and free: "\<not> sel g i" "\<not> sel g j" and ok: "matching_ok g" and cs: "cands_ok g (none_zero_candidate g)"
  shows "cands_ok (paired i j c fl g) (none_zero_candidate (paired i j c fl g))"
proof -
  let ?g = "paired i j c fl g" and ?cs = "none_zero_candidate g"
  have old: "x \<noteq> i \<and> x \<noteq> j \<and> mate g x \<noteq> i \<and> mate g x \<noteq> j \<and> mate g x < stripes_num g"
    if "x \<in> set ?cs" for x
    using that cs free matching_okD [OF ok] by (auto simp: cands_ok_def mated_def)
  have base: "cands_ok ?g ?cs"
    using cs old by (auto simp: cands_ok_def paired_nth [OF wf ij] paired_parity [OF wf ij])
  have nin: "i \<notin> set ?cs" "j \<notin> set ?cs" using old by auto
  have "cands_ok ?g (?cs @ [i])" if "c \<noteq> 0" "stripe_parity g i = stripe_parity g j"
    using base nin old that ij
    by (auto simp: cands_ok_def paired_nth [OF wf ij] paired_parity [OF wf ij])
  moreover have "stripe_parity g x = parity_dist (pair_up c i j (stripes g) ! x)" if "x < stripes_num g" for x
    using paired_parity [OF wf ij that] by (simp add: stripe_parity_def paired_stripes)
  ultimately show ?thesis
    using base ij by (auto simp: paired_def record_pair_def)
qed

lemma zeros_paired:
  assumes wf: "wf_gen g" and ij: "i < stripes_num g" "j < stripes_num g" "i \<noteq> j"
    and z: "zeros_ok g" and old: "\<And>x. x < stripes_num g \<Longrightarrow> x \<in> {i, j} \<Longrightarrow> c = 0 \<or> \<not> sel g x"
  shows "zeros_ok (paired i j c fl g)"
proof -
  let ?g = "paired i j c fl g"
  have base: "x < stripes_num g \<and> sel ?g x \<and> scost ?g x = 0 \<and> stripe_parity ?g x = q"
    if "x \<in> set (listed (zero_map g) q)" for x q
  proof -
    have x: "x < stripes_num g" "sel g x" "scost g x = 0" "stripe_parity g x = q"
      using z that by (auto simp: zeros_ok_def)
    with old [of x] show ?thesis
      by (auto simp: paired_nth [OF wf ij] paired_parity [OF wf ij])
  qed
  have new: "i < stripes_num g \<and> sel ?g i \<and> scost ?g i = 0" if "c = 0"
    using that ij by (simp add: paired_nth [OF wf ij])
  have pd: "stripe_parity ?g i = parity_dist (pair_up c i j (stripes g) ! i)"
    by (simp add: stripe_parity_def paired_stripes)
  have "zero_map ?g = (if fl \<and> c = 0 then zero_push (zero_map g) (stripe_parity ?g i) i else zero_map g)"
    unfolding pd by (simp add: paired_def record_pair_def)
  with base new show ?thesis
    by (auto simp: zeros_ok_def listed_zero_push)
qed

lemma paired_inv:
  assumes inv: "search_inv g0 c P {i, j} g"
    and ij: "i < stripes_num g" "j < stripes_num g" "i \<noteq> j"
    and free: "\<not> sel g i" "\<not> sel g j" and c: "c = pair_cost g i j"
  shows "search_inv g0 c (insert i P) {} (paired i j c True g)"
proof -
  note D = search_invD [OF inv]
  have cfg: "same_config g (paired i j c True g)"
    using ij by (intro paired_config) (simp_all add: wf_gen_length [OF D(1)])
  have low: "c \<le> pair_cost g x y"
    if "x < stripes_num g" "y < stripes_num g" "x \<noteq> y" "\<not> sel g x" "\<not> sel g y" for x y
    using D(9) that by (simp add: level_ok_def)
  show ?thesis
    unfolding search_inv_def
  proof (intro conjI)
    show "stable_pairs (paired i j c True g)" by (rule stable_paired [OF D(1) ij free D(6) low])
    show "zeros_ok (paired i j c True g)" using free by (intro zeros_paired [OF D(1) ij D(8)]) auto
  qed (use D ij free c cfg paired_wf [OF D(1) ij] same_config_trans [OF D(2) cfg]
      matching_ok_paired [OF D(1,3) ij free c] maps_ok_paired [OF D(1) ij D(5)]
      cands_paired [OF D(1) ij free D(3,7)] level_paired [OF D(1) ij D(9)]
    in \<open>simp_all add: static_ok_def\<close>)
qed

section \<open>One level of the search\<close>

definition onward :: "generator \<Rightarrow> generator \<Rightarrow> bool" where
  "onward g g' \<longleftrightarrow> remaining_stripes g' = remaining_stripes g \<and> stripes_num g' = stripes_num g \<and>
     (\<forall>x < stripes_num g. sel g x \<longrightarrow> sel g' x)"

lemma onward_trans: "onward g g' \<Longrightarrow> onward g' g'' \<Longrightarrow> onward g g''"
  by (simp add: onward_def)

lemma onward_tuned: "tuned g x g' \<Longrightarrow> onward g g'"
  by (simp add: onward_def tuned_def same_config_length)

lemma onward_paired:
  "wf_gen g \<Longrightarrow> i < stripes_num g \<Longrightarrow> j < stripes_num g \<Longrightarrow> i \<noteq> j \<Longrightarrow> onward g (paired i j c fl g)"
  by (simp add: onward_def paired_nth)

lemma dom_ok_mono: "dom_ok g {} K l \<Longrightarrow> dom_ok g X K l"
  by (auto simp: dom_ok_def)

lemma maps_ok_mono: "maps_ok g {} \<Longrightarrow> maps_ok g X"
  by (simp add: maps_ok_def dom_ok_mono)

lemma search_inv_except: "search_inv g0 c P {} g \<Longrightarrow> search_inv g0 c P X g"
  using maps_ok_mono by (auto simp: search_inv_def)

lemma level_insert_sel: "level_ok g c P \<Longrightarrow> sel g x \<Longrightarrow> level_ok g c (insert x P)"
  by (auto simp: level_ok_def)

lemma take_found:
  assumes inv: "search_inv g0 c P {x, p} g" and x: "x < stripes_num g" "\<not> sel g x"
    and p: "p < stripes_num g" "p \<noteq> x" "\<not> sel g p" "pair_cost g x p = c"
    and m: "mate g x = p" "scost g x = c"
  shows "\<exists>g'. do { s1 \<leftarrow> aget (stripes g) x;
       mark_matched g x (matching_index s1) (cur_cost s1) True } = Some g' \<and>
    search_inv g0 c (insert x P) {} g' \<and> onward g g' \<and> sel g' x"
proof -
  note wf = search_invD(1) [OF inv]
  have "x \<noteq> p" using p(2) by simp
  note xp = x(1) p(1) this
  have "do { s1 \<leftarrow> aget (stripes g) x;
       mark_matched g x (matching_index s1) (cur_cost s1) True } = Some (paired x p c True g)"
    using mark_matched_paired [OF wf xp] m x(1) wf_gen_length [OF wf] by simp
  moreover have "search_inv g0 c (insert x P) {} (paired x p c True g)"
    using paired_inv [OF inv xp x(2) p(3)] p(4) by simp
  ultimately show ?thesis
    using onward_paired [OF wf xp] paired_nth(1) [OF wf xp] by simp
qed

definition step_ok :: "generator \<Rightarrow> nat \<Rightarrow> nat set \<Rightarrow> generator \<Rightarrow> nat list \<Rightarrow> nat \<Rightarrow> generator \<times> nat list \<Rightarrow> bool" where
  "step_ok g0 c P g del x st \<longleftrightarrow> (case st of (g', del') \<Rightarrow> search_inv g0 c P {} g' \<and> onward g g' \<and>
     (del' = del \<or> del' = del @ [x] \<and> sel g' x))"

lemma search_and_mark:
  assumes inv: "search_inv g0 c P {} g" and s: "searchable g x c"
    and c: "c < rs_m (g_params g)" "rs_m (g_params g) \<le> 7" and x: "x \<notin> P"
  shows "\<exists>st. do { r \<leftarrow> search_for_matching g x c; mark_found x del r } = Some st \<and>
    step_ok g0 c (insert x P) g del x st"
proof -
  note D = search_invD [OF inv]
  have xs: "x < stripes_num g" "\<not> sel g x" using s by (simp_all add: searchable_def)
  from search_for_matching_total [OF s c D(4)] obtain ok g' where
    r: "search_for_matching g x c = Some (ok, g')" "probed g x c {..<stripes_num g} ok g'"
      "static_ok g'" by blast
  have t: "tuned g x g'" and mo: "memo_ok g' x" using r(2) by (simp_all add: probed_def)
  note n = tuned_num [OF t] and pc = tuned_pair_cost [OF t D(1)] and se = tuned_sel [OF t]
  show ?thesis
  proof (cases ok)
    case True
    with r(2) obtain p where p: "hit g c x p g'" "maps_ok g' {x, p}" by (auto simp: probed_def)
    then have "level_ok g' c P"
      using x by (intro tuned_level [OF t D(1) xs(2) D(9) mo]) (simp_all add: hit_def)
    from tuned_inv [OF inv t xs(2) p(2) r(3) this] have i: "search_inv g0 c P {x, p} g'" .
    have "x < stripes_num g'" "\<not> sel g' x" "p < stripes_num g'" "p \<noteq> x" "\<not> sel g' p"
      "pair_cost g' x p = c" "mate g' x = p" "scost g' x = c"
      using p(1) xs n pc se by (simp_all add: hit_def)
    from take_found [OF i this] obtain g2 where
      g2: "do { s1 \<leftarrow> aget (stripes g') x;
          mark_matched g' x (matching_index s1) (cur_cost s1) True } = Some g2"
        "search_inv g0 c (insert x P) {} g2" "onward g' g2" "sel g2 x" by blast
    have "mark_found x del (ok, g') = Some (g2, del @ [x])"
      using g2(1) True by (auto simp: mark_found_def bind_eq_Some_conv)
    with r(1) g2 onward_trans [OF onward_tuned [OF t] g2(3)] show ?thesis
      by (simp add: step_ok_def)
  next
    case False
    with r(2) have f: "c < scost g' x" "maps_ok g' {}"
      "\<And>y. y < stripes_num g \<Longrightarrow> \<not> sel g y \<Longrightarrow> y \<noteq> x \<Longrightarrow> c < pair_cost g x y"
      by (auto simp: probed_def)
    have "level_ok g' c P"
      using x f by (intro tuned_level [OF t D(1) xs(2) D(9) mo]) simp_all
    then have "level_ok g' c (insert x P)"
      using f(1,3) xs(1) n pc se by (auto simp: level_ok_def)
    from tuned_inv [OF inv t xs(2) f(2) r(3) this]
    have "search_inv g0 c (insert x P) {} g'" .
    moreover have "mark_found x del (ok, g') = Some (g', del)" using False by (simp add: mark_found_def)
    ultimately show ?thesis
      using r(1) onward_tuned [OF t] by (simp add: step_ok_def)
  qed
qed

lemma set_memo_level:
  assumes wf: "wf_gen g" and x: "x < stripes_num g" "x \<notin> P" and l: "level_ok g c P" and c: "c < u8_max"
  shows "level_ok (set_memo g x u8_max u32_max) c P"
proof -
  let ?g = "set_memo g x u8_max u32_max"
  note len = x(1) [folded wf_gen_length [OF wf]]
  have "pair_cost ?g y z = pair_cost g y z" if "y < stripes_num g" "z < stripes_num g" for y z
    using tuned_pair_cost [OF set_memo_tuned [OF wf x(1)] wf that] .
  moreover have "memo_ok ?g x" using set_memo_nth [OF len] by (simp add: memo_ok_def)
  moreover have "memo_ok ?g y" if "memo_ok g y" "y \<noteq> x" "y < stripes_num g" for y
    using that set_memo_nth(4) [OF len] calculation(1) by (auto simp: memo_ok_def)
  ultimately show ?thesis
    using l x c set_memo_nth [OF len] unfolding level_ok_def set_memo_fields
    by (metis less_imp_le_nat)
qed

lemma search_step_total:
  assumes inv: "search_inv g0 c P {} g" and x: "x < stripes_num g" "x \<notin> P"
    and c: "c < rs_m (g_params g)" "rs_m (g_params g) \<le> 7"
  shows "\<exists>st. search_step c (g, del) x = Some st \<and> step_ok g0 c (insert x P) g del x st"
proof (cases "sel g x")
  case True
  then have "search_step c (g, del) x = Some (g, del @ [x])"
    using x wf_gen_length [OF search_invD(1) [OF inv]] by (simp add: search_step_def)
  moreover have "search_inv g0 c (insert x P) {} g"
    using inv level_insert_sel True by (auto simp: search_inv_def)
  ultimately show ?thesis using True by (simp add: step_ok_def onward_def)
next
  case nsel: False
  note D = search_invD [OF inv]
  note len = wf_gen_length [OF D(1)]
  have mo: "memo_ok g x" "c \<le> scost g x" using D(9) x nsel by (simp_all add: level_ok_def)
  have low: "\<forall>y < stripes_num g. \<not> sel g y \<and> y \<noteq> x \<longrightarrow> c \<le> pair_cost g x y"
    using D(9) x nsel by (auto simp: level_ok_def)
  have c255: "c < u8_max" using c by simp
  show ?thesis
  proof (cases "scost g x = c")
    case False
    then have "searchable g x c" using D mo low x nsel by (simp add: searchable_def)
    from search_and_mark [OF inv this c x(2)] obtain st where
      "do { r \<leftarrow> search_for_matching g x c; mark_found x del r } = Some st"
      "step_ok g0 c (insert x P) g del x st" by blast
    then show ?thesis using False nsel x len by (simp add: search_step_def)
  next
    case True
    with mo c255 have m: "mate g x < stripes_num g" "mate g x \<noteq> x" "pair_cost g x (mate g x) = c"
      by (auto simp: memo_ok_def)
    show ?thesis
    proof (cases "sel g (mate g x)")
      case False
      from take_found [OF search_inv_except [OF inv] x(1) nsel m(1,2) False m(3) refl True]
      obtain g2 where
        g2: "do { s1 \<leftarrow> aget (stripes g) x;
            mark_matched g x (matching_index s1) (cur_cost s1) True } = Some g2"
          "search_inv g0 c (insert x P) {} g2" "onward g g2" "sel g2 x" by blast
      have "search_step c (g, del) x = Some (g2, del @ [x])"
        using g2(1) True False nsel x m len by (simp add: search_step_def mark_found_def)
      with g2 show ?thesis by (simp add: step_ok_def)
    next
      case ms: True
      let ?g = "set_memo g x u8_max u32_max"
      note t = set_memo_tuned [OF D(1) x(1), of u8_max u32_max]
      have nth: "\<not> sel ?g x" "mate ?g x = u32_max" "scost ?g x = u8_max"
        using set_memo_nth [of x g] nsel x len by simp_all
      have ml: "maps_ok ?g {}"
        by (rule maps_ok_step [OF D(5) set_memo_config D(1)]) (use tuned_sel [OF t] in auto)
      have i: "search_inv g0 c P {} ?g"
        using D(4) set_memo_level [OF D(1) x D(9) c255]
        by (intro tuned_inv [OF inv t nsel ml]) (simp_all add: static_ok_def)
      have "\<forall>y < stripes_num ?g. \<not> sel ?g y \<and> y \<noteq> x \<longrightarrow> c \<le> pair_cost ?g x y"
        using low tuned_pair_cost [OF t D(1) x(1)] tuned_sel [OF t] by simp
      then have "searchable ?g x c"
        using search_invD [OF i] nth x c255 by (simp add: searchable_def memo_ok_def)
      from search_and_mark [OF i this _ _ x(2), of del, unfolded set_memo_fields, OF c] obtain st where
        st: "do { r \<leftarrow> search_for_matching ?g x c; mark_found x del r } = Some st"
          "step_ok g0 c (insert x P) ?g del x st" by blast
      obtain h where "upd_stripe g x (\<lambda>s. s\<lparr>matching_index := u32_max\<rparr>) = Some h"
        "upd_stripe h x (\<lambda>s. s\<lparr>cur_cost := u8_max\<rparr>) = Some ?g"
        using set_memo_upd(2) [of x g] x len by auto
      then have "search_step c (g, del) x = Some st"
        using st(1) True ms nsel x m len by (simp add: search_step_def)
      with st(2) onward_trans [OF onward_tuned [OF t]] show ?thesis
        by (auto simp: step_ok_def)
    qed
  qed
qed

text \<open>After a whole pass every free pair costs more than the level.\<close>

lemma level_Suc:
  assumes "level_ok g c P" and "\<And>x. x < stripes_num g \<Longrightarrow> \<not> sel g x \<Longrightarrow> x \<in> P"
  shows "level_ok g (Suc c) {}"
  using assms unfolding level_ok_def by (auto simp: Suc_le_eq)

definition remaining_ok :: "generator \<Rightarrow> bool" where
  "remaining_ok g \<longleftrightarrow> distinct (remaining_stripes g) \<and> set (remaining_stripes g) \<subseteq> {..<stripes_num g} \<and>
     free_stripes g \<subseteq> set (remaining_stripes g)"

lemma search_inv_remaining:
  "search_inv g0 c P X (g\<lparr>remaining_stripes := r\<rparr>) = search_inv g0 c P X g"
proof -
  have "mated (g\<lparr>remaining_stripes := r\<rparr>) = mated g" by (simp add: fun_eq_iff mated_def)
  then have "matching_ok (g\<lparr>remaining_stripes := r\<rparr>) = matching_ok g" by (simp add: matching_ok_def)
  then show ?thesis
    by (simp add: search_inv_def static_ok_def stable_pairs_def cands_ok_def zeros_ok_def level_ok_def
        stripe_parity_def)
qed

lemma search_pass_total:
  assumes inv: "search_inv g0 c {} {} g" and rem: "remaining_ok g"
    and c: "c < rs_m (g_params g)" "rs_m (g_params g) \<le> 7"
  shows "\<exists>g'. search_pass c g = Some g' \<and> search_inv g0 (Suc c) {} {} g' \<and> remaining_ok g'"
proof -
  let ?R = "remaining_stripes g"
  let ?I = "\<lambda>pre (h, del). search_inv g0 c (set pre) {} h \<and> onward g h \<and> (\<forall>d \<in> set del. sel h d) \<and>
      set del \<subseteq> set ?R"
  have params: "g_params h = g_params g" if "search_inv g0 c P {} h" for h P
    using search_inv_params [OF inv] search_inv_params [OF that] by simp
  have "\<exists>st. foldM (search_step c) (g, []) ?R = Some st \<and> ?I ?R st"
  proof (rule foldM_total [where I = ?I])
    show "?I [] (g, [])" using inv by (simp add: onward_def)
  next
    fix pre x post st assume split: "?R = pre @ x # post" and I: "?I pre st"
    obtain h del where st: "st = (h, del)" by fastforce
    with I have h: "search_inv g0 c (set pre) {} h" "onward g h" "\<forall>d \<in> set del. sel h d"
      "set del \<subseteq> set ?R" by auto
    have "x \<in> set ?R" using split by simp
    then have x: "x < stripes_num h" "x \<notin> set pre"
      using rem h(2) split by (auto simp: remaining_ok_def onward_def)
    from search_step_total [OF h(1) x, of del, unfolded params [OF h(1)], OF c] obtain h' del' where
      s: "search_step c (h, del) x = Some (h', del')"
        "step_ok g0 c (insert x (set pre)) h del x (h', del')" by fastforce
    then have o: "onward h h'" "search_inv g0 c (insert x (set pre)) {} h'"
      "del' = del \<or> del' = del @ [x] \<and> sel h' x" by (simp_all add: step_ok_def)
    have "sel h' d" if "d \<in> set del" for d
    proof -
      have "d < stripes_num h" using that h(2,4) rem by (auto simp: remaining_ok_def onward_def)
      with that h(3) o(1) show ?thesis by (simp add: onward_def)
    qed
    then have "\<forall>d \<in> set del'. sel h' d" "set del' \<subseteq> set ?R"
      using o(3) h(4) \<open>x \<in> set ?R\<close> by auto
    then show "\<exists>st'. search_step c st x = Some st' \<and> ?I (pre @ [x]) st'"
      using s(1) o onward_trans [OF h(2) o(1)] by (simp add: st)
  qed
  then obtain h del where r: "foldM (search_step c) (g, []) ?R = Some (h, del)"
    "search_inv g0 c (set ?R) {} h" "onward g h" "\<forall>d \<in> set del. sel h d" "set del \<subseteq> set ?R" by auto
  let ?g = "h\<lparr>remaining_stripes := fold remove1 del (remaining_stripes h)\<rparr>"
  have R: "remaining_stripes h = ?R" and n: "stripes_num h = stripes_num g"
    using r(3) by (simp_all add: onward_def)
  have fr: "free_stripes h \<subseteq> set ?R" using rem r(3) by (auto simp: remaining_ok_def onward_def)
  have dR: "distinct ?R" using rem by (simp add: remaining_ok_def)
  have "level_ok h (Suc c) {}"
    by (rule level_Suc [OF search_invD(9) [OF r(2)]]) (use fr in blast)
  then have "search_inv g0 (Suc c) {} {} h" using r(2) by (simp add: search_inv_def)
  then have "search_inv g0 (Suc c) {} {} ?g" by (simp only: search_inv_remaining)
  moreover have "remaining_ok ?g"
    using fold_remove1 [OF dR, of del] fr r(4) rem R n
    by (auto simp: remaining_ok_def)
  ultimately show ?thesis using r(1) by (simp add: search_pass_def)
qed

lemma search_levels_total:
  assumes "search_inv g0 c {} {} g" and "remaining_ok g"
    and "rs_m (g_params g) \<le> 7" and "c \<le> rs_m (g_params g)"
  shows "\<exists>g' c'. search_levels [c..<rs_m (g_params g)] g = Some g' \<and> search_inv g0 c' {} {} g' \<and>
    remaining_ok g' \<and> (c' = rs_m (g_params g) \<or> free_stripes g' = {})"
  using assms
proof (induction "rs_m (g_params g) - c" arbitrary: c g)
  case 0
  then have "[c..<rs_m (g_params g)] = []" "c = rs_m (g_params g)" by simp_all
  with 0 show ?case by auto
next
  case (Suc k)
  then have upt: "[c..<rs_m (g_params g)] = c # [Suc c..<rs_m (g_params g)]" by (simp add: upt_conv_Cons)
  show ?case
  proof (cases "remaining_stripes g = []")
    case True
    with Suc.prems(2) have "free_stripes g = {}" by (auto simp: remaining_ok_def)
    with True Suc.prems show ?thesis unfolding upt by (intro exI [of _ g] exI [of _ c]) simp
  next
    case False
    have c: "c < rs_m (g_params g)" using Suc.hyps(2) by simp
    from search_pass_total [OF Suc.prems(1,2) c Suc.prems(3)] obtain g' where
      g': "search_pass c g = Some g'" "search_inv g0 (Suc c) {} {} g'" "remaining_ok g'" by blast
    have p: "g_params g' = g_params g"
      using search_inv_params [OF g'(2)] search_inv_params [OF Suc.prems(1)] by simp
    have "k = rs_m (g_params g') - Suc c" "Suc c \<le> rs_m (g_params g')" using Suc.hyps(2) p by simp_all
    from Suc.hyps(1) [OF this(1) g'(2,3) _ this(2)] Suc.prems(3) p g'(1) False show ?thesis
      unfolding upt by auto
  qed
qed

end
