(* ===== verification/Optimization.thy ===== *)
theory Optimization
  imports Search
begin

text \<open>
  The end of StripeMerge-P: \<open>make_optimization\<close>, which repairs pairs that are aligned but not
  free, and \<open>dist_based_search\<close> as a whole (src/matching_generator.cc).

  The lemmas show that a repair swaps the partners of two pairs without raising any cost
  (\<open>swapped\<close>), and that the whole search returns a matching that leaves at most one stripe
  over and in which no two stripes could both be better off together.
\<close>

section \<open>Operations\<close>

text \<open>
  \<open>make_optimization\<close>: a pair with aligned parity but a positive cost swaps partners with a
  free pair on the same parity nodes when both new pairs are free.
\<close>

definition both_free :: "generator \<Rightarrow> nat \<Rightarrow> nat \<Rightarrow> nat \<Rightarrow> nat \<Rightarrow> (bool \<times> generator) option" where
  "both_free g a b c d = do {
     (x, g1) \<leftarrow> get_cost g a b;
     if x \<noteq> 0 then Some (False, g1)
     else do { (y, g2) \<leftarrow> get_cost g1 c d; Some (y = 0, g2) }
   }"

fun swap_scan :: "nat \<Rightarrow> nat \<Rightarrow> nat list \<Rightarrow> generator \<Rightarrow> generator option" where
  "swap_scan cur_i cur_j [] g = Some g"
| "swap_scan cur_i cur_j (i # is) g = do {
     s \<leftarrow> aget (stripes g) i;
     let j = matching_index s;
     (ok1, g1) \<leftarrow> both_free g cur_i i cur_j j;
     if ok1 then do {
       g2 \<leftarrow> mark_matched g1 cur_j j 0 True;
       mark_matched g2 cur_i i 0 False
     } else do {
       (ok2, g2) \<leftarrow> both_free g1 cur_i j cur_j i;
       if ok2 then do {
         g3 \<leftarrow> mark_matched g2 cur_i j 0 True;
         mark_matched g3 cur_j i 0 False
       } else swap_scan cur_i cur_j is g2
     }
   }"

definition optimize_one :: "generator \<Rightarrow> nat \<Rightarrow> generator option" where
  "optimize_one g cur_i = do {
     s \<leftarrow> aget (stripes g) cur_i;
     case zero_map g (parity_dist s) of
       None \<Rightarrow> Some g
     | Some l \<Rightarrow> swap_scan cur_i (matching_index s) l g
   }"

definition make_optimization :: "generator \<Rightarrow> generator option" where
  "make_optimization g = foldM optimize_one g (none_zero_candidate g)"

definition dist_based_search :: "generator \<Rightarrow> (exit_status + generator) option" where
  "dist_based_search g =
     (if node_num (g_params g) < 2 * rs_k (g_params g) + rs_m (g_params g)
      then Some (Inl (Exit (-1)))
      else do {
        g1 \<leftarrow> build_map g;
        g2 \<leftarrow> search_levels [0..<rs_m (g_params g1)] g1;
        r \<leftarrow> (if remaining_stripes g2 \<noteq> [] then basic_greedy g2 True else Some (Inr (0, g2)));
        case r of
          Inl e \<Rightarrow> Some (Inl e)
        | Inr (_, g3) \<Rightarrow> do { g4 \<leftarrow> make_optimization g3; Some (Inr g4) }
      })"

section \<open>Swapping partners\<close>

definition swapped :: "nat \<Rightarrow> nat \<Rightarrow> nat \<Rightarrow> nat \<Rightarrow> generator \<Rightarrow> generator" where
  "swapped a x b y g = paired a x 0 False (paired b y 0 True g)"

text \<open>Two pairs \<open>a b\<close> and \<open>x y\<close> that can be re-paired as \<open>a x\<close> and \<open>b y\<close> for free.\<close>

definition can_swap :: "generator \<Rightarrow> nat \<Rightarrow> nat \<Rightarrow> nat \<Rightarrow> nat \<Rightarrow> bool" where
  "can_swap g a b x y \<longleftrightarrow> mated g a b \<and> mated g x y \<and> {a, b} \<inter> {x, y} = {} \<and>
     pair_cost g a x = 0 \<and> pair_cost g b y = 0"

lemma can_swapD:
  assumes "can_swap g a b x y"
  shows "a < stripes_num g" "b < stripes_num g" "x < stripes_num g" "y < stripes_num g"
    "b \<noteq> y" "a \<noteq> x" "a \<noteq> b" "a \<noteq> y" "b \<noteq> x" "x \<noteq> y"
    "sel g a" "sel g b" "sel g x" "sel g y"
  using assms by (auto simp: can_swap_def mated_def)

lemma swapped_wf:
  assumes "wf_gen g" and "can_swap g a b x y"
  shows "wf_gen (swapped a x b y g)" and "same_config g (swapped a x b y g)"
proof -
  note d = can_swapD [OF assms(2)]
  let ?h = "paired b y 0 True g"
  have wf: "wf_gen ?h" using paired_wf [OF assms(1) d(2,4,5)] .
  from paired_wf [OF wf, of a x] d show "wf_gen (swapped a x b y g)" by (simp add: swapped_def)
  have "same_config g ?h" using assms(1) d by (intro paired_config) (simp_all add: wf_gen_length)
  also have "same_config ?h (swapped a x b y g)"
    unfolding swapped_def using wf d by (intro paired_config) (simp_all add: wf_gen_length)
  finally show "same_config g (swapped a x b y g)" .
qed

lemma swapped_nth:
  assumes wf: "wf_gen g" and s: "can_swap g a b x y"
  shows "sel (swapped a x b y g) z = sel g z"
    and "mate (swapped a x b y g) z = (if z = a then x else if z = x then a else if z = b then y
      else if z = y then b else mate g z)"
    and "scost (swapped a x b y g) z = (if z \<in> {a, b, x, y} then 0 else scost g z)"
proof -
  note d = can_swapD [OF s]
  note p1 = paired_nth [OF wf d(2,4,5)]
  have "wf_gen (paired b y 0 True g)" using paired_wf [OF wf d(2,4,5)] .
  note p2 = paired_nth [OF this, of a x]
  show "sel (swapped a x b y g) z = sel g z"
    and "mate (swapped a x b y g) z = (if z = a then x else if z = x then a else if z = b then y
      else if z = y then b else mate g z)"
    and "scost (swapped a x b y g) z = (if z \<in> {a, b, x, y} then 0 else scost g z)"
    using d unfolding swapped_def by (auto simp: p1 p2)
qed

lemma swapped_fields [simp]:
  "stripes_num (swapped a x b y g) = stripes_num g"
  "remaining_stripes (swapped a x b y g) = remaining_stripes g"
  "blocks_to_sent (swapped a x b y g) = blocks_to_sent g"
  by (simp_all add: swapped_def)

lemma swapped_pair_cost:
  assumes "wf_gen g" and "can_swap g a b x y" and "i < stripes_num g" and "j < stripes_num g"
  shows "pair_cost (swapped a x b y g) i j = pair_cost g i j"
  using swapped_wf(2) [OF assms(1,2)] assms by (intro same_config_pair_cost) (simp_all add: wf_gen_length)

lemma swapped_matching:
  assumes wf: "wf_gen g" and ok: "matching_ok g" and s: "can_swap g a b x y"
  shows "matching_ok (swapped a x b y g)"
  unfolding matching_ok_def
proof (intro allI impI)
  let ?g = "swapped a x b y g"
  note d = can_swapD [OF s] and n = swapped_nth [OF wf s] and pc = swapped_pair_cost [OF wf s]
  have sw: "pair_cost g a x = 0" "pair_cost g x a = 0" "pair_cost g b y = 0" "pair_cost g y b = 0"
    using s pair_cost_sym by (auto simp: can_swap_def)
  fix z assume "z < stripes_num ?g" and "sel ?g z"
  then have z: "z < stripes_num g" "sel g z" using n(1) by simp_all
  note m = matedD [OF matching_okD [OF ok z]]
  show "mated ?g z (mate ?g z)"
  proof (cases "z \<in> {a, b, x, y}")
    case True
    then show ?thesis using d sw by (auto simp: mated_def n pc)
  next
    case False
    have "mate g a = b" "mate g b = a" "mate g x = y" "mate g y = x"
      using s by (simp_all add: can_swap_def mated_def)
    then have "mate g z \<notin> {a, b, x, y}" using False m(7) by auto
    then show ?thesis using False m by (simp add: mated_def n pc)
  qed
qed

section \<open>The invariant of the optimization\<close>

text \<open>Pairs only get cheaper: same selection, no stripe at a higher cost.\<close>

definition cheaper :: "generator \<Rightarrow> generator \<Rightarrow> bool" where
  "cheaper g g' \<longleftrightarrow> stripes_num g' = stripes_num g \<and>
     (\<forall>x < stripes_num g. sel g' x = sel g x \<and> scost g' x \<le> scost g x)"

lemma cheaper_refl [simp]: "cheaper g g"
  by (simp add: cheaper_def)

lemma cheaper_trans: "cheaper g g' \<Longrightarrow> cheaper g' g'' \<Longrightarrow> cheaper g g''"
  by (auto simp: cheaper_def intro: order_trans)

lemma cheaper_cost:
  assumes "cheaper g g'" and "matching_ok g" and "matching_ok g'"
  shows "matching_cost g' \<le> matching_cost g"
proof -
  let ?S = "{x. x < stripes_num g \<and> sel g x}"
  have "{x. x < stripes_num g' \<and> sel g' x} = ?S" using assms(1) by (auto simp: cheaper_def)
  then have "2 * matching_cost g' = (\<Sum>x \<in> ?S. scost g' x)"
    using matching_cost_sum [OF assms(3)] by simp
  also have "\<dots> \<le> (\<Sum>x \<in> ?S. scost g x)"
    using assms(1) by (intro sum_mono) (simp add: cheaper_def)
  also have "\<dots> = 2 * matching_cost g" using matching_cost_sum [OF assms(2)] .
  finally show ?thesis by simp
qed

lemma cheaper_stable:
  assumes "cheaper g g'" and "stable_pairs g" and "wf_gen g" and "same_config g g'"
  shows "stable_pairs g'"
  unfolding stable_pairs_def
proof (intro allI impI)
  fix i j assume ij: "i < stripes_num g' \<and> j < stripes_num g' \<and> i \<noteq> j"
  then have n: "i < stripes_num g" "j < stripes_num g" using assms(1) by (simp_all add: cheaper_def)
  have "pair_cost g' i j = pair_cost g i j"
    using same_config_pair_cost [OF assms(4)] n wf_gen_length [OF assms(3)] by simp
  moreover have "scost g' i \<le> scost g i" "scost g' j \<le> scost g j" "sel g' i = sel g i" "sel g' j = sel g j"
    using assms(1) n by (simp_all add: cheaper_def)
  moreover have "\<not> sel g i \<and> \<not> sel g j \<or> sel g i \<and> scost g i \<le> pair_cost g i j \<or>
      sel g j \<and> scost g j \<le> pair_cost g i j"
    using assms(2) n ij by (simp add: stable_pairs_def)
  ultimately show "\<not> sel g' i \<and> \<not> sel g' j \<or> sel g' i \<and> scost g' i \<le> pair_cost g' i j \<or>
      sel g' j \<and> scost g' j \<le> pair_cost g' i j" by auto
qed

definition opt_inv :: "generator \<Rightarrow> nat list \<Rightarrow> generator \<Rightarrow> bool" where
  "opt_inv g0 cs g \<longleftrightarrow> wf_gen g \<and> same_config g0 g \<and> matching_ok g \<and> cands_ok g cs \<and> zeros_ok g \<and>
     cheaper g0 g \<and> blocks_to_sent g = blocks_to_sent g0"

lemma memo_mated: "same_but_memo g g' \<Longrightarrow> mated g' = mated g"
  by (simp add: fun_eq_iff mated_def same_but_memo_fields same_but_memo_pair_cost)

lemma opt_inv_memo:
  assumes "opt_inv g0 cs g" and "same_but_memo g g'" and "wf_gen g'"
  shows "opt_inv g0 cs g'"
proof -
  note f = same_but_memo_fields [OF assms(2)]
  have "matching_ok g' = matching_ok g" "cands_ok g' cs = cands_ok g cs" "zeros_ok g' = zeros_ok g"
    "cheaper g0 g' = cheaper g0 g"
    using memo_mated [OF assms(2)]
    by (simp_all add: matching_ok_def cands_ok_def zeros_ok_def cheaper_def stripe_parity_def f)
  with assms same_config_trans [OF _ same_but_memo_config [OF assms(2)], of g0] show ?thesis
    by (simp add: opt_inv_def f)
qed

lemma opt_inv_drop: "opt_inv g0 (i # cs) g \<Longrightarrow> opt_inv g0 cs g"
  by (auto simp: opt_inv_def cands_ok_def)

lemma swapped_zeros:
  assumes wf: "wf_gen g" and z: "zeros_ok g" and s: "can_swap g a b x y"
  shows "zeros_ok (swapped a x b y g)"
proof -
  note d = can_swapD [OF s]
  have wf': "wf_gen (paired b y 0 True g)" using paired_wf [OF wf d(2,4,5)] .
  have "zeros_ok (paired b y 0 True g)" by (rule zeros_paired [OF wf d(2,4,5) z]) simp
  from zeros_paired [OF wf' _ _ d(6) this, of 0 False] d show ?thesis
    by (simp add: swapped_def)
qed

text \<open>Swapping a candidate \<open>i\<close> with a free pair keeps the invariant for the other candidates.\<close>

lemma opt_inv_swapped:
  assumes inv: "opt_inv g0 (i # cs) g" and s: "can_swap g a b x y" and i: "i \<in> {a, b}"
    and z: "scost g x = 0"
  shows "opt_inv g0 cs (swapped a x b y g)"
proof -
  let ?g = "swapped a x b y g"
  have wf: "wf_gen g" and ok: "matching_ok g" and cs: "cands_ok g (i # cs)"
    using inv by (simp_all add: opt_inv_def)
  note n = swapped_nth [OF wf s] and cfg = swapped_wf(2) [OF wf s]
  have ab: "mate g a = b" "mate g b = a" "mate g x = y" "mate g y = x" "scost g y = 0"
    using s z by (simp_all add: can_swap_def mated_def)
  have "cands_ok ?g cs"
  proof -
    have "j < stripes_num g \<and> sel ?g j \<and> scost ?g j \<noteq> 0 \<and>
        stripe_parity ?g j = stripe_parity ?g (mate ?g j) \<and> mate ?g j \<notin> set cs" if j: "j \<in> set cs" for j
    proof -
      have c: "j < stripes_num g" "sel g j" "scost g j \<noteq> 0" "mate g j \<notin> set (i # cs)" "j \<noteq> i"
        "stripe_parity g j = stripe_parity g (mate g j)" "mate g i \<notin> set (i # cs)"
        using cs j by (auto simp: cands_ok_def)
      then have "j \<notin> {a, b, x, y}" using i j ab z by auto
      moreover have "mate g j < stripes_num g"
        using matching_okD [OF ok c(1,2)] by (simp add: mated_def)
      ultimately show ?thesis
        using c stripe_parity_config [OF cfg wf] by (simp add: n)
    qed
    then show ?thesis using cs by (simp add: cands_ok_def)
  qed
  moreover have "cheaper g ?g" by (auto simp: cheaper_def n)
  ultimately show ?thesis
    using inv swapped_wf [OF wf s] swapped_matching [OF wf ok s] swapped_zeros [OF wf _ s]
      same_config_trans [OF _ cfg, of g0] cheaper_trans [of g0 g ?g]
    by (simp add: opt_inv_def)
qed

section \<open>The optimization returns\<close>

lemma both_free_total:
  assumes "wf_gen g" "a < stripes_num g" "b < stripes_num g" "c < stripes_num g" "d < stripes_num g"
    "a \<noteq> b" "c \<noteq> d"
  shows "\<exists>g'. both_free g a b c d = Some (pair_cost g a b = 0 \<and> pair_cost g c d = 0, g') \<and>
    wf_gen g' \<and> same_but_memo g g'"
proof -
  from get_cost_total [OF assms(1,2,3,6)] obtain g1 where
    g1: "get_cost g a b = Some (pair_cost g a b, g1)" "wf_gen g1" "same_but_memo g g1" by blast
  have f: "stripes_num g1 = stripes_num g" "pair_cost g1 = pair_cost g"
    using g1(3) by (simp_all add: same_but_memo_fields same_but_memo_pair_cost)
  from get_cost_total [OF g1(2), of c d] assms f obtain g2 where
    g2: "get_cost g1 c d = Some (pair_cost g c d, g2)" "wf_gen g2" "same_but_memo g1 g2" by auto
  show ?thesis
    using g1 g2 same_but_memo_trans [OF g1(3) g2(3)] by (simp add: both_free_def)
qed

lemma mark_twice:
  assumes wf: "wf_gen g" and s: "can_swap g a b x y"
  shows "do { g2 \<leftarrow> mark_matched g b y 0 True; mark_matched g2 a x 0 False } =
    Some (swapped a x b y g)"
proof -
  note d = can_swapD [OF s]
  have "wf_gen (paired b y 0 True g)" using paired_wf [OF wf d(2,4,5)] .
  from mark_matched_paired [OF this, of a x] d
  have "mark_matched (paired b y 0 True g) a x 0 False = Some (swapped a x b y g)"
    by (simp add: swapped_def)
  then show ?thesis using mark_matched_paired [OF wf d(2,4,5)] by simp
qed

lemma swap_scan_total:
  assumes "opt_inv g0 (i # cs) g" and "mated g i j" and "scost g i \<noteq> 0"
    and "\<forall>x \<in> set l. x < stripes_num g \<and> sel g x \<and> scost g x = 0"
  shows "\<exists>g'. swap_scan i j l g = Some g' \<and> opt_inv g0 cs g'"
  using assms
proof (induction l arbitrary: g)
  case Nil
  then show ?case using opt_inv_drop by auto
next
  case (Cons x xs)
  have wf: "wf_gen g" and ok: "matching_ok g" using Cons.prems(1) by (simp_all add: opt_inv_def)
  let ?y = "mate g x"
  have x: "x < stripes_num g" "sel g x" "scost g x = 0" using Cons.prems(4) by simp_all
  have mx: "mated g x ?y" using matching_okD [OF ok x(1,2)] .
  note dx = matedD [OF mx] and di = matedD [OF Cons.prems(2)]
  have "scost g ?y = 0" using dx(8,9) x(3) by simp
  moreover have "scost g j \<noteq> 0" using di(8,9) Cons.prems(3) by simp
  ultimately have dis: "{i, j} \<inter> {x, ?y} = {}" using Cons.prems(3) x(3) by auto
  from both_free_total [OF wf, of i x j ?y] dis dx(1,2) di(1,2) obtain g1 where
    g1: "both_free g i x j ?y = Some (pair_cost g i x = 0 \<and> pair_cost g j ?y = 0, g1)"
      "wf_gen g1" "same_but_memo g g1" by auto
  have f1: "stripes_num g1 = stripes_num g" "pair_cost g1 = pair_cost g" "stripes g1 = stripes g"
    "mated g1 = mated g"
    using g1(3) by (simp_all add: same_but_memo_fields same_but_memo_pair_cost memo_mated)
  have i1: "opt_inv g0 (i # cs) g1" using opt_inv_memo [OF Cons.prems(1) g1(3,2)] .
  have get: "aget (stripes g) x = Some (stripes g ! x)" using x(1) wf_gen_length [OF wf] by simp
  show ?case
  proof (cases "pair_cost g i x = 0 \<and> pair_cost g j ?y = 0")
    case True
    then have s: "can_swap g1 i j x ?y"
      using Cons.prems(2) mx dis f1 by (simp add: can_swap_def)
    have "swap_scan i j (x # xs) g = Some (swapped i x j ?y g1)"
      using True get g1(1) mark_twice [OF g1(2) s] by (simp add: Let_def)
    moreover have "opt_inv g0 cs (swapped i x j ?y g1)"
      by (rule opt_inv_swapped [OF i1 s]) (use x(3) f1 in simp_all)
    ultimately show ?thesis by blast
  next
    case no1: False
    from both_free_total [OF g1(2), of i ?y j x] dis dx(1,2) di(1,2) f1 obtain g2 where
      g2: "both_free g1 i ?y j x = Some (pair_cost g i ?y = 0 \<and> pair_cost g j x = 0, g2)"
        "wf_gen g2" "same_but_memo g1 g2" by auto
    have f2: "stripes_num g2 = stripes_num g" "pair_cost g2 = pair_cost g" "stripes g2 = stripes g"
      "mated g2 = mated g"
      using g2(3) f1 by (simp_all add: same_but_memo_fields same_but_memo_pair_cost memo_mated)
    have i2: "opt_inv g0 (i # cs) g2" using opt_inv_memo [OF i1 g2(3,2)] .
    show ?thesis
    proof (cases "pair_cost g i ?y = 0 \<and> pair_cost g j x = 0")
      case True
      then have s: "can_swap g2 j i x ?y"
        using mated_sym [OF Cons.prems(2)] mx dis f2 by (auto simp: can_swap_def)
      have "swap_scan i j (x # xs) g = Some (swapped j x i ?y g2)"
        using True no1 get g1(1) g2(1) mark_twice [OF g2(2) s] by (auto simp: Let_def)
      moreover have "opt_inv g0 cs (swapped j x i ?y g2)"
        by (rule opt_inv_swapped [OF i2 s]) (use x(3) f2 in simp_all)
      ultimately show ?thesis by blast
    next
      case False
      have "mated g2 i j" "scost g2 i \<noteq> 0"
        "\<forall>x \<in> set xs. x < stripes_num g2 \<and> sel g2 x \<and> scost g2 x = 0"
        using Cons.prems f2 by simp_all
      from Cons.IH [OF i2 this] obtain g' where
        "swap_scan i j xs g2 = Some g'" "opt_inv g0 cs g'" by blast
      then show ?thesis using False no1 get g1(1) g2(1) by (auto simp: Let_def)
    qed
  qed
qed

lemma optimize_one_total:
  assumes "opt_inv g0 (i # cs) g"
  shows "\<exists>g'. optimize_one g i = Some g' \<and> opt_inv g0 cs g'"
proof -
  have wf: "wf_gen g" and ok: "matching_ok g" and z: "zeros_ok g"
    and i: "i < stripes_num g" "sel g i" "scost g i \<noteq> 0"
    using assms by (simp_all add: opt_inv_def cands_ok_def)
  have get: "aget (stripes g) i = Some (stripes g ! i)" using i(1) wf_gen_length [OF wf] by simp
  show ?thesis
  proof (cases "zero_map g (parity_dist (stripes g ! i))")
    case None
    then show ?thesis using get opt_inv_drop [OF assms] by (simp add: optimize_one_def)
  next
    case (Some l)
    then have l: "listed (zero_map g) (parity_dist (stripes g ! i)) = l" by (simp add: listed_def)
    have "\<forall>x \<in> set l. x < stripes_num g \<and> sel g x \<and> scost g x = 0"
      using z unfolding zeros_ok_def l [symmetric] by blast
    from swap_scan_total [OF assms matching_okD [OF ok i(1,2)] i(3) this] Some get show ?thesis
      by (simp add: optimize_one_def)
  qed
qed

lemma make_optimization_total:
  assumes "opt_inv g (none_zero_candidate g) g"
  shows "\<exists>g'. make_optimization g = Some g' \<and> opt_inv g [] g'"
proof -
  have "\<exists>g'. foldM optimize_one h cs = Some g' \<and> opt_inv g [] g'" if "opt_inv g cs h" for cs h
    using that
  proof (induction cs arbitrary: h)
    case Nil
    then show ?case by simp
  next
    case (Cons i cs)
    from optimize_one_total [OF Cons.prems] obtain h' where
      "optimize_one h i = Some h'" "opt_inv g cs h'" by blast
    with Cons.IH show ?case by simp
  qed
  with assms show ?thesis by (simp add: make_optimization_def)
qed

section \<open>The whole search\<close>

lemma built_inv:
  assumes wf: "wf_gen g" and fr: "fresh_gen g" and m: "rs_m (g_params g) \<le> 7" and st: "static_ok g"
  shows "\<exists>g1. build_map g = Some g1 \<and> search_inv g1 0 {} {} g1 \<and> remaining_ok g1 \<and>
    same_config g g1 \<and> blocks_to_sent g1 = []"
proof -
  from build_map_total [OF wf_gen_length [OF wf] m] fr obtain g1 where
    b: "build_map g = Some g1" "maps_built g g1" by (auto simp: fresh_gen_def)
  from b(2) obtain pm pd where g1: "g1 = g\<lparr>parity_map := pm,
      remaining_stripes := [0..<stripes_num g], partial_dist_map := pd\<rparr>"
    and pm: "\<And>q. listed pm q = filter (\<lambda>i. stripe_parity g i = q) [0..<stripes_num g]"
    and pd: "\<And>s q. listed pd (q @ [s]) = filter (\<lambda>i. 1 \<le> s \<and> s < 2 ^ rs_m (g_params g) \<and>
      project s (stripe_parity g i) = q) [0..<stripes_num g]"
    by (auto simp: maps_built_def)
  have sp: "stripe_parity g1 = stripe_parity g" by (simp add: fun_eq_iff stripe_parity_def g1)
  have free: "\<And>i. i < stripes_num g \<Longrightarrow> \<not> sel g1 i \<and> mate g1 i = u32_max \<and> scost g1 i = u8_max"
    and none: "none_zero_candidate g1 = []" "zero_map g1 = Map.empty" "blocks_to_sent g1 = []"
    using fr by (simp_all add: g1 fresh_gen_def)
  have n: "stripes_num g1 = stripes_num g" by (simp add: g1)
  have "maps_ok g1 {}"
    unfolding maps_ok_def dom_ok_def parity_keyed_def mask_keyed_def sp
    by (auto simp: g1 pm pd)
  moreover have "level_ok g1 0 {}" using free by (auto simp: level_ok_def memo_ok_def n)
  moreover have "static_ok g1" using st by (simp add: static_ok_def g1)
  moreover have "wf_gen g1" "same_config g g1" using wf by (simp_all add: g1)
  ultimately have "search_inv g1 0 {} {} g1"
    using free none
    by (simp add: search_inv_def matching_ok_def stable_pairs_def cands_ok_def zeros_ok_def listed_def n)
  moreover have "remaining_ok g1" by (auto simp: remaining_ok_def g1)
  ultimately show ?thesis using b(1) none \<open>same_config g g1\<close> by blast
qed

text \<open>The greedy search on what is left keeps the pairs and completes the matching.\<close>

lemma greedy_completes:
  assumes inv: "search_inv g0 c {} {} g" and r: "greedy_result g g'"
  shows "opt_inv g' (none_zero_candidate g') g'" and "stable_pairs g'"
    and "card (free_stripes g') \<le> 1" and "same_config g0 g'" and "blocks_to_sent g' = blocks_to_sent g0"
proof -
  note D = search_invD [OF inv]
  have wf: "wf_gen g'" and cfg: "same_config g g'" and sb: "same_but_pairs g g'"
    and ok: "matching_ok g'" and nb: "no_better_pair g g'" and f: "card (free_stripes g') \<le> 1"
    and keep: "\<And>x. x < stripes_num g \<Longrightarrow> sel g x \<Longrightarrow> stripes g' ! x = stripes g ! x"
    using r unfolding greedy_result_def by blast+
  note flds = same_but_pairs_fields [OF sb] and n = same_config_length(2) [OF cfg]
    and sp = stripe_parity_config [OF cfg D(1)]
  have pc: "pair_cost g' i j = pair_cost g i j" if "i < stripes_num g" "j < stripes_num g" for i j
    using same_config_pair_cost [OF cfg] that wf_gen_length [OF D(1)] by simp
  show "stable_pairs g'"
    unfolding stable_pairs_def n
  proof (intro allI impI)
    fix i j assume ij: "i < stripes_num g \<and> j < stripes_num g \<and> i \<noteq> j"
    have better: "sel g' x \<and> scost g' x \<le> pair_cost g x y \<or> sel g' y \<and> scost g' y \<le> pair_cost g x y"
      if "x < y" "y < stripes_num g" "\<not> sel g x" "\<not> sel g y" for x y
      using nb that by (auto simp: no_better_pair_def)
    consider "\<not> sel g i" "\<not> sel g j" | "sel g i" "scost g i \<le> pair_cost g i j"
      | "sel g j" "scost g j \<le> pair_cost g i j" using D(6) ij by (auto simp: stable_pairs_def)
    then show "\<not> sel g' i \<and> \<not> sel g' j \<or> sel g' i \<and> scost g' i \<le> pair_cost g' i j \<or>
        sel g' j \<and> scost g' j \<le> pair_cost g' i j"
    proof cases
      case 1
      then show ?thesis
        using better [of i j] better [of j i] ij pc pair_cost_sym [of g j i] by (metis nat_neq_iff)
    qed (use ij keep pc in simp_all)
  qed
  have "cands_ok g' (none_zero_candidate g')"
  proof -
    have "sel g' i \<and> scost g' i \<noteq> 0 \<and> stripe_parity g' i = stripe_parity g' (mate g' i) \<and>
        mate g' i \<notin> set (none_zero_candidate g)" if i: "i \<in> set (none_zero_candidate g)" for i
    proof -
      have c: "i < stripes_num g" "sel g i" "scost g i \<noteq> 0" "mate g i \<notin> set (none_zero_candidate g)"
        "stripe_parity g i = stripe_parity g (mate g i)"
        using D(7) i by (auto simp: cands_ok_def)
      moreover have "mate g i < stripes_num g"
        using matching_okD [OF D(3) c(1,2)] by (simp add: mated_def)
      ultimately show ?thesis using keep [OF c(1,2)] sp by simp
    qed
    then show ?thesis using D(7) by (simp add: cands_ok_def flds n)
  qed
  moreover have "zeros_ok g'"
    using D(8) keep sp by (auto simp: zeros_ok_def flds n)
  ultimately show "opt_inv g' (none_zero_candidate g') g'"
    using wf ok by (simp add: opt_inv_def)
  show "same_config g0 g'" using same_config_trans [OF D(2) cfg] .
  show "blocks_to_sent g' = blocks_to_sent g0" using D(10) by (simp add: flds)
qed (use r in \<open>simp only: greedy_result_def\<close>)

lemma greedy_result_refl:
  assumes "search_inv g0 c {} {} g" and "free_stripes g = {}"
  shows "greedy_result g g"
proof -
  have "no_better_pair g g"
    using assms(2) by (auto simp: no_better_pair_def)
  moreover have "\<exists>taken. free_stripes g = free_stripes g \<union> taken \<and> free_stripes g \<inter> taken = {} \<and>
      even (card taken)" by (rule exI [of _ "{}"]) simp
  moreover have "card (free_stripes g) \<le> 1" by (simp only: assms(2) card.empty)
  ultimately show ?thesis
    unfolding greedy_result_def using search_invD(1,3) [OF assms(1)] by (simp del: Collect_empty_eq)
qed

lemma remaining_ready:
  assumes inv: "search_inv g0 c {} {} g" and rem: "remaining_ok g"
    and nodes: "2 * rs_k (g_params g) + rs_m (g_params g) \<le> node_num (g_params g)"
  shows "greedy_ready g True"
proof -
  have R: "distinct (remaining_stripes g)" "set (remaining_stripes g) \<subseteq> {..<stripes_num g}"
    "free_stripes g \<subseteq> set (remaining_stripes g)" using rem by (simp_all add: remaining_ok_def)
  have "card (free_stripes g) \<le> length (remaining_stripes g)"
    using card_mono [OF _ R(3)] distinct_card [OF R(1)] by simp
  moreover have "length (remaining_stripes g) \<le> stripes_num g"
    using card_mono [OF _ R(2)] distinct_card [OF R(1)] by simp
  ultimately show ?thesis
    using search_invD [OF inv] nodes by (simp add: greedy_ready_def)
qed

text \<open>
  What the search leaves: a matching over the same placements, with at most one stripe over and
  no two stripes that could both be better off; the optimization made no stripe dearer.
\<close>

definition search_result :: "generator \<Rightarrow> generator \<Rightarrow> bool" where
  "search_result g g' \<longleftrightarrow> wf_gen g' \<and> same_config g g' \<and> matching_ok g' \<and> stable_pairs g' \<and>
     card (free_stripes g') \<le> 1 \<and> blocks_to_sent g' = []"

text \<open>
  The phases: the index, the levels (after which no free pair costs less than \<open>rs_m\<close>), the
  greedy search on the rest, the optimization.
\<close>

definition search_phases :: "generator \<Rightarrow> generator \<Rightarrow> generator \<Rightarrow> generator \<Rightarrow> generator \<Rightarrow> bool" where
  "search_phases g g1 g2 g3 g4 \<longleftrightarrow>
     build_map g = Some g1 \<and> search_levels [0..<rs_m (g_params g1)] g1 = Some g2 \<and>
     (if remaining_stripes g2 = [] then g3 = g2 else \<exists>t. basic_greedy g2 True = Some (Inr (t, g3))) \<and>
     make_optimization g3 = Some g4"

lemma search_phases_total:
  assumes wf: "wf_gen g" and fr: "fresh_gen g" and m: "rs_m (g_params g) \<le> 7" and st: "static_ok g"
    and nodes: "2 * rs_k (g_params g) + rs_m (g_params g) \<le> node_num (g_params g)"
  shows "\<exists>g1 g2 g3 g4. search_phases g g1 g2 g3 g4 \<and>
    (\<forall>i j. i < stripes_num g \<and> j < stripes_num g \<and> i \<noteq> j \<and> \<not> sel g2 i \<and> \<not> sel g2 j \<longrightarrow>
       rs_m (g_params g) \<le> pair_cost g i j) \<and>
    matching_ok g3 \<and> cheaper g3 g4 \<and> search_result g g4"
proof -
  from built_inv [OF wf fr m st] obtain g1 where
    b: "build_map g = Some g1" "search_inv g1 0 {} {} g1" "remaining_ok g1" "same_config g g1"
      "blocks_to_sent g1 = []" by blast
  have p1: "g_params g1 = g_params g" using same_config_length(4) [OF b(4)] .
  from search_levels_total [OF b(2,3)] m p1 obtain g2 c where
    s: "search_levels [0..<rs_m (g_params g1)] g1 = Some g2" "search_inv g1 c {} {} g2"
      "remaining_ok g2" "c = rs_m (g_params g) \<or> free_stripes g2 = {}" by auto
  have p2: "g_params g2 = g_params g" using search_inv_params [OF s(2)] p1 by simp
  have cfg2: "same_config g g2" using same_config_trans [OF b(4) search_invD(2) [OF s(2)]] .
  have low: "rs_m (g_params g) \<le> pair_cost g i j"
    if ij: "i < stripes_num g" "j < stripes_num g" "i \<noteq> j" "\<not> sel g2 i" "\<not> sel g2 j" for i j
  proof -
    have n: "stripes_num g2 = stripes_num g" using same_config_length(2) [OF cfg2] .
    then have "free_stripes g2 \<noteq> {}" using ij by auto
    with s(4) have "c = rs_m (g_params g)" by blast
    with search_invD(9) [OF s(2)] ij n have "rs_m (g_params g) \<le> pair_cost g2 i j"
      by (simp add: level_ok_def)
    then show ?thesis
      using same_config_pair_cost [OF cfg2] ij wf_gen_length [OF wf] by simp
  qed
  obtain t g3 where g: "if remaining_stripes g2 = [] then g3 = g2
      else basic_greedy g2 True = Some (Inr (t, g3))" "greedy_result g2 g3"
  proof (cases "remaining_stripes g2 = []")
    case True
    then have "free_stripes g2 = {}" using s(3) by (auto simp: remaining_ok_def)
    with greedy_result_refl [OF s(2)] that True show ?thesis by simp
  next
    case False
    have "greedy_ready g2 True" using remaining_ready [OF s(2,3)] nodes p2 by simp
    from basic_greedy_total [OF this] that False show ?thesis by auto
  qed
  note c = greedy_completes [OF s(2) g(2)]
  from make_optimization_total [OF c(1)] obtain g4 where
    o: "make_optimization g3 = Some g4" "opt_inv g3 [] g4" by blast
  have i: "wf_gen g4" "same_config g3 g4" "matching_ok g4" "cheaper g3 g4"
    "blocks_to_sent g4 = blocks_to_sent g3" using o(2) by (simp_all add: opt_inv_def)
  have w3: "wf_gen g3" "matching_ok g3" using c(1) by (simp_all add: opt_inv_def)
  have "stable_pairs g4" using cheaper_stable [OF i(4) c(2) w3(1) i(2)] .
  moreover have "free_stripes g4 = free_stripes g3" using i(4) by (auto simp: cheaper_def)
  moreover have "same_config g g4"
    using same_config_trans [OF b(4) same_config_trans [OF c(4) i(2)]] .
  ultimately have "search_result g g4" using i c(3,5) b(5) by (simp add: search_result_def)
  moreover have "search_phases g g1 g2 g3 g4"
    using b(1) s(1) g(1) o(1) by (auto simp: search_phases_def split: if_splits)
  ultimately show ?thesis using low i(4) w3(2) by blast
qed

lemma dist_based_search_phases:
  assumes "search_phases g g1 g2 g3 g4"
    and "2 * rs_k (g_params g) + rs_m (g_params g) \<le> node_num (g_params g)"
  shows "dist_based_search g = Some (Inr g4)"
  using assms by (auto simp: search_phases_def dist_based_search_def split: if_splits)

lemma dist_based_search_total:
  assumes "wf_gen g" and "fresh_gen g" and "rs_m (g_params g) \<le> 7" and "static_ok g"
    and "2 * rs_k (g_params g) + rs_m (g_params g) \<le> node_num (g_params g)"
  shows "\<exists>g'. dist_based_search g = Some (Inr g') \<and> search_result g g'"
  using search_phases_total [OF assms] dist_based_search_phases [OF _ assms(5)] by blast

section \<open>Properties\<close>

lemma loaded_ready:
  assumes "good_input nodes k m pls" and "m \<le> 7"
  shows "\<exists>g. load_generator None None nodes k m pls = Some g \<and> wf_gen g \<and> fresh_gen g \<and>
    stripes_num g = length pls \<and> g_params g = set_params nodes k m \<and> rs_m (g_params g) \<le> 7 \<and>
    static_ok g \<and> 2 * rs_k (g_params g) + rs_m (g_params g) \<le> node_num (g_params g)"
  using load_generator_total [OF assms(1), of None None] assms
  by (auto simp: set_params_def static_ok_def good_input_def)



text \<open>C16. The levels of StripeMerge-P are exhaustive: when they are done, two stripes that are
  both still free cannot be merged at a cost below \<open>m\<close>. (This rests on the index and on the
  walk over the masks finding every candidate.)\<close>

theorem search_levels_exhaustive:
  assumes "good_input nodes k m pls" and "m \<le> 7"
  shows "\<exists>g g1 g2. load_generator None None nodes k m pls = Some g \<and> build_map g = Some g1 \<and>
    search_levels [0..<m] g1 = Some g2 \<and>
    (\<forall>i j. i < length pls \<and> j < length pls \<and> i \<noteq> j \<and> \<not> sel g2 i \<and> \<not> sel g2 j \<longrightarrow>
       m \<le> pair_cost g i j)"
proof -
  from loaded_ready [OF assms] obtain g where
    g: "load_generator None None nodes k m pls = Some g" "wf_gen g" "fresh_gen g"
      "stripes_num g = length pls" "rs_m (g_params g) \<le> 7" "static_ok g"
      "2 * rs_k (g_params g) + rs_m (g_params g) \<le> node_num (g_params g)"
      "g_params g = set_params nodes k m" by blast
  from search_phases_total [OF g(2,3,5,6,7)] obtain g1 g2 g3 g4 where
    p: "search_phases g g1 g2 g3 g4"
    "\<forall>i j. i < stripes_num g \<and> j < stripes_num g \<and> i \<noteq> j \<and> \<not> sel g2 i \<and> \<not> sel g2 j \<longrightarrow>
       rs_m (g_params g) \<le> pair_cost g i j" by blast
  obtain h where "build_map g = Some h" "same_config g h" using built_inv [OF g(2,3,5,6)] by blast
  with p(1) have "build_map g = Some g1" "rs_m (g_params g1) = m"
    using same_config_length(4) [of g g1] g(8) by (simp_all add: search_phases_def set_params_def)
  with p g show ?thesis by (auto simp: search_phases_def set_params_def)
qed

theorem search_levels_exhaustive_witness:
  "\<exists>g g1 g2. load_generator None None 6 1 2 [([0], [1, 2]), ([3], [1, 4])] = Some g \<and>
    build_map g = Some g1 \<and> search_levels [0..<2] g1 = Some g2"
  using search_levels_exhaustive [of 6 1 2 "[([0], [1, 2]), ([3], [1, 4])]"]
  by (auto simp: good_input_def valid_placement_def)

text \<open>C17. In a run of StripeMerge-P, \<open>make_optimization\<close> returns, keeps every stripe matched that
  was, and leaves no stripe in a dearer pair than before; so the cost of the matching does not
  grow, and the pairs are still true pairs.\<close>

theorem make_optimization_never_dearer:
  assumes "good_input nodes k m pls" and "m \<le> 7"
  shows "\<exists>g g1 g2 g3 g4. load_generator None None nodes k m pls = Some g \<and>
    search_phases g g1 g2 g3 g4 \<and> make_optimization g3 = Some g4 \<and> matching_ok g4 \<and>
    (\<forall>x < length pls. sel g4 x = sel g3 x \<and> scost g4 x \<le> scost g3 x) \<and>
    matching_cost g4 \<le> matching_cost g3"
proof -
  from loaded_ready [OF assms] obtain g where
    g: "load_generator None None nodes k m pls = Some g" "wf_gen g" "fresh_gen g"
      "stripes_num g = length pls" "rs_m (g_params g) \<le> 7" "static_ok g"
      "2 * rs_k (g_params g) + rs_m (g_params g) \<le> node_num (g_params g)" by blast
  from search_phases_total [OF g(2,3,5,6,7)] obtain g1 g2 g3 g4 where
    p: "search_phases g g1 g2 g3 g4" "matching_ok g3" "cheaper g3 g4" "search_result g g4" by blast
  have "matching_ok g4" "stripes_num g4 = length pls"
    using p(4) g(4) same_config_length(2) [of g g4] by (simp_all add: search_result_def)
  then have c: "\<forall>x < length pls. sel g4 x = sel g3 x \<and> scost g4 x \<le> scost g3 x" "matching_ok g4"
    using p(3) by (simp_all add: cheaper_def)
  have "make_optimization g3 = Some g4" using p(1) by (simp add: search_phases_def)
  with g(1) p(1) c cheaper_cost [OF p(3,2) c(2)] show ?thesis by blast
qed

theorem make_optimization_never_dearer_witness:
  "\<exists>g g1 g2 g3 g4. load_generator None None 6 1 2 [([0], [1, 2]), ([3], [1, 4])] = Some g \<and>
    search_phases g g1 g2 g3 g4 \<and> matching_cost g4 \<le> matching_cost g3"
proof -
  have "good_input 6 1 2 [([0], [1, 2]), ([3], [1, 4])]"
    by (simp add: good_input_def valid_placement_def)
  from make_optimization_never_dearer [OF this] show ?thesis by auto blast
qed

end
