(* ===== verification/Scheme.thy ===== *)
theory Scheme
  imports Optimization
begin

text \<open>
  From a matching to block transfers: \<open>get_one_scheme\<close> and \<open>get_sending_scheme\<close> of
  \<open>MatchingGenerator\<close> (src/matching_generator.cc).

  \<open>pair_tasks\<close> is the list of transfers one pair needs, in closed form: one per misaligned
  parity chunk, and one per chunk in excess of the first on its node. The code's loops
  produce exactly this list; its length is the cost of the pair.
\<close>

section \<open>Operations\<close>

text \<open>\<open>++host_blocks_num[h]\<close> on an array of 8-bit counters.\<close>

definition bump :: "nat list \<Rightarrow> nat \<Rightarrow> nat list option" where
  "bump host h = do { v \<leftarrow> aget host h; aset host h (wrap8 (v + 1)) }"

definition count_data :: "stripe \<Rightarrow> stripe \<Rightarrow> nat list \<Rightarrow> nat \<Rightarrow> nat list option" where
  "count_data a b host i = do {
     x \<leftarrow> sget (data_dist a) i;
     host1 \<leftarrow> bump host x;
     y \<leftarrow> sget (data_dist b) i;
     bump host1 y
   }"

definition place_parity ::
  "stripe \<Rightarrow> stripe \<Rightarrow> nat list \<times> migration list \<Rightarrow> nat \<Rightarrow> (nat list \<times> migration list) option" where
  "place_parity a b st i = (case st of (host, out) \<Rightarrow> do {
     x \<leftarrow> sget (parity_dist a) i;
     y \<leftarrow> sget (parity_dist b) i;
     (dest, out') \<leftarrow> (if x = y then Some (x, out)
       else do {
         c \<leftarrow> aget host x;
         if c = 0 then Some (x, out @ [new_migration (y + 1) (x + 1) (i + 1)])
         else Some (y, out @ [new_migration (x + 1) (y + 1) (i + 1)])
       });
     host' \<leftarrow> bump host dest;
     Some (host', out')
   })"

text \<open>The scan of the nodes into \<open>remain_nodes\<close> and \<open>available_nodes\<close>.\<close>

definition split_nodes :: "nat list \<Rightarrow> nat \<Rightarrow> (nat list \<times> nat list) option" where
  "split_nodes host nodes = foldM (\<lambda>(rem, avail) i. do {
     c \<leftarrow> aget host i;
     Some (if 1 < c then (rem @ [i], avail) else if c = 0 then (rem, avail @ [i]) else (rem, avail))
   }) ([], []) [0..<nodes]"

text \<open>
  The loops that move the excess blocks: the target is read at the front of the deque, the
  element removed is the one at its back.
\<close>

fun move_out :: "nat \<Rightarrow> nat \<Rightarrow> nat list \<times> nat list \<times> migration list \<Rightarrow>
    (nat list \<times> nat list \<times> migration list) option" where
  "move_out i 0 st = Some st"
| "move_out i (Suc j) (host, avail, out) =
     (if avail = [] then Some (host, avail, out)
      else do {
        host' \<leftarrow> bump host (hd avail);
        move_out i j (host', butlast avail, out @ [new_migration (i + 1) (hd avail + 1) 0])
      })"

fun drain :: "nat list \<Rightarrow> nat list \<times> nat list \<times> migration list \<Rightarrow>
    (nat list \<times> nat list \<times> migration list) option" where
  "drain [] st = Some st"
| "drain (i # is) (host, avail, out) = do {
     c \<leftarrow> aget host i;
     st \<leftarrow> move_out i (wrap8 (c - 1)) (host, avail, out);
     drain is st
   }"

definition get_one_scheme :: "(nat \<Rightarrow> nat list \<Rightarrow> nat list) \<Rightarrow> generator \<Rightarrow> nat \<Rightarrow> generator option" where
  "get_one_scheme shuf g index = do {
     a \<leftarrow> aget (stripes g) index;
     b \<leftarrow> aget (stripes g) (matching_index a);
     host1 \<leftarrow> foldM (count_data a b) (replicate (node_num (g_params g)) 0) [0..<rs_k (g_params g)];
     (host2, out2) \<leftarrow> foldM (place_parity a b) (host1, blocks_to_sent g) [0..<rs_m (g_params g)];
     (rem, avail) \<leftarrow> split_nodes host2 (node_num (g_params g));
     (host3, avail3, out3) \<leftarrow> drain rem (host2, shuf index avail, out2);
     Some (g\<lparr>blocks_to_sent := out3\<rparr>)
   }"

definition scheme_step ::
  "(nat \<Rightarrow> nat list \<Rightarrow> nat list) \<Rightarrow> bool list \<times> generator \<Rightarrow> nat \<Rightarrow> (bool list \<times> generator) option" where
  "scheme_step shuf st i = (case st of (flag, g) \<Rightarrow> do {
     fi \<leftarrow> aget flag i;
     if fi then Some (flag, g)
     else do {
       s \<leftarrow> aget (stripes g) i;
       fm \<leftarrow> aget flag (matching_index s);
       if fm then Some (flag, g)
       else do {
         flag1 \<leftarrow> aset flag i True;
         flag2 \<leftarrow> aset flag1 (matching_index s) True;
         if cur_cost s \<noteq> 0 then do { g' \<leftarrow> get_one_scheme shuf g i; Some (flag2, g') }
         else Some (flag2, g)
       }
     }
   })"

definition get_sending_scheme ::
  "(nat \<Rightarrow> nat list \<Rightarrow> nat list) \<Rightarrow> generator \<Rightarrow> (migration list \<times> generator) option" where
  "get_sending_scheme shuf g =
     (if blocks_to_sent g = [] then do {
        (flag, g') \<leftarrow> foldM (scheme_step shuf) (replicate (stripes_num g) False, g) [0..<stripes_num g];
        Some (blocks_to_sent g', g')
      } else Some (blocks_to_sent g, g))"

section \<open>The transfers of a pair\<close>

text \<open>Where the parity chunks go (\<open>merged_hosts\<close> collects the same nodes), and their transfers.\<close>

fun parity_dests :: "nat set \<Rightarrow> (nat \<times> nat) list \<Rightarrow> nat list" where
  "parity_dests F [] = []"
| "parity_dests F ((x, y) # r) =
     (let d = (if x \<noteq> y \<and> x \<in> F then y else x) in d # parity_dests (insert d F) r)"

fun parity_tasks :: "nat set \<Rightarrow> nat \<Rightarrow> (nat \<times> nat) list \<Rightarrow> migration list" where
  "parity_tasks F i [] = []"
| "parity_tasks F i ((x, y) # r) =
     (if x = y then parity_tasks (insert x F) (Suc i) r
      else if x \<in> F then new_migration (x + 1) (y + 1) (i + 1) # parity_tasks (insert y F) (Suc i) r
      else new_migration (y + 1) (x + 1) (i + 1) # parity_tasks (insert x F) (Suc i) r)"

text \<open>How many chunks a node holds after the merge.\<close>

definition merged_chunks :: "stripe \<Rightarrow> stripe \<Rightarrow> nat list" where
  "merged_chunks a b = data_dist a @ data_dist b @ parity_dests (data_hosts a b) (parity_pairs a b)"

definition load :: "stripe \<Rightarrow> stripe \<Rightarrow> nat \<Rightarrow> nat" where
  "load a b h = count_list (merged_chunks a b) h"

definition spare_nodes :: "nat \<Rightarrow> stripe \<Rightarrow> stripe \<Rightarrow> nat list" where
  "spare_nodes nodes a b = filter (\<lambda>h. load a b h = 0) [0..<nodes]"

definition full_nodes :: "nat \<Rightarrow> stripe \<Rightarrow> stripe \<Rightarrow> nat list" where
  "full_nodes nodes a b = filter (\<lambda>h. 1 < load a b h) [0..<nodes]"

definition excess_tasks :: "nat \<Rightarrow> stripe \<Rightarrow> stripe \<Rightarrow> nat \<Rightarrow> migration list" where
  "excess_tasks nodes a b spare = concat (map (\<lambda>h.
     replicate (load a b h - 1) (new_migration (h + 1) (spare + 1) 0)) (full_nodes nodes a b))"

definition pair_tasks :: "(nat \<Rightarrow> nat list \<Rightarrow> nat list) \<Rightarrow> generator \<Rightarrow> nat \<Rightarrow> nat \<Rightarrow> migration list" where
  "pair_tasks shuf g i j = (let a = stripes g ! i; b = stripes g ! j; nodes = node_num (g_params g) in
     parity_tasks (data_hosts a b) 0 (parity_pairs a b) @
     excess_tasks nodes a b (hd (shuf i (spare_nodes nodes a b))))"

section \<open>Counting chunks\<close>

lemma set_parity_dests: "merged_hosts F r = F \<union> set (parity_dests F r)"
  by (induction F r rule: parity_dests.induct) (auto simp: Let_def)

lemma length_parity_dests [simp]: "length (parity_dests F r) = length r"
  by (induction F r rule: parity_dests.induct) (simp_all add: Let_def)

lemma length_parity_tasks [simp]: "length (parity_tasks F i r) = mismatches r"
  by (induction F i r rule: parity_tasks.induct) simp_all

lemma set_merged_chunks:
  "set (merged_chunks a b) = merged_hosts (data_hosts a b) (parity_pairs a b)"
  by (auto simp: merged_chunks_def data_hosts_def set_parity_dests)

lemma load_pos: "0 < load a b h \<longleftrightarrow> h \<in> set (merged_chunks a b)"
  unfolding load_def by (metis count_list_0_iff neq0_conv)

text \<open>Chunks beyond the first, summed over the nodes, are the chunks less the nodes in use.\<close>

lemma excess_sum:
  assumes "set xs \<subseteq> {..<n}"
  shows "(\<Sum>h \<leftarrow> filter (\<lambda>h. 1 < count_list xs h) [0..<n]. count_list xs h - 1) + card (set xs) = length xs"
proof -
  have "(\<Sum>h \<leftarrow> filter (\<lambda>h. 1 < count_list xs h) [0..<n]. count_list xs h - 1) =
      (\<Sum>h \<leftarrow> [0..<n]. count_list xs h - 1)"
    by (subst sum_list_map_filter') (auto intro!: arg_cong [of _ _ sum_list] map_cong)
  also have "\<dots> = (\<Sum>h < n. count_list xs h - 1)"
    by (simp add: sum_list_sum_nth atLeast0LessThan)
  also have "\<dots> = (\<Sum>h \<in> set xs. count_list xs h - 1)"
    using assms by (intro sum.mono_neutral_right) (auto simp: count_list_0_iff)
  finally have e: "(\<Sum>h \<leftarrow> filter (\<lambda>h. 1 < count_list xs h) [0..<n]. count_list xs h - 1) =
      (\<Sum>h \<in> set xs. count_list xs h - 1)" .
  have "(\<Sum>h \<in> set xs. count_list xs h - 1) + card (set xs) =
      (\<Sum>h \<in> set xs. (count_list xs h - 1) + 1)" by (simp add: sum_Suc)
  also have "\<dots> = (\<Sum>h \<in> set xs. count_list xs h)"
    by (intro sum.cong refl) (metis count_list_0_iff le_add_diff_inverse2 less_one not_le)
  also have "\<dots> = length xs" by (simp add: sum_count_set)
  finally show ?thesis using e by simp
qed

section \<open>The loops compute the transfers\<close>

text \<open>The counters of \<open>host_blocks_num\<close> against a list of chunks; none ever wraps.\<close>

definition counts :: "nat \<Rightarrow> nat list \<Rightarrow> nat list \<Rightarrow> bool" where
  "counts nodes xs host \<longleftrightarrow> length host = nodes \<and> (\<forall>h < nodes. host ! h = count_list xs h)"

lemma counts_nth: "counts nodes xs host \<Longrightarrow> h < nodes \<Longrightarrow> host ! h = count_list xs h"
  by (simp add: counts_def)

lemma bump_counts:
  assumes "counts nodes xs host" and "h < nodes" and "count_list xs h < 255"
  shows "\<exists>host'. bump host h = Some host' \<and> counts nodes (xs @ [h]) host'"
  using assms by (auto simp: bump_def counts_def wrap_simps nth_list_update)

text \<open>A node holds at most one chunk of each stripe, so few chunks in all.\<close>

lemma count_list_distinct: "distinct xs \<Longrightarrow> count_list xs h \<le> 1"
  by (induction xs) (auto simp: count_list_0_iff)

lemma count_list_le_length: "count_list xs h \<le> length xs"
  by (induction xs) auto

lemma count_data_le:
  assumes "valid_stripe p a" and "valid_stripe p b"
  shows "count_list (take i (data_dist a)) h + count_list (take j (data_dist b)) h \<le> min 2 (2 * rs_k p)"
proof -
  have d: "distinct (take i (data_dist a))" "distinct (take j (data_dist b))"
    using assms by (simp_all add: valid_stripe_def)
  have "count_list (take i (data_dist a)) h \<le> rs_k p" "count_list (take j (data_dist b)) h \<le> rs_k p"
    using count_list_le_length [of "take i (data_dist a)" h]
      count_list_le_length [of "take j (data_dist b)" h] assms
    by (simp_all add: valid_stripe_def)
  with count_list_distinct [OF d(1), of h] count_list_distinct [OF d(2), of h] show ?thesis by simp
qed

definition data_count_inv :: "stripe_params \<Rightarrow> stripe \<Rightarrow> stripe \<Rightarrow> nat \<Rightarrow> nat list \<Rightarrow> bool" where
  "data_count_inv p a b i host \<longleftrightarrow>
     counts (node_num p) (take i (data_dist a) @ take i (data_dist b)) host"

lemma counts_mset:
  assumes "counts n xs host" and "mset xs = mset ys"
  shows "counts n ys host"
proof -
  have "count_list xs h = count_list ys h" for h
    using assms(2) by (metis count_mset)
  with assms(1) show ?thesis by (simp add: counts_def)
qed

lemma count_data_total:
  assumes a: "valid_stripe p a" and b: "valid_stripe p b" and i: "i < rs_k p"
    and inv: "data_count_inv p a b i host"
  shows "\<exists>host'. count_data a b host i = Some host' \<and> data_count_inv p a b (Suc i) host'"
proof -
  let ?x = "data_dist a ! i" and ?y = "data_dist b ! i"
  let ?A = "take i (data_dist a)" and ?B = "take i (data_dist b)"
  have len: "i < length (data_dist a)" "i < length (data_dist b)"
    using a b i by (simp_all add: valid_stripe_lengths)
  have h: "?x < node_num p" "?y < node_num p" using a b i by (simp_all add: valid_stripe_hosts)
  have le: "count_list (?A @ ?B) z \<le> 2" for z using count_data_le [OF a b, of i z i] by simp
  from bump_counts [OF inv [unfolded data_count_inv_def] h(1)] le [of ?x] obtain host1 where
    h1: "bump host ?x = Some host1" "counts (node_num p) ((?A @ ?B) @ [?x]) host1" by auto
  have "count_list ((?A @ ?B) @ [?x]) ?y < 255" using le [of ?y] by auto
  from bump_counts [OF h1(2) h(2) this] obtain host2 where
    h2: "bump host1 ?y = Some host2" "counts (node_num p) (((?A @ ?B) @ [?x]) @ [?y]) host2" by auto
  have "mset (((?A @ ?B) @ [?x]) @ [?y]) = mset (take (Suc i) (data_dist a) @ take (Suc i) (data_dist b))"
    using len by (simp add: take_Suc_conv_app_nth)
  from counts_mset [OF h2(2) this] show ?thesis
    using h1(1) h2(1) len by (simp add: count_data_def data_count_inv_def)
qed

lemma parity_dests_snoc:
  "parity_dests F (r @ [(x, y)]) =
    parity_dests F r @ [if x \<noteq> y \<and> x \<in> F \<union> set (parity_dests F r) then y else x]"
  by (induction F r rule: parity_dests.induct) (auto simp: Let_def)

lemma parity_tasks_snoc:
  "parity_tasks F i (r @ [(x, y)]) = parity_tasks F i r @
    (if x = y then [] else if x \<in> F \<union> set (parity_dests F r)
     then [new_migration (x + 1) (y + 1) (i + length r + 1)]
     else [new_migration (y + 1) (x + 1) (i + length r + 1)])"
  by (induction F i r rule: parity_tasks.induct) (auto simp: Let_def)

definition place_inv ::
  "stripe_params \<Rightarrow> stripe \<Rightarrow> stripe \<Rightarrow> migration list \<Rightarrow> nat \<Rightarrow> nat list \<times> migration list \<Rightarrow> bool" where
  "place_inv p a b out0 i st \<longleftrightarrow> (case st of (host, out) \<Rightarrow>
     counts (node_num p) (data_dist a @ data_dist b @
       parity_dests (data_hosts a b) (take i (parity_pairs a b))) host \<and>
     out = out0 @ parity_tasks (data_hosts a b) 0 (take i (parity_pairs a b)))"

lemma place_parity_total:
  assumes pv: "valid_params p" and a: "valid_stripe p a" and b: "valid_stripe p b"
    and i: "i < rs_m p" and inv: "place_inv p a b out0 i st"
  shows "\<exists>st'. place_parity a b st i = Some st' \<and> place_inv p a b out0 (Suc i) st'"
proof -
  obtain host out where st: "st = (host, out)" by fastforce
  let ?x = "parity_dist a ! i" and ?y = "parity_dist b ! i" and ?F = "data_hosts a b"
  let ?r = "take i (parity_pairs a b)"
  let ?xs = "data_dist a @ data_dist b @ parity_dests ?F ?r"
  let ?d = "if ?x \<noteq> ?y \<and> ?x \<in> ?F \<union> set (parity_dests ?F ?r) then ?y else ?x"
  have len: "i < length (parity_dist a)" "i < length (parity_dist b)"
    using a b i by (simp_all add: valid_stripe_lengths)
  have h: "?x < node_num p" "?y < node_num p" using a b i by (simp_all add: valid_stripe_hosts)
  have c: "counts (node_num p) ?xs host" and out: "out = out0 @ parity_tasks ?F 0 ?r"
    using inv by (simp_all add: place_inv_def st)
  have r: "length ?r = i" using len by (simp add: parity_pairs_def)
  have snoc: "take (Suc i) (parity_pairs a b) = ?r @ [(?x, ?y)]"
    using len by (simp add: parity_pairs_def take_Suc_zip)
  have zero: "host ! ?x = 0 \<longleftrightarrow> ?x \<notin> ?F \<union> set (parity_dests ?F ?r)"
    using counts_nth [OF c h(1)] by (simp add: data_hosts_def count_list_0_iff)
  have "count_list ?xs z < 255" for z
  proof -
    have "count_list (parity_dests ?F ?r) z \<le> i"
      using count_list_le_length [of "parity_dests ?F ?r" z] r by simp
    moreover have "count_list (data_dist a) z + count_list (data_dist b) z \<le> min 2 (2 * rs_k p)"
      using count_data_le [OF a b, of "rs_k p" z "rs_k p"] a b by (simp add: valid_stripe_lengths)
    ultimately show ?thesis using i pv by (auto simp: valid_params_def min_def split: if_splits)
  qed
  moreover have "?d < node_num p" using h by simp
  ultimately obtain host' where
    b': "bump host ?d = Some host'" "counts (node_num p) (?xs @ [?d]) host'"
    using bump_counts [OF c] by blast
  let ?out = "out0 @ parity_tasks ?F 0 (take (Suc i) (parity_pairs a b))"
  have "place_parity a b st i = Some (host', ?out)"
    using b'(1) len h(1) c zero unfolding snoc parity_tasks_snoc r st
    by (auto simp: place_parity_def out counts_def)
  moreover have "place_inv p a b out0 (Suc i) (host', ?out)"
    using b'(2) unfolding place_inv_def snoc parity_dests_snoc by simp
  ultimately show ?thesis by blast
qed

lemma split_nodes_total:
  assumes "counts nodes xs host"
  shows "split_nodes host nodes = Some (filter (\<lambda>h. 1 < count_list xs h) [0..<nodes],
    filter (\<lambda>h. count_list xs h = 0) [0..<nodes])"
proof -
  let ?f = "\<lambda>(rem, avail) i. do {
     c \<leftarrow> aget host i;
     Some (if 1 < c then (rem @ [i], avail) else if c = 0 then (rem, avail @ [i]) else (rem, avail))
   }"
  let ?I = "\<lambda>i st. st = (filter (\<lambda>h. 1 < count_list xs h) [0..<i],
    filter (\<lambda>h. count_list xs h = 0) [0..<i])"
  have "\<exists>st. foldM ?f ([], []) [0..<nodes] = Some st \<and> ?I nodes st"
  proof (rule foldM_upt [where I = ?I])
    fix i st assume "i < nodes" and st: "?I i st"
    then have "aget host i = Some (count_list xs i)" using assms by (simp add: counts_def)
    then show "\<exists>st'. ?f st i = Some st' \<and> ?I (Suc i) st'" unfolding st by (simp add: upt_Suc)
  qed simp_all
  then show ?thesis by (simp add: split_nodes_def)
qed

text \<open>Moving the excess: every target is the node at the front.\<close>

lemma move_out_total:
  assumes "j \<le> length avail" and "\<forall>h \<in> set avail. h < length host"
  shows "\<exists>host' avail'. move_out i j (host, avail, out) = Some (host', avail',
      out @ replicate j (new_migration (i + 1) (hd avail + 1) 0)) \<and>
    length host' = length host \<and> (\<forall>h. h \<notin> set avail \<longrightarrow> host' ! h = host ! h) \<and>
    avail' = take (length avail - j) avail"
  using assms
proof (induction j arbitrary: host avail out)
  case 0
  then show ?case by simp
next
  case (Suc j)
  then have ne: "avail \<noteq> []" by auto
  let ?t = "hd avail" and ?m = "new_migration (i + 1) (hd avail + 1) 0"
  have t: "?t < length host" "?t \<in> set avail" using Suc.prems ne by simp_all
  let ?host = "host[?t := wrap8 (host ! ?t + 1)]"
  have b: "bump host ?t = Some ?host" using t by (simp add: bump_def)
  have "j \<le> length (butlast avail)" "\<forall>h \<in> set (butlast avail). h < length ?host"
    using Suc.prems in_set_butlastD [of _ avail] by auto
  from Suc.IH [OF this, of "out @ [?m]"] obtain host' where
    r: "move_out i j (?host, butlast avail, out @ [?m]) = Some (host',
        take (length (butlast avail) - j) (butlast avail),
        (out @ [?m]) @ replicate j (new_migration (i + 1) (hd (butlast avail) + 1) 0))"
      "length host' = length ?host" "\<forall>h. h \<notin> set (butlast avail) \<longrightarrow> host' ! h = ?host ! h" by blast
  have hd: "j \<noteq> 0 \<Longrightarrow> hd (butlast avail) = ?t"
    using Suc.prems ne by (cases avail) auto
  have rep: "(out @ [?m]) @ replicate j (new_migration (i + 1) (hd (butlast avail) + 1) 0) =
      out @ replicate (Suc j) ?m"
    using hd by (cases "j = 0") auto
  have tk: "take (length (butlast avail) - j) (butlast avail) = take (length avail - Suc j) avail"
    by (simp add: butlast_conv_take)
  have "host' ! h = host ! h" if "h \<notin> set avail" for h
  proof -
    have "h \<notin> set (butlast avail)" "h \<noteq> ?t" using that t(2) in_set_butlastD [of h avail] by auto
    then show ?thesis using r(3) by simp
  qed
  moreover have "move_out i (Suc j) (host, avail, out) = Some (host', take (length avail - Suc j) avail,
      out @ replicate (Suc j) ?m)"
    using ne b r(1) unfolding rep tk by simp
  ultimately show ?case using r(2) by auto
qed

lemma drain_total:
  assumes "set rs \<inter> set avail = {}" and "\<forall>h \<in> set rs. h < length host \<and> 1 < host ! h \<and> host ! h < 256"
    and "\<forall>h \<in> set avail. h < length host" and "(\<Sum>h \<leftarrow> rs. host ! h - 1) \<le> length avail"
  shows "\<exists>host' avail'. drain rs (host, avail, out) = Some (host', avail',
    out @ concat (map (\<lambda>h. replicate (host ! h - 1) (new_migration (h + 1) (hd avail + 1) 0)) rs))"
  using assms
proof (induction rs arbitrary: host avail out)
  case Nil
  then show ?case by simp
next
  case (Cons i rs)
  let ?j = "host ! i - 1"
  have "host ! i < 256" using Cons.prems(2) by simp
  then have j: "wrap8 ?j = ?j" by (intro wrap8_small) simp
  have "?j \<le> length avail" using Cons.prems(4) by simp
  from move_out_total [OF this Cons.prems(3), of i out] obtain host1 where
    m: "move_out i ?j (host, avail, out) = Some (host1, take (length avail - ?j) avail,
        out @ replicate ?j (new_migration (i + 1) (hd avail + 1) 0))"
      "length host1 = length host" "\<forall>h. h \<notin> set avail \<longrightarrow> host1 ! h = host ! h" by blast
  let ?av = "take (length avail - ?j) avail"
  have same: "\<And>h. h \<in> set rs \<Longrightarrow> host1 ! h = host ! h" using m(3) Cons.prems(1) by auto
  have sub: "set ?av \<subseteq> set avail" by (rule set_take_subset)
  have "(\<Sum>h \<leftarrow> rs. host1 ! h - 1) = (\<Sum>h \<leftarrow> rs. host ! h - 1)"
    using same by (intro arg_cong [of _ _ sum_list] map_cong) auto
  then have "(\<Sum>h \<leftarrow> rs. host1 ! h - 1) \<le> length ?av" using Cons.prems(4) by simp
  moreover have "set rs \<inter> set ?av = {}" "\<forall>h \<in> set ?av. h < length host1"
    "\<forall>h \<in> set rs. h < length host1 \<and> 1 < host1 ! h \<and> host1 ! h < 256"
    using Cons.prems sub m(2) same by auto
  ultimately obtain host2 av2 where
    d: "drain rs (host1, ?av, out @ replicate ?j (new_migration (i + 1) (hd avail + 1) 0)) =
      Some (host2, av2, (out @ replicate ?j (new_migration (i + 1) (hd avail + 1) 0)) @
        concat (map (\<lambda>h. replicate (host1 ! h - 1) (new_migration (h + 1) (hd ?av + 1) 0)) rs))"
    using Cons.IH by blast
  have "replicate (host1 ! h - 1) (new_migration (h + 1) (hd ?av + 1) 0) =
      replicate (host ! h - 1) (new_migration (h + 1) (hd avail + 1) 0)" if "h \<in> set rs" for h
  proof -
    have "host ! h - 1 \<le> (\<Sum>h \<leftarrow> rs. host ! h - 1)" using that by (intro member_le_sum_list) auto
    moreover have "1 < host ! h" using Cons.prems(2) that by simp
    moreover have "(host ! i - 1) + (\<Sum>h \<leftarrow> rs. host ! h - 1) \<le> length avail" using Cons.prems(4) by simp
    ultimately have "0 < length avail - ?j" by linarith
    then have "hd ?av = hd avail" by (cases avail) (auto simp: take_Cons split: nat.splits)
    with same [OF that] show ?thesis by simp
  qed
  then have eq: "map (\<lambda>h. replicate (host1 ! h - 1) (new_migration (h + 1) (hd ?av + 1) 0)) rs =
      map (\<lambda>h. replicate (host ! h - 1) (new_migration (h + 1) (hd avail + 1) 0)) rs"
    by (rule map_cong [OF refl])
  show ?case using d [unfolded eq] m(1) j Cons.prems(2) by simp
qed

lemma merged_load_bound:
  assumes pv: "valid_params p" and a: "valid_stripe p a" and b: "valid_stripe p b"
  shows "load a b h < 256"
proof -
  have "count_list (parity_dests (data_hosts a b) (parity_pairs a b)) h \<le> rs_m p"
    using count_list_le_length [of "parity_dests (data_hosts a b) (parity_pairs a b)" h] a b
    by (simp add: parity_pairs_nth)
  moreover have "count_list (data_dist a) h + count_list (data_dist b) h \<le> min 2 (2 * rs_k p)"
    using count_data_le [OF a b, of "rs_k p" h "rs_k p"] a b by (simp add: valid_stripe_lengths)
  ultimately show ?thesis
    using pv by (auto simp: load_def merged_chunks_def valid_params_def min_def split: if_splits)
qed

lemma merged_chunks_bounds:
  assumes a: "valid_stripe p a" and b: "valid_stripe p b"
  shows "set (merged_chunks a b) \<subseteq> {..<node_num p}" and "length (merged_chunks a b) = 2 * rs_k p + rs_m p"
proof -
  have "set (parity_dests F r) \<subseteq> fst ` set r \<union> snd ` set r" for F r
    by (induction F r rule: parity_dests.induct) (auto simp: Let_def)
  moreover have "fst ` set (parity_pairs a b) \<union> snd ` set (parity_pairs a b) \<subseteq> {..<node_num p}"
    using a b by (auto simp: parity_pairs_def valid_stripe_def dest: set_zip_leftD set_zip_rightD)
  ultimately have "set (parity_dests (data_hosts a b) (parity_pairs a b)) \<subseteq> {..<node_num p}" by blast
  then show "set (merged_chunks a b) \<subseteq> {..<node_num p}"
    using a b by (auto simp: merged_chunks_def valid_stripe_def)
  show "length (merged_chunks a b) = 2 * rs_k p + rs_m p"
    using a b by (simp add: merged_chunks_def valid_stripe_lengths parity_pairs_nth)
qed

lemma excess_and_spare:
  assumes a: "valid_stripe p a" and b: "valid_stripe p b" and n: "2 * rs_k p + rs_m p \<le> node_num p"
  shows "(\<Sum>h \<leftarrow> full_nodes (node_num p) a b. load a b h - 1) =
      2 * rs_k p + rs_m p - card (merged_hosts (data_hosts a b) (parity_pairs a b))"
    and "(\<Sum>h \<leftarrow> full_nodes (node_num p) a b. load a b h - 1) \<le> length (spare_nodes (node_num p) a b)"
proof -
  let ?xs = "merged_chunks a b" and ?n = "node_num p"
  note bd = merged_chunks_bounds [OF a b]
  have e: "(\<Sum>h \<leftarrow> full_nodes ?n a b. load a b h - 1) + card (set ?xs) = 2 * rs_k p + rs_m p"
    using excess_sum [OF bd(1)] bd(2) by (simp add: full_nodes_def load_def)
  then show "(\<Sum>h \<leftarrow> full_nodes ?n a b. load a b h - 1) =
      2 * rs_k p + rs_m p - card (merged_hosts (data_hosts a b) (parity_pairs a b))"
    by (simp add: set_merged_chunks)
  have "length (spare_nodes ?n a b) = card (set (spare_nodes ?n a b))"
    by (rule distinct_card [symmetric]) (simp add: spare_nodes_def)
  also have "set (spare_nodes ?n a b) = {..<?n} - set ?xs"
    by (auto simp: spare_nodes_def load_pos [symmetric])
  also have "card ({..<?n} - set ?xs) = ?n - card (set ?xs)"
    using bd(1) by (simp add: card_Diff_subset)
  finally show "(\<Sum>h \<leftarrow> full_nodes ?n a b. load a b h - 1) \<le> length (spare_nodes ?n a b)"
    using e n by simp
qed

text \<open>\<open>get_one_scheme\<close> appends exactly \<open>pair_tasks\<close>, and there are as many as the pair costs.\<close>

lemma get_one_scheme_total:
  assumes wf: "wf_gen g" and i: "i < stripes_num g" and j: "mate g i = j" "j < stripes_num g" "i < j"
    and n: "2 * rs_k (g_params g) + rs_m (g_params g) \<le> node_num (g_params g)"
    and shuf: "\<And>i xs. mset (shuf i xs) = mset xs"
  shows "get_one_scheme shuf g i = Some (g\<lparr>blocks_to_sent := blocks_to_sent g @ pair_tasks shuf g i j\<rparr>)"
    and "length (pair_tasks shuf g i j) = pair_cost g i j"
proof -
  let ?p = "g_params g"
  let ?a = "stripes g ! i" and ?b = "stripes g ! j"
  let ?F = "data_hosts ?a ?b" and ?n = "node_num (g_params g)"
  have pv: "valid_params ?p" and a: "valid_stripe ?p ?a" and b: "valid_stripe ?p ?b"
    using wf i j by (simp_all add: wf_gen_def wf_config_def)
  note len = wf_gen_length [OF wf]
  have "data_count_inv ?p ?a ?b 0 (replicate ?n 0)" by (simp add: data_count_inv_def counts_def)
  then obtain host1 where h1: "foldM (count_data ?a ?b) (replicate ?n 0) [0..<rs_k ?p] = Some host1"
      "data_count_inv ?p ?a ?b (rs_k ?p) host1"
    using foldM_upt [of 0 "rs_k ?p" "data_count_inv ?p ?a ?b" _ "count_data ?a ?b"]
      count_data_total [OF a b] by blast
  have "place_inv ?p ?a ?b (blocks_to_sent g) 0 (host1, blocks_to_sent g)"
    using h1(2) a b by (simp add: place_inv_def data_count_inv_def valid_stripe_lengths)
  then obtain st where h2: "foldM (place_parity ?a ?b) (host1, blocks_to_sent g) [0..<rs_m ?p] = Some st"
      "place_inv ?p ?a ?b (blocks_to_sent g) (rs_m ?p) st"
    using foldM_upt [of 0 "rs_m ?p" "place_inv ?p ?a ?b (blocks_to_sent g)" _ "place_parity ?a ?b"]
      place_parity_total [OF pv a b] by blast
  obtain host2 out2 where st: "st = (host2, out2)" by fastforce
  have "take (rs_m ?p) (parity_pairs ?a ?b) = parity_pairs ?a ?b"
    using a b by (simp add: parity_pairs_nth)
  then have c: "counts ?n (merged_chunks ?a ?b) host2"
    and out: "out2 = blocks_to_sent g @ parity_tasks ?F 0 (parity_pairs ?a ?b)"
    using h2(2) by (simp_all add: place_inv_def st merged_chunks_def)
  have sp: "split_nodes host2 ?n = Some (full_nodes ?n ?a ?b, spare_nodes ?n ?a ?b)"
    using split_nodes_total [OF c] by (simp add: full_nodes_def spare_nodes_def load_def)
  let ?av = "shuf i (spare_nodes ?n ?a ?b)"
  have av: "length ?av = length (spare_nodes ?n ?a ?b)" "set ?av = set (spare_nodes ?n ?a ?b)"
    using mset_eq_length [OF shuf] mset_eq_setD [OF shuf] by blast+
  have host: "host2 ! h = load ?a ?b h" if "h < ?n" for h
    using counts_nth [OF c that] by (simp add: load_def)
  have l2: "length host2 = ?n" using c by (simp add: counts_def)
  have full: "\<And>h. h \<in> set (full_nodes ?n ?a ?b) \<Longrightarrow> h < ?n \<and> 1 < load ?a ?b h"
    and spare: "\<And>h. h \<in> set ?av \<Longrightarrow> h < ?n \<and> load ?a ?b h = 0"
    using av(2) by (simp_all add: full_nodes_def spare_nodes_def)
  have e: "(\<Sum>h \<leftarrow> full_nodes ?n ?a ?b. host2 ! h - 1) = (\<Sum>h \<leftarrow> full_nodes ?n ?a ?b. load ?a ?b h - 1)"
    using full host by (intro arg_cong [of _ _ sum_list] map_cong) auto
  have "(\<Sum>h \<leftarrow> full_nodes ?n ?a ?b. host2 ! h - 1) \<le> length ?av"
    unfolding e av(1) using excess_and_spare(2) [OF a b n] .
  moreover have "set (full_nodes ?n ?a ?b) \<inter> set ?av = {}" using full spare by fastforce
  moreover have "\<forall>h \<in> set (full_nodes ?n ?a ?b). h < length host2 \<and> 1 < host2 ! h \<and> host2 ! h < 256"
    using full host merged_load_bound [OF pv a b] l2 by auto
  moreover have "\<forall>h \<in> set ?av. h < length host2" using spare l2 by auto
  ultimately obtain host3 avail3 where
    d: "drain (full_nodes ?n ?a ?b) (host2, ?av, out2) = Some (host3, avail3, out2 @
      concat (map (\<lambda>h. replicate (host2 ! h - 1) (new_migration (h + 1) (hd ?av + 1) 0))
        (full_nodes ?n ?a ?b)))"
    using drain_total by blast
  have eq: "map (\<lambda>h. replicate (host2 ! h - 1) (new_migration (h + 1) (hd ?av + 1) 0)) (full_nodes ?n ?a ?b) =
      map (\<lambda>h. replicate (load ?a ?b h - 1) (new_migration (h + 1) (hd ?av + 1) 0)) (full_nodes ?n ?a ?b)"
    using full host by (intro map_cong) auto
  have d: "drain (full_nodes ?n ?a ?b) (host2, ?av, out2) = Some (host3, avail3,
      blocks_to_sent g @ pair_tasks shuf g i j)"
    using d unfolding eq out by (simp add: pair_tasks_def Let_def excess_tasks_def)
  show "get_one_scheme shuf g i = Some (g\<lparr>blocks_to_sent := blocks_to_sent g @ pair_tasks shuf g i j\<rparr>)"
    using h1(1) h2(1) st sp d i j len by (simp add: get_one_scheme_def)
  have "length (excess_tasks ?n ?a ?b t) = (\<Sum>h \<leftarrow> full_nodes ?n ?a ?b. load ?a ?b h - 1)" for t
    by (simp add: excess_tasks_def length_concat comp_def)
  then have "length (pair_tasks shuf g i j) = mismatches (parity_pairs ?a ?b) +
      (2 * rs_k ?p + rs_m ?p - card (merged_hosts ?F (parity_pairs ?a ?b)))"
    using excess_and_spare(1) [OF a b n] by (simp add: pair_tasks_def Let_def)
  then show "length (pair_tasks shuf g i j) = pair_cost g i j"
    using j(3) by (simp add: pair_cost_def merge_cost_def)
qed

section \<open>The scheme of a whole matching\<close>

definition scheme_upto :: "(nat \<Rightarrow> nat list \<Rightarrow> nat list) \<Rightarrow> generator \<Rightarrow> nat \<Rightarrow> migration list" where
  "scheme_upto shuf g k =
     concat (map (\<lambda>i. pair_tasks shuf g i (mate g i)) (filter (\<lambda>i. i < mate g i) [0..<k]))"

lemma scheme_upto_Suc:
  "scheme_upto shuf g (Suc k) =
    scheme_upto shuf g k @ (if k < mate g k then pair_tasks shuf g k (mate g k) else [])"
  by (simp add: scheme_upto_def upt_Suc)

lemma pair_tasks_blocks [simp]: "pair_tasks shuf (g\<lparr>blocks_to_sent := bs\<rparr>) i j = pair_tasks shuf g i j"
  by (simp add: pair_tasks_def)

lemma wf_gen_blocks [simp]: "wf_gen (g\<lparr>blocks_to_sent := bs\<rparr>) = wf_gen g"
  by (simp add: wf_gen_def wf_config_def wf_table_def pair_cost_def)

text \<open>A matched generator on a cluster that is large enough, with a proper shuffle.\<close>

definition scheme_ready :: "(nat \<Rightarrow> nat list \<Rightarrow> nat list) \<Rightarrow> generator \<Rightarrow> bool" where
  "scheme_ready shuf g \<longleftrightarrow> wf_gen g \<and> matching_ok g \<and> all_matched g \<and> blocks_to_sent g = [] \<and>
     2 * rs_k (g_params g) + rs_m (g_params g) \<le> node_num (g_params g) \<and>
     (\<forall>i xs. mset (shuf i xs) = mset xs)"

definition scheme_inv ::
  "(nat \<Rightarrow> nat list \<Rightarrow> nat list) \<Rightarrow> generator \<Rightarrow> nat \<Rightarrow> bool list \<times> generator \<Rightarrow> bool" where
  "scheme_inv shuf g0 i st \<longleftrightarrow> (case st of (flag, g) \<Rightarrow>
     length flag = stripes_num g0 \<and> (\<forall>x < stripes_num g0. flag ! x \<longleftrightarrow> x < i \<or> mate g0 x < i) \<and>
     g = g0\<lparr>blocks_to_sent := scheme_upto shuf g0 i\<rparr>)"

lemma scheme_step_total:
  assumes r: "scheme_ready shuf g0" and i: "i < stripes_num g0" and inv: "scheme_inv shuf g0 i st"
  shows "\<exists>st'. scheme_step shuf st i = Some st' \<and> scheme_inv shuf g0 (Suc i) st'"
proof -
  obtain flag g where st: "st = (flag, g)" by fastforce
  let ?n = "stripes_num g0" and ?m = "mate g0 i"
  have wf: "wf_gen g0" and ok: "matching_ok g0" and all: "all_matched g0"
    and nodes: "2 * rs_k (g_params g0) + rs_m (g_params g0) \<le> node_num (g_params g0)"
    and shuf: "\<And>i xs. mset (shuf i xs) = mset xs"
    using r by (simp_all add: scheme_ready_def)
  note len = wf_gen_length [OF wf]
  have mt: "mated g0 x (mate g0 x)" if "x < ?n" for x
    using matching_okD [OF ok] all that by (simp add: all_matched_def)
  note m = matedD [OF mt [OF i]]
  have fl: "length flag = ?n" "\<And>x. x < ?n \<Longrightarrow> flag ! x \<longleftrightarrow> x < i \<or> mate g0 x < i"
    and g: "g = g0\<lparr>blocks_to_sent := scheme_upto shuf g0 i\<rparr>"
    using inv by (simp_all add: scheme_inv_def st)
  have mate_eq: "mate g0 x = i \<longleftrightarrow> x = ?m" if "x < ?n" for x
    using matedD(7) [OF mt [OF that]] m(7) by metis
  have gl: "stripes g = stripes g0" by (simp add: g)
  show ?thesis
  proof (cases "?m < i")
    case True
    then have "flag ! i" using fl(2) [OF i] by simp
    then have "scheme_step shuf st i = Some (flag, g)"
      using i fl(1) by (simp add: scheme_step_def st)
    moreover have "scheme_inv shuf g0 (Suc i) (flag, g)"
      using fl g mate_eq True by (auto simp: scheme_inv_def scheme_upto_Suc less_Suc_eq)
    ultimately show ?thesis by blast
  next
    case False
    with m(3) have im: "i < ?m" by simp
    have nf: "\<not> flag ! i" "\<not> flag ! ?m" using fl(2) i m im by auto
    let ?flag = "flag[i := True, ?m := True]"
    let ?g = "g0\<lparr>blocks_to_sent := scheme_upto shuf g0 (Suc i)\<rparr>"
    have "get_one_scheme shuf g i = Some (g\<lparr>blocks_to_sent := blocks_to_sent g @ pair_tasks shuf g i ?m\<rparr>)"
      by (rule get_one_scheme_total(1)) (use wf i m im nodes shuf g in simp_all)
    then have one: "get_one_scheme shuf g i = Some ?g"
      using im by (simp add: g scheme_upto_Suc)
    have zero: "g = ?g" if "scost g0 i = 0"
    proof -
      have "length (pair_tasks shuf g0 i ?m) = pair_cost g0 i ?m"
        by (rule get_one_scheme_total(2)) (use wf i m im nodes shuf in simp_all)
      then have "pair_tasks shuf g0 i ?m = []" using that m(8) by simp
      then show ?thesis using im by (simp add: g scheme_upto_Suc)
    qed
    have "scheme_step shuf st i = Some (?flag, ?g)"
      using i fl(1) m len nf one zero by (auto simp: scheme_step_def st gl)
    moreover have "\<forall>x < ?n. ?flag ! x \<longleftrightarrow> x < Suc i \<or> mate g0 x < Suc i"
      using fl mate_eq i m by (auto simp: less_Suc_eq nth_list_update)
    then have "scheme_inv shuf g0 (Suc i) (?flag, ?g)"
      using fl(1) by (simp add: scheme_inv_def)
    ultimately show ?thesis by blast
  qed
qed

lemma get_sending_scheme_total:
  assumes r: "scheme_ready shuf g"
  shows "\<exists>g'. get_sending_scheme shuf g = Some (scheme_upto shuf g (stripes_num g), g')"
proof -
  have b: "blocks_to_sent g = []" using r by (simp add: scheme_ready_def)
  have "g\<lparr>blocks_to_sent := []\<rparr> = g" using b by (cases g) simp
  then have "scheme_inv shuf g 0 (replicate (stripes_num g) False, g)"
    by (simp add: scheme_inv_def scheme_upto_def)
  then obtain st where "foldM (scheme_step shuf) (replicate (stripes_num g) False, g) [0..<stripes_num g]
      = Some st" "scheme_inv shuf g (stripes_num g) st"
    using foldM_upt [of 0 "stripes_num g" "scheme_inv shuf g" _ "scheme_step shuf"]
      scheme_step_total [OF r] by blast
  then show ?thesis using b by (auto simp: get_sending_scheme_def scheme_inv_def)
qed

lemma scheme_length:
  assumes r: "scheme_ready shuf g"
  shows "length (scheme_upto shuf g (stripes_num g)) = matching_cost g"
proof -
  have wf: "wf_gen g" and ok: "matching_ok g" and all: "all_matched g"
    and nodes: "2 * rs_k (g_params g) + rs_m (g_params g) \<le> node_num (g_params g)"
    and shuf: "\<And>i xs. mset (shuf i xs) = mset xs"
    using r by (simp_all add: scheme_ready_def)
  let ?H = "filter (\<lambda>i. i < mate g i) [0..<stripes_num g]"
  have "length (pair_tasks shuf g i (mate g i)) = scost g i" if "i \<in> set ?H" for i
  proof -
    have i: "i < stripes_num g" "i < mate g i" using that by simp_all
    then have m: "mated g i (mate g i)" using matching_okD [OF ok] all by (simp add: all_matched_def)
    show ?thesis
      using get_one_scheme_total(2) [OF wf i(1) refl _ i(2) nodes shuf] matedD(2,8) [OF m] by simp
  qed
  then have "length (scheme_upto shuf g (stripes_num g)) = (\<Sum>i \<leftarrow> ?H. scost g i)"
    unfolding scheme_upto_def length_concat map_map comp_def
    by (intro arg_cong [of _ _ sum_list] map_cong refl) simp
  also have "\<dots> = (\<Sum>i \<in> set ?H. scost g i)"
    by (rule sum_list_distinct_conv_sum_set) simp
  also have "set ?H = pair_heads g" using all by (auto simp: pair_heads_def all_matched_def)
  finally show ?thesis by (simp add: matching_cost_def)
qed

section \<open>The transfers are proper\<close>

text \<open>
  A transfer between the two homes of a misaligned parity chunk, or one that takes an excess
  chunk off a node to the first spare node.
\<close>

definition parity_transfer :: "stripe \<Rightarrow> stripe \<Rightarrow> migration \<Rightarrow> bool" where
  "parity_transfer a b t \<longleftrightarrow> (\<exists>c < length (parity_dist a). parity_dist a ! c \<noteq> parity_dist b ! c \<and>
     coefficient t = Some (wrap8 (c + 1)) \<and>
     (source t = to_int16 (parity_dist b ! c + 1) \<and> target t = to_int16 (parity_dist a ! c + 1) \<or>
      source t = to_int16 (parity_dist a ! c + 1) \<and> target t = to_int16 (parity_dist b ! c + 1)))"

definition excess_transfer :: "nat \<Rightarrow> stripe \<Rightarrow> stripe \<Rightarrow> nat \<Rightarrow> migration \<Rightarrow> bool" where
  "excess_transfer nodes a b spare t \<longleftrightarrow> coefficient t = Some 0 \<and> spare < nodes \<and> load a b spare = 0 \<and>
     (\<exists>h < nodes. 1 < load a b h \<and> source t = to_int16 (h + 1)) \<and> target t = to_int16 (spare + 1)"

lemma parity_tasks_transfer:
  assumes "t \<in> set (parity_tasks F i r)"
  shows "\<exists>c < length r. fst (r ! c) \<noteq> snd (r ! c) \<and> coefficient t = Some (wrap8 (i + c + 1)) \<and>
    (source t = to_int16 (snd (r ! c) + 1) \<and> target t = to_int16 (fst (r ! c) + 1) \<or>
     source t = to_int16 (fst (r ! c) + 1) \<and> target t = to_int16 (snd (r ! c) + 1))"
  using assms
proof (induction F i r rule: parity_tasks.induct)
  case (1 F i)
  then show ?case by simp
next
  case (2 F i x y r)
  let ?P = "\<lambda>i r c. fst (r ! c) \<noteq> snd (r ! c) \<and> coefficient t = Some (wrap8 (i + c + 1)) \<and>
    (source t = to_int16 (snd (r ! c) + 1) \<and> target t = to_int16 (fst (r ! c) + 1) \<or>
     source t = to_int16 (fst (r ! c) + 1) \<and> target t = to_int16 (snd (r ! c) + 1))"
  have shift: ?case if "\<exists>c < length r. ?P (Suc i) r c"
  proof -
    from that obtain c where "c < length r" "?P (Suc i) r c" by blast
    then show ?thesis by (intro exI [of _ "Suc c"]) simp
  qed
  have here: ?case if "t = new_migration (x + 1) (y + 1) (i + 1) \<or> t = new_migration (y + 1) (x + 1) (i + 1)"
    "x \<noteq> y" using that by (intro exI [of _ 0]) auto
  show ?case
  proof (cases "x = y")
    case True
    then show ?thesis using 2 shift by simp
  next
    case False
    with 2 shift here show ?thesis by (auto split: if_splits)
  qed
qed

lemma pair_tasks_transfer:
  assumes wf: "wf_gen g" and i: "i < stripes_num g" and j: "j < stripes_num g"
    and n: "2 * rs_k (g_params g) + rs_m (g_params g) \<le> node_num (g_params g)"
    and shuf: "\<And>i xs. mset (shuf i xs) = mset xs" and t: "t \<in> set (pair_tasks shuf g i j)"
  shows "parity_transfer (stripes g ! i) (stripes g ! j) t \<or>
    excess_transfer (node_num (g_params g)) (stripes g ! i) (stripes g ! j)
      (hd (shuf i (spare_nodes (node_num (g_params g)) (stripes g ! i) (stripes g ! j)))) t"
proof -
  let ?p = "g_params g" and ?a = "stripes g ! i" and ?b = "stripes g ! j"
  let ?n = "node_num ?p"
  let ?s = "hd (shuf i (spare_nodes ?n ?a ?b))"
  have a: "valid_stripe ?p ?a" and b: "valid_stripe ?p ?b"
    using wf i j by (simp_all add: wf_gen_def wf_config_def)
  consider "t \<in> set (parity_tasks (data_hosts ?a ?b) 0 (parity_pairs ?a ?b))"
    | "t \<in> set (excess_tasks ?n ?a ?b ?s)"
    using t by (auto simp: pair_tasks_def Let_def)
  then show ?thesis
  proof cases
    case 1
    from parity_tasks_transfer [OF this] a b have "parity_transfer ?a ?b t"
      by (auto simp: parity_transfer_def parity_pairs_def valid_stripe_lengths)
    then show ?thesis ..
  next
    case 2
    then obtain h where h: "h \<in> set (full_nodes ?n ?a ?b)" "load ?a ?b h - 1 \<noteq> 0"
      "t = new_migration (h + 1) (?s + 1) 0"
      by (auto simp: excess_tasks_def)
    have "load ?a ?b h - 1 \<le> (\<Sum>h \<leftarrow> full_nodes ?n ?a ?b. load ?a ?b h - 1)"
      using h(1) by (intro member_le_sum_list) auto
    also note excess_and_spare(2) [OF a b n]
    finally have "spare_nodes ?n ?a ?b \<noteq> []" using h(2) by (cases "spare_nodes ?n ?a ?b") simp_all
    then have "shuf i (spare_nodes ?n ?a ?b) \<noteq> []" using mset_eq_length [OF shuf, of i "spare_nodes ?n ?a ?b"] by auto
    then have "?s \<in> set (spare_nodes ?n ?a ?b)"
      using mset_eq_setD [OF shuf] hd_in_set by blast
    with h have "excess_transfer ?n ?a ?b ?s t"
      by (auto simp: excess_transfer_def full_nodes_def spare_nodes_def wrap8_def)
    then show ?thesis ..
  qed
qed

text \<open>Sources and targets are different nodes of the cluster, counted from 1.\<close>

definition proper_task :: "nat \<Rightarrow> nat \<Rightarrow> migration \<Rightarrow> bool" where
  "proper_task nodes m t \<longleftrightarrow> 1 \<le> source t \<and> source t \<le> int nodes \<and> 1 \<le> target t \<and>
     target t \<le> int nodes \<and> source t \<noteq> target t \<and> (\<exists>c \<le> m. coefficient t = Some c)"

lemma transfer_proper:
  assumes p: "valid_params p" "node_num p < 32768" and a: "valid_stripe p a" and b: "valid_stripe p b"
    and t: "parity_transfer a b t \<or> excess_transfer (node_num p) a b s t"
  shows "proper_task (node_num p) (rs_m p) t"
  using t
proof
  assume "parity_transfer a b t"
  then obtain c where c: "c < rs_m p" "parity_dist a ! c \<noteq> parity_dist b ! c"
    "coefficient t = Some (wrap8 (c + 1))"
    "source t = to_int16 (parity_dist b ! c + 1) \<and> target t = to_int16 (parity_dist a ! c + 1) \<or>
     source t = to_int16 (parity_dist a ! c + 1) \<and> target t = to_int16 (parity_dist b ! c + 1)"
    using a by (auto simp: parity_transfer_def valid_stripe_lengths)
  have h: "parity_dist a ! c < node_num p" "parity_dist b ! c < node_num p"
    using a b c(1) by (simp_all add: valid_stripe_hosts)
  then have i: "to_int16 (parity_dist a ! c + 1) = int (parity_dist a ! c) + 1"
    "to_int16 (parity_dist b ! c + 1) = int (parity_dist b ! c) + 1"
    using p(2) by (simp_all add: to_int16_small)
  have "wrap8 (c + 1) = c + 1" using p(1) c(1) by (intro wrap8_small) (simp add: valid_params_def)
  with c h i show ?thesis by (auto simp: proper_task_def)
next
  assume "excess_transfer (node_num p) a b s t"
  then obtain h where h: "coefficient t = Some 0" "s < node_num p" "load a b s = 0" "h < node_num p"
    "1 < load a b h" "source t = to_int16 (h + 1)" "target t = to_int16 (s + 1)"
    by (auto simp: excess_transfer_def)
  then have "h \<noteq> s" by auto
  moreover have "to_int16 (h + 1) = int h + 1" "to_int16 (s + 1) = int s + 1"
    using p(2) h by (simp_all add: to_int16_small)
  ultimately show ?thesis using h by (auto simp: proper_task_def)
qed

lemma scheme_tasks_proper:
  assumes r: "scheme_ready shuf g" and n: "node_num (g_params g) < 32768"
    and t: "t \<in> set (scheme_upto shuf g (stripes_num g))"
  shows "proper_task (node_num (g_params g)) (rs_m (g_params g)) t"
proof -
  have wf: "wf_gen g" and ok: "matching_ok g" and all: "all_matched g"
    and nodes: "2 * rs_k (g_params g) + rs_m (g_params g) \<le> node_num (g_params g)"
    and shuf: "\<And>i xs. mset (shuf i xs) = mset xs"
    using r by (simp_all add: scheme_ready_def)
  from t obtain i where i: "i < stripes_num g" "t \<in> set (pair_tasks shuf g i (mate g i))"
    by (auto simp: scheme_upto_def)
  have m: "mate g i < stripes_num g"
    using matching_okD [OF ok i(1)] all i(1) by (simp add: all_matched_def mated_def)
  have v: "valid_params (g_params g)" "valid_stripe (g_params g) (stripes g ! i)"
    "valid_stripe (g_params g) (stripes g ! mate g i)"
    using wf i(1) m by (simp_all add: wf_gen_def wf_config_def)
  show ?thesis
    using transfer_proper [OF v(1) n v(2,3)] pair_tasks_transfer [OF wf i(1) m nodes shuf i(2)] by blast
qed

text \<open>A state after either search of an even number of stripes is ready.\<close>

lemma searched_ready:
  assumes "good_input nodes k m pls" and "g_params g' = set_params nodes k m"
    and "wf_gen g'" "matching_ok g'" "all_matched g'" "blocks_to_sent g' = []"
    and "\<forall>i xs. mset (shuf i xs) = mset xs"
  shows "scheme_ready shuf g'"
  using assms by (simp add: scheme_ready_def good_input_def set_params_def)

lemma greedy_loaded:
  assumes good: "good_input nodes k m pls" and sc: "sc \<in> {None, Some (2 * length pls - 3)}"
    and even: "even (length pls)"
  shows "\<exists>g total g'. load_generator sc sa nodes k m pls = Some g \<and>
    basic_greedy g False = Some (Inr (total, g')) \<and> total = wrap32 (matching_cost g') \<and>
    same_config g g' \<and> g_params g' = set_params nodes k m \<and> stripes_num g' = length pls \<and>
    wf_gen g' \<and> matching_ok g' \<and> all_matched g' \<and> blocks_to_sent g' = []"
proof -
  from load_generator_total [OF good sc, of sa] obtain g where
    g: "load_generator sc sa nodes k m pls = Some g" "wf_gen g" "fresh_gen g"
      "stripes_num g = length pls" "g_params g = set_params nodes k m" by auto
  have nsel: "\<forall>x < stripes_num g. \<not> sel g x" using g(3) by (simp add: fresh_gen_def)
  then have "greedy_ready g False"
    using g good by (simp add: greedy_ready_def matching_ok_def good_input_def set_params_def)
  from basic_greedy_total [OF this] obtain total g' where
    r: "basic_greedy g False = Some (Inr (total, g'))" "greedy_result g g'"
      "total = wrap32 (matching_cost g')" by auto
  have w: "wf_gen g'" "same_config g g'" "matching_ok g'" "same_but_pairs g g'"
    "card (free_stripes g') \<le> 1" using r(2) by (simp_all add: greedy_result_def)
  note c = same_config_length [OF w(2)]
  have "all_matched g'"
    using all_matched_if_even [OF w(3) _ w(5)] even c(2) g(4) by simp
  moreover have "blocks_to_sent g' = []"
    using same_but_pairs_fields(6) [OF w(4)] g(3) by (simp add: fresh_gen_def)
  ultimately show ?thesis using g r w c by auto
qed

text \<open>The scheme of an incomplete matching is not defined.\<close>

lemma get_one_scheme_stripes: "get_one_scheme shuf g i = Some g' \<Longrightarrow> stripes g' = stripes g"
  by (auto simp: get_one_scheme_def bind_eq_Some_conv split: prod.splits)

lemma get_sending_scheme_incomplete:
  assumes "wf_gen g" and "matching_ok g" and "unmatched_blank g" and "\<not> all_matched g"
    and "blocks_to_sent g = []"
  shows "get_sending_scheme shuf g = None"
proof -
  let ?s = "(replicate (stripes_num g) False, g)"
  obtain x where x: "x < stripes_num g" "\<not> sel g x" using assms(4) by (auto simp: all_matched_def)
  have "foldM (scheme_step shuf) ?s [0..<stripes_num g] = None"
    by (rule pair_loop_undefined [where fl = fst and I = "\<lambda>s. stripes (snd s) = stripes g", OF assms(1-3) x])
      (use x wf_gen_length [OF assms(1)] in
        \<open>auto simp: scheme_step_def Let_def aget_Some_iff aset_Some_iff bind_eq_Some_conv
          dest: get_one_scheme_stripes split: prod.splits if_splits\<close>)
  then show ?thesis using assms(5) by (simp add: get_sending_scheme_def)
qed

lemma greedy_loaded_odd:
  assumes good: "good_input nodes k m pls" and sc: "sc \<in> {None, Some (2 * length pls - 3)}"
    and odd: "odd (length pls)"
  shows "\<exists>g total g'. load_generator sc sa nodes k m pls = Some g \<and>
    basic_greedy g False = Some (Inr (total, g')) \<and> get_sending_scheme shuf g' = None"
proof -
  from load_generator_total [OF good sc, of sa] obtain g where
    g: "load_generator sc sa nodes k m pls = Some g" "wf_gen g" "fresh_gen g"
      "stripes_num g = length pls" "g_params g = set_params nodes k m" by auto
  have "greedy_ready g False"
    using g good by (simp add: fresh_gen_def greedy_ready_def matching_ok_def good_input_def set_params_def)
  from basic_greedy_total [OF this] obtain total g' where
    r: "basic_greedy g False = Some (Inr (total, g'))" "greedy_result g g'" by auto
  have w: "wf_gen g'" "same_config g g'" "matching_ok g'" "same_but_pairs g g'"
    using r(2) by (simp_all add: greedy_result_def)
  have "blocks_to_sent g' = []"
    using same_but_pairs_fields(6) [OF w(4)] g(3) by (simp add: fresh_gen_def)
  with get_sending_scheme_incomplete [OF w(1,3) greedy_blank [OF r(2) g(3)] odd_unmatched [OF w(3)]]
    same_config_length(2) [OF w(2)] g(1,4) r(1) odd show ?thesis by auto
qed

lemma search_loaded:
  assumes good: "good_input nodes k m pls" and m: "m \<le> 7"
  shows "\<exists>g g'. load_generator None None nodes k m pls = Some g \<and>
    dist_based_search g = Some (Inr g') \<and>
    same_config g g' \<and> g_params g' = set_params nodes k m \<and> stripes_num g' = length pls \<and>
    wf_gen g' \<and> matching_ok g' \<and> (even (length pls) \<longrightarrow> all_matched g') \<and> blocks_to_sent g' = []"
proof -
  from loaded_ready [OF good m] obtain g where
    g: "load_generator None None nodes k m pls = Some g" "wf_gen g" "fresh_gen g"
      "stripes_num g = length pls" "rs_m (g_params g) \<le> 7" "static_ok g"
      "2 * rs_k (g_params g) + rs_m (g_params g) \<le> node_num (g_params g)"
      "g_params g = set_params nodes k m" by blast
  from dist_based_search_total [OF g(2,3,5,6,7)] obtain g' where
    d: "dist_based_search g = Some (Inr g')" "search_result g g'" by blast
  have r: "wf_gen g'" "same_config g g'" "matching_ok g'" "card (free_stripes g') \<le> 1"
    "blocks_to_sent g' = []" using d(2) by (simp_all add: search_result_def)
  note c = same_config_length [OF r(2)]
  have "even (length pls) \<longrightarrow> all_matched g'" using all_matched_if_even [OF r(3) _ r(4)] c(2) g(4) by simp
  then show ?thesis using g(1,4,8) d(1) r c by auto
qed

section \<open>Properties\<close>

text \<open>C6. After StripeMerge-P on an even number of stripes, \<open>get_sending_scheme\<close> returns a list
  of as many transfers as the matching costs, and each of them goes from a node of the cluster
  to a different one, with a parity number (or 0 for a data transfer) as its coefficient.\<close>

theorem sending_scheme_correct:
  assumes "good_input nodes k m pls" and "m \<le> 7" and "even (length pls)" and "nodes < 32768"
    and "\<forall>i xs. mset (shuf i xs) = mset xs"
  shows "\<exists>g g' g'' tasks. load_generator None None nodes k m pls = Some g \<and>
    dist_based_search g = Some (Inr g') \<and> get_sending_scheme shuf g' = Some (tasks, g'') \<and>
    length tasks = matching_cost g' \<and> (\<forall>t \<in> set tasks. proper_task nodes m t)"
proof -
  from search_loaded [OF assms(1,2)] obtain g g' where
    g: "load_generator None None nodes k m pls = Some g" "dist_based_search g = Some (Inr g')"
      "g_params g' = set_params nodes k m" "wf_gen g'" "matching_ok g'" "all_matched g'"
      "blocks_to_sent g' = []" using assms(3) by blast
  have r: "scheme_ready shuf g'" using searched_ready [OF assms(1) g(3-7) assms(5)] .
  have p: "node_num (g_params g') = nodes" "rs_m (g_params g') = m" using g(3) by (simp_all add: set_params_def)
  show ?thesis
    using get_sending_scheme_total [OF r] scheme_length [OF r] scheme_tasks_proper [OF r] assms(4) g(1,2)
    unfolding p by blast
qed

theorem sending_scheme_correct_witness:
  "\<exists>g g' g'' tasks. load_generator None None 6 1 2
      [([0], [1, 2]), ([3], [1, 4]), ([5], [1, 2]), ([2], [3, 4])] = Some g \<and>
    dist_based_search g = Some (Inr g') \<and> get_sending_scheme (\<lambda>_. rev) g' = Some (tasks, g'') \<and>
    length tasks = matching_cost g'"
proof -
  have "good_input 6 1 2 [([0], [1, 2]), ([3], [1, 4]), ([5], [1, 2]), ([2], [3, 4])]"
    by (simp add: good_input_def valid_placement_def)
  from sending_scheme_correct [OF this, of "\<lambda>_. rev"] show ?thesis by auto
qed

text \<open>C23. The transfers of one pair \<open>i < j\<close> of a matching, in closed form: \<open>get_one_scheme\<close>
  appends one transfer per misaligned parity chunk and then, for every node with more than one
  chunk, one transfer per chunk in excess. All the excess chunks of the pair go to one and the
  same node, the first of the shuffled spare nodes, however many spare nodes there are.\<close>

theorem one_scheme_single_target:
  assumes "good_input nodes k m pls" and "even (length pls)" and "\<forall>i xs. mset (shuf i xs) = mset xs"
  shows "\<exists>g total g'. load_generator None None nodes k m pls = Some g \<and>
    basic_greedy g False = Some (Inr (total, g')) \<and>
    (\<forall>i < length pls. mate g' i < length pls \<and> mate g' i \<noteq> i \<and> (i < mate g' i \<longrightarrow>
      (let a = loaded_stripe i (pls ! i); b = loaded_stripe (mate g' i) (pls ! mate g' i) in
        get_one_scheme shuf g' i = Some (g'\<lparr>blocks_to_sent :=
          parity_tasks (data_hosts a b) 0 (parity_pairs a b) @
          excess_tasks nodes a b (hd (shuf i (spare_nodes nodes a b)))\<rparr>))))"
proof -
  from greedy_loaded [OF assms(1) _ assms(2), of None None] obtain g total g' where
    g: "load_generator None None nodes k m pls = Some g" "basic_greedy g False = Some (Inr (total, g'))"
      "g_params g' = set_params nodes k m" "stripes_num g' = length pls" "wf_gen g'" "matching_ok g'"
      "all_matched g'" "blocks_to_sent g' = []" "same_config g g'" by auto
  from load_generator_total [OF assms(1), of None None] g(1)
  have l: "\<forall>i < length pls. stripes g ! i = loaded_stripe i (pls ! i)" "length (stripes g) = length pls"
    by (auto simp: wf_gen_def wf_config_def)
  have mt: "mated g' i (mate g' i)" if "i < length pls" for i
    using matching_okD [OF g(6)] g(4,7) that by (simp add: all_matched_def)
  have m: "mate g' i < length pls" "mate g' i \<noteq> i" if "i < length pls" for i
    using matedD(2) [OF mt [OF that]] matedD(3) [OF mt [OF that]] g(4) by simp_all
  have same: "data_dist (stripes g' ! i) = data_dist (loaded_stripe i (pls ! i))"
    "parity_dist (stripes g' ! i) = parity_dist (loaded_stripe i (pls ! i))" if "i < length pls" for i
    using same_config_nth [OF g(9), of i] l that by simp_all
  have "get_one_scheme shuf g' i = Some (g'\<lparr>blocks_to_sent := pair_tasks shuf g' i (mate g' i)\<rparr>)"
    if i: "i < length pls" "i < mate g' i" for i
  proof -
    have "2 * rs_k (g_params g') + rs_m (g_params g') \<le> node_num (g_params g')"
      using assms(1) g(3) by (simp add: good_input_def set_params_def)
    then show ?thesis
      using get_one_scheme_total(1) [OF g(5) _ refl _ i(2), of shuf] i(1) m(1) [OF i(1)] g(4,8) assms(3)
      by simp
  qed
  moreover have "pair_tasks shuf g' i j = (let a = loaded_stripe i (pls ! i); b = loaded_stripe j (pls ! j) in
      parity_tasks (data_hosts a b) 0 (parity_pairs a b) @
      excess_tasks nodes a b (hd (shuf i (spare_nodes nodes a b))))"
    if "i < length pls" "j < length pls" for i j
    using same [OF that(1)] same [OF that(2)]
    by (simp add: pair_tasks_def Let_def g(3) set_params_def data_hosts_def parity_pairs_def
        excess_tasks_def full_nodes_def spare_nodes_def load_def merged_chunks_def)
  ultimately show ?thesis using g(1,2) m by (auto simp: Let_def)
qed

theorem one_scheme_single_target_witness:
  "\<exists>g total g'. load_generator None None 6 2 1 [([0, 1], [2]), ([0, 1], [2])] = Some g \<and>
    basic_greedy g False = Some (Inr (total, g')) \<and>
    get_one_scheme (\<lambda>_. rev) g' 0 =
      Some (g'\<lparr>blocks_to_sent := [new_migration 1 6 0, new_migration 2 6 0]\<rparr>)"
proof -
  let ?pls = "[([0, 1], [2]), ([0, 1], [2])] :: (nat list \<times> nat list) list"
  let ?a = "loaded_stripe 0 ([0, 1], [2])" and ?b = "loaded_stripe 1 ([0, 1], [2])"
  have "good_input 6 2 1 ?pls" by (simp add: good_input_def valid_placement_def)
  from one_scheme_single_target [OF this, of "\<lambda>_. rev"] obtain g total g' where
    g: "load_generator None None 6 2 1 ?pls = Some g" "basic_greedy g False = Some (Inr (total, g'))"
      "\<forall>i < length ?pls. mate g' i < length ?pls \<and> mate g' i \<noteq> i \<and> (i < mate g' i \<longrightarrow>
      (let a = loaded_stripe i (?pls ! i); b = loaded_stripe (mate g' i) (?pls ! mate g' i) in
        get_one_scheme (\<lambda>_. rev) g' i = Some (g'\<lparr>blocks_to_sent :=
          parity_tasks (data_hosts a b) 0 (parity_pairs a b) @
          excess_tasks 6 a b (hd (rev (spare_nodes 6 a b)))\<rparr>)))" by auto
  have "mate g' 0 < 2" "mate g' 0 \<noteq> 0" using g(3) by force+
  then have m: "mate g' 0 = 1" by simp
  have up: "[0..<6] = [0, 1, 2, 3, 4, 5::nat]" by (simp add: upt_rec)
  have "get_one_scheme (\<lambda>_. rev) g' 0 = Some (g'\<lparr>blocks_to_sent :=
      parity_tasks (data_hosts ?a ?b) 0 (parity_pairs ?a ?b) @
      excess_tasks 6 ?a ?b (hd (rev (spare_nodes 6 ?a ?b)))\<rparr>)"
    using g(3) [rule_format, of 0] m by (simp add: Let_def)
  also have "parity_tasks (data_hosts ?a ?b) 0 (parity_pairs ?a ?b) @
      excess_tasks 6 ?a ?b (hd (rev (spare_nodes 6 ?a ?b))) = [new_migration 1 6 0, new_migration 2 6 0]"
    by (simp add: loaded_stripe_def parity_pairs_def data_hosts_def excess_tasks_def full_nodes_def
        spare_nodes_def load_def merged_chunks_def up numeral_2_eq_2 [symmetric])
  finally show ?thesis using g(1,2) by blast
qed

end
