(* ===== verification/Matching_Main.thy ===== *)
theory Matching_Main
  imports Scheme
begin

text \<open>
  The program \<open>matching_main\<close> (src/matching_main.cc): it generates random placements, runs
  StripeMerge-P on a first generator and StripeMerge-G on a second one, which starts with the
  static variables the first one has left behind. Timing and console output are not modelled;
  the result holds the three numbers the program prints: the total costs of the two matchings
  and the size of the scheme of the second.
\<close>

definition matching_main ::
  "(nat \<Rightarrow> nat list \<Rightarrow> nat list) \<Rightarrow> (nat \<Rightarrow> nat list \<Rightarrow> nat list) \<Rightarrow>
    nat \<Rightarrow> nat \<Rightarrow> nat \<Rightarrow> nat \<Rightarrow> nat \<Rightarrow> (exit_status + nat \<times> nat \<times> nat) option" where
  "matching_main shufd shufs argc arg1 arg2 arg3 arg4 =
     (if argc \<noteq> 5 then Some (Inl (Exit (-1)))
      else do {
        let num = wrap32 arg1;
        let nodes = wrap16 arg2;
        let k = wrap8 arg3;
        let m = wrap8 arg4;
        pls \<leftarrow> generate_random_distributions shufd nodes num k m;
        mg1 \<leftarrow> load_generator None None nodes k m pls;
        r1 \<leftarrow> dist_based_search mg1;
        case r1 of
          Inl e \<Rightarrow> Some (Inl e)
        | Inr mg1' \<Rightarrow> do {
            total0 \<leftarrow> print_statics mg1';
            mg2 \<leftarrow> load_generator (static_c mg1') (static_all_one mg1') nodes k m pls;
            r2 \<leftarrow> basic_greedy mg2 False;
            case r2 of
              Inl e \<Rightarrow> Some (Inl e)
            | Inr (total1, mg2') \<Rightarrow> do {
                (scheme, mg2'') \<leftarrow> get_sending_scheme shufs mg2';
                Some (Inr (total0, total1, length scheme))
              }
          }
      })"

section \<open>Properties\<close>

text \<open>C7. The whole program, on arguments within the ranges it supports. For an even number of
  stripes it ends normally, whatever the two shuffles do: both searches match all stripes, and
  the total it reports for StripeMerge-G is the size of the transfer scheme (as a 32-bit
  number). An odd number of stripes, which it does not refuse, leads it out of bounds: the stripe that
  StripeMerge-G leaves over names no partner, and the loop over the pairs looks the partner up.\<close>

theorem matching_main_correct:
  assumes "num < 2147483648" and "k + m < 255" and "m \<le> 7"
    and "2 * k + m \<le> nodes" and "nodes < 65536"
    and "\<forall>i xs. mset (shufd i xs) = mset xs" and "\<forall>i xs. mset (shufs i xs) = mset xs"
  shows "if even num then \<exists>total0 total1 size. matching_main shufd shufs 5 num nodes k m =
      Some (Inr (total0, total1, size)) \<and> total1 = wrap32 size
    else matching_main shufd shufs 5 num nodes k m = None"
proof -
  have w: "wrap32 num = num" "wrap16 nodes = nodes" "wrap8 k = k" "wrap8 m = m"
    using assms(1-5) by (simp_all add: wrap_simps)
  obtain pls where pls: "generate_random_distributions shufd nodes num k m = Some pls"
    "length pls = num" "\<forall>pl \<in> set pls. valid_placement nodes k m pl"
    using generate_valid [of shufd k m nodes num] assms by auto
  have good: "good_input nodes k m pls" using assms pls by (simp add: good_input_def)
  from search_loaded [OF good assms(3)] obtain g g' where
    g: "load_generator None None nodes k m pls = Some g" "dist_based_search g = Some (Inr g')"
      "stripes_num g' = length pls" "wf_gen g'" "matching_ok g'"
      "even (length pls) \<longrightarrow> all_matched g'" by blast
  have sc: "static_c g' \<in> {None, Some (2 * length pls - 3)}"
    using g(3,4) by (simp add: wf_gen_def wf_table_def)
  show ?thesis
  proof (cases "even num")
    case True
    then have even: "even (length pls)" using pls(2) by simp
    from greedy_loaded [OF good sc even, of "static_all_one g'"] obtain h total h' where
      h: "load_generator (static_c g') (static_all_one g') nodes k m pls = Some h"
        "basic_greedy h False = Some (Inr (total, h'))" "total = wrap32 (matching_cost h')"
        "g_params h' = set_params nodes k m" "wf_gen h'" "matching_ok h'" "all_matched h'"
        "blocks_to_sent h' = []" by blast
    have r: "scheme_ready shufs h'" using searched_ready [OF good h(4-8) assms(7)] .
    show ?thesis
      using pls(1) g(1,2) print_statics_cost [OF g(4,5)] g(6) even h(1-3) get_sending_scheme_total [OF r]
        scheme_length [OF r] True by (auto simp: matching_main_def w)
  next
    case False
    then have "odd (length pls)" using pls(2) by simp
    from greedy_loaded_odd [OF good sc this, of "static_all_one g'" shufs] obtain h total h' where
      "load_generator (static_c g') (static_all_one g') nodes k m pls = Some h"
      "basic_greedy h False = Some (Inr (total, h'))" "get_sending_scheme shufs h' = None" by blast
    then show ?thesis
      using pls(1) g(1,2) False by (cases "print_statics g'") (simp_all add: matching_main_def w)
  qed
qed

theorem matching_main_correct_witness:
  "(\<exists>total0 total1 size. matching_main (\<lambda>_. rev) (\<lambda>_. rev) 5 100 20 6 3 =
      Some (Inr (total0, total1, size)) \<and> total1 = wrap32 size) \<and>
    matching_main (\<lambda>_. rev) (\<lambda>_. rev) 5 101 20 6 3 = None"
  using matching_main_correct [of 100 6 3 20 "\<lambda>_. rev" "\<lambda>_. rev"]
    matching_main_correct [of 101 6 3 20 "\<lambda>_. rev" "\<lambda>_. rev"] by simp

end
