(* ===== verification/NCScale.thy ===== *)
theory NCScale
  imports Migration
begin

text \<open>
  The class \<open>NCScaleSimulation\<close> (include/ncscale_simulation.hh, src/ncscale_simulation.cc):
  the block transfers of the NCScale scaling scheme, which StripeMerge is compared with.

  All numbers are 32-bit unsigned. The loops that look for a node with a positive quota may
  run forever, so they are partial functions. The lemmas show that the round-robin counters
  (\<open>quota\<close>) never make them search, that the branch for a bad pair is not reached, and what
  list of transfers results.
\<close>

section \<open>State and operations\<close>

record ncscale =
  nc_k :: nat
  nc_m :: nat
  nc_n :: nat
  batch_size :: nat
  scaling_num :: nat
  single_scaling_num :: nat
  single_total_cost :: nat
  single_mig_cost :: nat
  single_delta_cost :: nat
  old_migration_num :: nat
  old_delta_num :: nat
  new_recv_num :: nat

text \<open>The constructor; a division by zero is undefined.\<close>

definition new_ncscale :: "nat \<Rightarrow> nat \<Rightarrow> ncscale option" where
  "new_ncscale k m = (
     let n = wrap32 (k + m);
         batch = wrap32 (2 * k * (k + m) * (2 * k + m));
         delta = sub32 m 1;
         scaling = batch div 2;
         single = scaling div n
     in if n = 0 then None else Some \<lparr>nc_k = k, nc_m = m, nc_n = n, batch_size = batch,
       scaling_num = scaling, single_scaling_num = single, single_total_cost = sub32 n 1,
       single_mig_cost = k, single_delta_cost = delta, old_migration_num = wrap32 (k * single),
       old_delta_num = wrap32 (delta * single), new_recv_num = wrap32 (single * n)\<rparr>)"

definition get_batch_size :: "ncscale \<Rightarrow> nat" where
  "get_batch_size s = batch_size s"

definition get_total_costs :: "ncscale \<Rightarrow> nat" where
  "get_total_costs s = wrap32 (scaling_num s * single_total_cost s)"

definition get_similar_batch_size :: "ncscale \<Rightarrow> nat \<Rightarrow> nat option" where
  "get_similar_batch_size s num =
     (if batch_size s = 0 then None else Some (wrap32 (num div batch_size s * batch_size s)))"

text \<open>\<open>while (!xs[j]) j = ++j % n;\<close>\<close>

partial_function (option) skip_empty :: "nat list \<Rightarrow> nat \<Rightarrow> nat \<Rightarrow> nat option" where
  "skip_empty xs n j =
     do { v \<leftarrow> aget xs j; if v = 0 then skip_empty xs n ((j + 1) mod n) else Some j }"

text \<open>\<open>--xs[j]\<close> on an unsigned counter.\<close>

definition decr :: "nat list \<Rightarrow> nat \<Rightarrow> nat list option" where
  "decr xs j = do { v \<leftarrow> aget xs j; aset xs j (sub32 v 1) }"

text \<open>One migration from an old to a new node: \<open>j\<close>, \<open>k\<close>, the two quotas and the scheme so far.\<close>

definition mig_step :: "nat \<Rightarrow> nat \<Rightarrow> nat \<times> nat \<times> nat list \<times> nat list \<times> migration list \<Rightarrow> nat \<Rightarrow>
    (nat \<times> nat \<times> nat list \<times> nat list \<times> migration list) option" where
  "mig_step rsn rsk st i = (case st of (j0, k0, send, recv, out) \<Rightarrow> do {
     j \<leftarrow> skip_empty send rsn j0;
     k \<leftarrow> skip_empty recv rsk k0;
     let out' = out @ [new_migration (j + 1) (k + rsn + 1) 0];
     send' \<leftarrow> decr send j;
     recv' \<leftarrow> decr recv k;
     Some ((j + 1) mod rsn, (k + 1) mod rsk, send', recv', out')
   })"

text \<open>
  The loop over the delta blocks. It ends with the scheme and, when it was left at a bad pair,
  with \<open>bad_pair_count\<close>, \<open>bad_pair_node\<close> and \<open>limit\<close>.
\<close>

partial_function (option) delta_loop ::
  "nat \<Rightarrow> nat \<Rightarrow> nat \<Rightarrow> nat \<Rightarrow> nat \<Rightarrow> nat list \<Rightarrow> nat list \<Rightarrow> nat \<Rightarrow> nat \<Rightarrow> migration list \<Rightarrow>
    (migration list \<times> (nat \<times> nat \<times> nat) option) option" where
  "delta_loop rsn tot i j0 k0 send recv send_empty recv_empty out =
     (if i < tot then do {
        j \<leftarrow> skip_empty send rsn j0;
        k \<leftarrow> skip_empty recv rsn k0;
        if j = k then
          (if send_empty < rsn - 1 then
             delta_loop rsn tot i ((j + 1) mod rsn) k send recv send_empty recv_empty out
           else if recv_empty < rsn - 1 then
             delta_loop rsn tot i j ((k + 1) mod rsn) send recv send_empty recv_empty out
           else do { c \<leftarrow> aget send j; Some (out, Some (c, j + 1, sub32 i 1)) })
        else do {
          send' \<leftarrow> decr send j;
          s \<leftarrow> aget send' j;
          recv' \<leftarrow> decr recv k;
          r \<leftarrow> aget recv' k;
          delta_loop rsn tot (i + 1) ((j + 1) mod rsn) ((k + 1) mod rsn) send' recv'
            (if s = 0 then send_empty + 1 else send_empty)
            (if r = 0 then recv_empty + 1 else recv_empty)
            (out @ [new_migration (j + 1) (k + 1) 1])
        }
      } else Some (out, None))"

text \<open>
  The repair of a bad pair. A comparison of an \<open>int16_t\<close> with an unsigned number converts
  the former.
\<close>

definition to_u32 :: "int \<Rightarrow> nat" where
  "to_u32 x = nat (x mod 2 ^ 32)"

partial_function (option) find_other ::
  "migration list \<Rightarrow> nat \<Rightarrow> nat \<Rightarrow> nat \<Rightarrow> nat \<Rightarrow> nat option" where
  "find_other scheme node limit start index = do {
     t \<leftarrow> aget scheme index;
     if to_u32 (source t) = node \<or> to_u32 (target t) = node
     then find_other scheme node limit start (if index < limit then index + 1 else start)
     else Some index
   }"

fun repair :: "nat \<Rightarrow> nat \<Rightarrow> nat \<Rightarrow> nat \<Rightarrow> nat \<Rightarrow> migration list \<Rightarrow> migration list option" where
  "repair 0 node limit start index scheme = Some scheme"
| "repair (Suc t) node limit start index scheme = do {
     index' \<leftarrow> find_other scheme node limit start index;
     x \<leftarrow> aget scheme index';
     scheme' \<leftarrow> aset scheme index' (x\<lparr>target := to_int16 node\<rparr>);
     repair t node limit start index' (scheme' @ [new_migration node (to_u32 (target x)) 1])
   }"

definition get_scheme :: "ncscale \<Rightarrow> nat \<Rightarrow> (exit_status + migration list) option" where
  "get_scheme s num =
     (if batch_size s = 0 then None
      else let ratio = num div batch_size s in
        if ratio = 0 then Some (Inl (Exit (-1)))
        else do {
          let per_mig = wrap32 (ratio * old_migration_num s);
          let per_delta = wrap32 (ratio * old_delta_num s);
          let per_recv = wrap32 (ratio * new_recv_num s);
          let total_migration = wrap32 (nc_n s * per_mig);
          (j, k, send, recv, out) \<leftarrow> foldM (mig_step (nc_n s) (nc_k s))
            (0, 0, replicate (nc_n s) per_mig, replicate (nc_k s) per_recv, []) [0..<total_migration];
          let total_delta = wrap32 (nc_n s * per_delta);
          (out', bad) \<leftarrow> delta_loop (nc_n s) total_delta 0 0 1 (replicate (nc_n s) per_delta)
            (replicate (nc_n s) per_delta) 0 0 out;
          case bad of
            None \<Rightarrow> Some (Inr out')
          | Some (cnt, node, limit) \<Rightarrow> do {
              r \<leftarrow> repair cnt node limit total_migration total_migration out';
              Some (Inr r)
            }
        })"

section \<open>Round-robin quotas\<close>

text \<open>What is left of a quota of \<open>per\<close> for each of \<open>n\<close> nodes after \<open>i\<close> rounds.\<close>

definition quota :: "nat \<Rightarrow> nat \<Rightarrow> nat \<Rightarrow> nat list" where
  "quota per n i = map (\<lambda>x. per - (i + (n - 1 - x)) div n) [0..<n]"

lemma length_quota [simp]: "length (quota per n i) = n"
  by (simp add: quota_def)

lemma quota_nth: "x < n \<Longrightarrow> quota per n i ! x = per - (i + (n - 1 - x)) div n"
  by (simp add: quota_def)

lemma quota_0: "quota per n 0 = replicate n per"
  by (rule nth_equalityI) (simp_all add: quota_nth)

lemma quota_current:
  assumes "0 < n"
  shows "quota per n i ! (i mod n) = per - i div n"
proof -
  have "i + (n - 1 - i mod n) = i div n * n + (n - 1)"
    using assms div_mult_mod_eq [of i n] mod_less_divisor [OF assms, of i] by linarith
  also have "\<dots> div n = i div n" using assms by (subst div_mult_self3) simp_all
  finally show ?thesis using assms by (simp add: quota_nth)
qed

lemma quota_current_pos:
  assumes "i < n * per"
  shows "0 < quota per n i ! (i mod n)"
proof -
  have "0 < n" using assms by (cases n) auto
  moreover have "i div n < per" using assms by (simp add: less_mult_imp_div_less mult.commute)
  ultimately show ?thesis by (simp add: quota_current)
qed

lemma quota_Suc:
  assumes "0 < n"
  shows "quota per n (Suc i) = (quota per n i)[i mod n := quota per n i ! (i mod n) - 1]"
proof (rule nth_equalityI)
  fix x assume "x < length (quota per n (Suc i))"
  then have x: "x < n" by simp
  show "quota per n (Suc i) ! x = (quota per n i)[i mod n := quota per n i ! (i mod n) - 1] ! x"
  proof (cases "x = i mod n")
    case True
    have "Suc i + (n - 1 - i mod n) = i div n * n + n"
      using assms div_mult_mod_eq [of i n] mod_less_divisor [OF assms, of i] by linarith
    then have "(Suc i + (n - 1 - i mod n)) div n = i div n + 1" using assms by simp
    then have "quota per n (Suc i) ! x = per - (i div n + 1)" using x True by (simp only: quota_nth)
    then show ?thesis using x True quota_current [OF assms, of per i] by simp
  next
    case False
    have "\<not> n dvd Suc (i + (n - 1 - x))"
    proof
      assume "n dvd Suc (i + (n - 1 - x))"
      then have "(i + (n - x)) mod n = 0" using x by (simp add: Suc_diff_Suc)
      then have "(i mod n + (n - x)) mod n = 0" by (simp add: mod_simps)
      then obtain c where c: "i mod n + (n - x) = n * c" by blast
      have "i mod n < n" using assms by simp
      then have "0 < n * c" "n * c < n * 2" using x unfolding c [symmetric] by linarith+
      then have "c = 1" by simp
      with c x False show False by simp
    qed
    then have "Suc (i + (n - 1 - x)) div n = (i + (n - 1 - x)) div n"
      by (simp only: div_Suc dvd_eq_mod_eq_0 if_False)
    then show ?thesis using x False by (simp add: quota_nth)
  qed
qed simp

lemma skip_empty_here: "j < length xs \<Longrightarrow> 0 < xs ! j \<Longrightarrow> skip_empty xs n j = Some j"
  by (subst skip_empty.simps) simp

lemma decr_quota:
  assumes "i < n * per" and "per < 4294967296"
  shows "decr (quota per n i) (i mod n) = Some (quota per n (Suc i))"
    and "aget (quota per n i) (i mod n) = Some (per - i div n)"
proof -
  have n: "0 < n" using assms by (cases n) auto
  show "aget (quota per n i) (i mod n) = Some (per - i div n)" using n by (simp add: quota_current)
  have "sub32 (quota per n i ! (i mod n)) 1 = quota per n i ! (i mod n) - 1"
    using quota_current_pos [OF assms(1)] assms(2) n by (intro sub32_small) (simp_all add: quota_current)
  then show "decr (quota per n i) (i mod n) = Some (quota per n (Suc i))"
    using n by (simp add: decr_def quota_Suc)
qed

section \<open>The migrations\<close>

definition mig_task :: "nat \<Rightarrow> nat \<Rightarrow> nat \<Rightarrow> migration" where
  "mig_task n k i = new_migration (i mod n + 1) (i mod k + n + 1) 0"

lemma mod_Suc_step: "(i mod n + 1) mod n = Suc i mod n"
  by (simp add: mod_simps)

lemma mig_loop:
  assumes t: "t = n * per" "t = k * per_recv" and b: "per < 4294967296" "per_recv < 4294967296"
  shows "\<exists>st. foldM (mig_step n k) (0, 0, replicate n per, replicate k per_recv, []) [0..<t] = Some st \<and>
    snd (snd (snd (snd st))) = map (mig_task n k) [0..<t]"
proof -
  let ?I = "\<lambda>i st. st = (i mod n, i mod k, quota per n i, quota per_recv k i, map (mig_task n k) [0..<i])"
  have "\<exists>st. foldM (mig_step n k) (0, 0, replicate n per, replicate k per_recv, []) [0..<t] = Some st \<and>
      ?I t st"
  proof (rule foldM_upt [where I = ?I])
    fix i st assume i: "i < t" and st: "?I i st"
    have l: "i < n * per" "i < k * per_recv" using i t by simp_all
    then have nk: "0 < n" "0 < k" by (cases n; cases k; auto)+
    have s: "skip_empty (quota per n i) n (i mod n) = Some (i mod n)"
      "skip_empty (quota per_recv k i) k (i mod k) = Some (i mod k)"
      using quota_current_pos [OF l(1)] quota_current_pos [OF l(2)] nk by (simp_all add: skip_empty_here)
    show "\<exists>st'. mig_step n k st i = Some st' \<and> ?I (Suc i) st'"
      using s decr_quota(1) [OF l(1) b(1)] decr_quota(1) [OF l(2) b(2)] mod_Suc_step
      by (simp add: st mig_step_def mig_task_def)
  qed (simp_all add: quota_0)
  then show ?thesis by auto
qed

section \<open>The delta blocks\<close>

definition delta_task :: "nat \<Rightarrow> nat \<Rightarrow> migration" where
  "delta_task n i = new_migration (i mod n + 1) (Suc i mod n + 1) 1"

text \<open>The receivers' quotas are those of the senders, one node further.\<close>

definition shifted :: "nat \<Rightarrow> nat list \<Rightarrow> nat list" where
  "shifted n xs = map (\<lambda>y. xs ! ((y + n - 1) mod n)) [0..<n]"

lemma shifted_replicate: "0 < n \<Longrightarrow> shifted n (replicate n c) = replicate n c"
  by (rule nth_equalityI) (simp_all add: shifted_def)

lemma length_shifted [simp]: "length (shifted n xs) = n"
  by (simp add: shifted_def)

lemma shift_back: "0 < n \<Longrightarrow> (Suc x mod n + n - 1) mod n = x mod n"
proof -
  assume n: "0 < n"
  then have "Suc x mod n + n - 1 = Suc x mod n + (n - 1)" by simp
  also have "(Suc x mod n + (n - 1)) mod n = (Suc x + (n - 1)) mod n" by (simp add: mod_simps)
  also have "\<dots> = (x + n) mod n" using n by (simp add: Suc_diff_Suc)
  finally show ?thesis by simp
qed

lemma shifted_nth: "0 < n \<Longrightarrow> shifted n xs ! (Suc x mod n) = xs ! (x mod n)"
  using shift_back [of n x] by (simp add: shifted_def)

lemma shifted_update:
  assumes "0 < n" and "length xs = n"
  shows "shifted n (xs[x mod n := v]) = (shifted n xs)[Suc x mod n := v]"
proof (rule nth_equalityI)
  fix y assume "y < length (shifted n (xs[x mod n := v]))"
  then have y: "y < n" by simp
  have "(y + n - 1) mod n = x mod n \<longleftrightarrow> y = Suc x mod n"
  proof
    assume "(y + n - 1) mod n = x mod n"
    then have "Suc ((y + n - 1) mod n) mod n = Suc (x mod n) mod n" by simp
    then have "(y + n) mod n = Suc x mod n" using assms(1) by (simp add: mod_simps)
    then show "y = Suc x mod n" using y by simp
  qed (use shift_back [OF assms(1)] in simp)
  then show "shifted n (xs[x mod n := v]) ! y = (shifted n xs)[Suc x mod n := v] ! y"
    using y assms by (auto simp: shifted_def nth_list_update)
qed simp

lemma delta_loop_total:
  assumes n: "2 \<le> n" and t: "t = n * per" "t < 4294967296" and b: "per < 4294967296" and i: "i \<le> t"
  shows "delta_loop n t i (i mod n) (Suc i mod n) (quota per n i) (shifted n (quota per n i)) se re out
    = Some (out @ map (delta_task n) [i..<t], None)"
  using i
proof (induction "t - i" arbitrary: i se re out)
  case 0
  then have "i = t" by simp
  then show ?case by (subst delta_loop.simps) simp
next
  case (Suc d)
  then have lt: "i < t" by simp
  then have l: "i < n * per" using t by simp
  have n0: "0 < n" using n by simp
  let ?j = "i mod n" and ?k = "Suc i mod n" and ?q = "quota per n i"
  have jk: "?j \<noteq> ?k" using n by (auto simp: mod_Suc)
  have s: "skip_empty ?q n ?j = Some ?j" "skip_empty (shifted n ?q) n ?k = Some ?k"
    using quota_current_pos [OF l] n0 by (simp_all add: skip_empty_here shifted_nth)
  have d1: "decr ?q ?j = Some (quota per n (Suc i))" using decr_quota(1) [OF l b] .
  have v: "quota per n (Suc i) = ?q[?j := sub32 (?q ! ?j) 1]"
    using d1 n0 by (simp add: decr_def)
  have d2: "decr (shifted n ?q) ?k = Some (shifted n (quota per n (Suc i)))"
    unfolding v using n0 by (simp add: decr_def shifted_nth shifted_update)
  have up: "[i..<t] = i # [Suc i..<t]" using lt by (simp add: upt_conv_Cons)
  have "d = t - Suc i" "Suc i \<le> t" using Suc.hyps(2) lt by simp_all
  note IH = Suc.hyps(1) [OF this]
  show ?case
    using lt s jk d1 d2 IH n0 unfolding up
    by (subst delta_loop.simps) (simp add: mod_Suc_eq delta_task_def)
qed

section \<open>The whole scheme\<close>

abbreviation nc_batch :: "nat \<Rightarrow> nat \<Rightarrow> nat" where
  "nc_batch k m \<equiv> 2 * k * (k + m) * (2 * k + m)"

text \<open>The parameters and the number of stripes stay within 32 bits, with at least one batch.\<close>

definition nc_input :: "nat \<Rightarrow> nat \<Rightarrow> nat \<Rightarrow> bool" where
  "nc_input k m num \<longleftrightarrow> 1 \<le> k \<and> 1 \<le> m \<and> nc_batch k m \<le> num \<and> num * (k + m) < 4294967296"

lemma new_ncscale_total:
  assumes "1 \<le> k" "1 \<le> m" and "nc_batch k m < 4294967296"
  shows "new_ncscale k m = Some \<lparr>nc_k = k, nc_m = m, nc_n = k + m, batch_size = nc_batch k m,
    scaling_num = k * (k + m) * (2 * k + m), single_scaling_num = k * (2 * k + m),
    single_total_cost = k + m - 1, single_mig_cost = k, single_delta_cost = m - 1,
    old_migration_num = k * (k * (2 * k + m)), old_delta_num = (m - 1) * (k * (2 * k + m)),
    new_recv_num = k * (2 * k + m) * (k + m)\<rparr>"
proof -
  let ?n = "k + m" and ?s = "k * (2 * k + m)"
  have B: "nc_batch k m = 2 * (?s * ?n)" by (simp add: algebra_simps)
  then have b: "2 * (?s * ?n) < 4294967296" using assms(3) by simp
  have half: "nc_batch k m div 2 = ?s * ?n" unfolding B by simp
  have n0: "0 < ?n" using assms by simp
  have w: "wrap32 ?n = ?n" "wrap32 (k * ?s) = k * ?s" "wrap32 ((m - 1) * ?s) = (m - 1) * ?s"
    "wrap32 (?s * ?n) = ?s * ?n" "sub32 m 1 = m - 1" "sub32 ?n 1 = ?n - 1"
  proof -
    obtain t n where t: "t = ?s" and n: "n = ?n" by blast
    have "1 \<le> t" "1 \<le> n" "k \<le> n" "m \<le> n" "m - 1 \<le> n" using assms by (simp_all add: t n)
    then have le: "n * 1 \<le> n * t" "k * t \<le> n * t" "(m - 1) * t \<le> n * t" by (intro mult_le_mono; simp)+
    have nt: "2 * (n * t) < 4294967296" using b by (simp add: t n mult.commute)
    have tn: "t * n = n * t" by (rule mult.commute)
    have "n < 4294967296" using le(1) nt by linarith
    moreover have "k * t < 4294967296" using le(2) nt by linarith
    moreover have "(m - 1) * t < 4294967296" using le(3) nt by linarith
    moreover have "t * n < 4294967296" using tn nt by linarith
    moreover have "m < 4294967296" using calculation(1) \<open>m \<le> n\<close> by linarith
    ultimately have "n < 4294967296" "k * t < 4294967296" "(m - 1) * t < 4294967296"
      "t * n < 4294967296" "m < 4294967296" by simp_all
    then show "wrap32 ?n = ?n" "wrap32 (k * ?s) = k * ?s" "wrap32 ((m - 1) * ?s) = (m - 1) * ?s"
      "wrap32 (?s * ?n) = ?s * ?n" "sub32 m 1 = m - 1" "sub32 ?n 1 = ?n - 1"
      using assms unfolding t n by (simp_all only: wrap32_small sub32_small le_add2 add_leD2 trans_le_add1)
  qed
  have "wrap32 (nc_batch k m) = nc_batch k m" using assms(3) by (rule wrap32_small)
  moreover have "?s * ?n div ?n = ?s" using n0 by simp
  moreover have "?s * ?n = k * ?n * (2 * k + m)" by (simp add: algebra_simps)
  ultimately show ?thesis
    unfolding new_ncscale_def Let_def w half using n0 w by simp
qed

definition ncscale_tasks :: "nat \<Rightarrow> nat \<Rightarrow> nat \<Rightarrow> migration list" where
  "ncscale_tasks k m ratio =
     map (mig_task (k + m) k) [0..<(k + m) * (ratio * (k * (k * (2 * k + m))))] @
     map (delta_task (k + m)) [0..<(k + m) * (ratio * ((m - 1) * (k * (2 * k + m))))]"

lemma get_scheme_total:
  assumes inp: "nc_input k m num" and s: "new_ncscale k m = Some s"
  shows "get_scheme s num = Some (Inr (ncscale_tasks k m (num div nc_batch k m)))"
proof -
  let ?n = "k + m" and ?s = "k * (2 * k + m)" and ?B = "nc_batch k m"
  let ?r = "num div ?B"
  have km: "1 \<le> k" "1 \<le> m" and num: "?B \<le> num" "num * ?n < 4294967296"
    using inp by (simp_all add: nc_input_def)
  have "num * 1 \<le> num * ?n" using km by (intro mult_le_mono) simp_all
  then have b: "?B < 4294967296" using num by linarith
  have B0: "0 < ?B" using km by simp
  have r: "?r \<noteq> 0" using num(1) B0 by (simp add: div_greater_zero_iff)
  have le: "?r * ?B \<le> num" by simp
  have B: "?B = 2 * (?s * ?n)" by (simp add: algebra_simps)
  have "?r * (?s * ?n) \<le> ?r * ?B" unfolding B by (rule mult_le_mono2) simp
  with le have rn: "?r * (?s * ?n) \<le> num" by (rule order_trans [rotated])
  let ?pm = "?r * (k * ?s)" and ?pd = "?r * ((m - 1) * ?s)" and ?pr = "?r * (?s * ?n)"
  have e: "?n * ?pm = ?r * (?s * ?n) * k" "?n * ?pd = ?r * (?s * ?n) * (m - 1)"
    by (simp_all only: mult.assoc mult.commute mult.left_commute)
  have g: "?r * (?s * ?n) * k \<le> num * ?n" "?r * (?s * ?n) * (m - 1) \<le> num * ?n"
    using rn by (intro mult_le_mono; simp)+
  have tm: "?n * ?pm < 4294967296" unfolding e by (rule le_less_trans [OF g(1) num(2)])
  have td: "?n * ?pd < 4294967296" unfolding e by (rule le_less_trans [OF g(2) num(2)])
  have le1: "1 * ?pm \<le> ?n * ?pm" "1 * ?pd \<le> ?n * ?pd" using km by (intro mult_le_mono; simp)+
  have pm: "?pm < 4294967296" using le_less_trans [OF le1(1) tm] by (simp only: mult_1)
  have pd: "?pd < 4294967296" using le_less_trans [OF le1(2) td] by (simp only: mult_1)
  have pr: "?pr < 4294967296" using rn b \<open>num * 1 \<le> num * ?n\<close> num(2) by linarith
  have f: "nc_n s = ?n" "nc_k s = k" "batch_size s = ?B" "old_migration_num s = k * ?s"
    "old_delta_num s = (m - 1) * ?s" "new_recv_num s = ?s * ?n"
    using s new_ncscale_total [OF km b] by (auto simp: mult.assoc)
  have w: "wrap32 ?pm = ?pm" "wrap32 ?pd = ?pd" "wrap32 ?pr = ?pr" "wrap32 (?n * ?pm) = ?n * ?pm"
    "wrap32 (?n * ?pd) = ?n * ?pd" using pm pd pr tm td by (simp_all only: wrap32_small)
  have "?n * ?pm = k * ?pr" by (simp only: mult.assoc mult.commute mult.left_commute)
  from mig_loop [OF refl this pm pr] obtain j k' send recv where
    mig: "foldM (mig_step ?n k) (0, 0, replicate ?n ?pm, replicate k ?pr, []) [0..<?n * ?pm] =
      Some (j, k', send, recv, map (mig_task ?n k) [0..<?n * ?pm])" by (auto simp: snd_def split: prod.splits)
  have "2 \<le> ?n" "0 < ?n" "1 mod ?n = 1" using km by simp_all
  with delta_loop_total [OF _ refl td pd, of 0 0 0 "map (mig_task ?n k) [0..<?n * ?pm]"]
  have delta: "delta_loop ?n (?n * ?pd) 0 0 1 (replicate ?n ?pd) (replicate ?n ?pd) 0 0
      (map (mig_task ?n k) [0..<?n * ?pm]) = Some (ncscale_tasks k m ?r, None)"
    by (simp add: quota_0 shifted_replicate ncscale_tasks_def)
  show ?thesis
    unfolding get_scheme_def f w Let_def using B0 r mig delta by simp
qed

text \<open>How often a residue occurs among the first multiples of the modulus.\<close>

lemma residues:
  assumes "x < n"
  shows "length (filter (\<lambda>i. i mod n = x) [0..<n * q]) = q"
proof (induction q)
  case 0
  then show ?case by simp
next
  case (Suc q)
  have "[0..<n * Suc q] = [0..<n * q] @ map (\<lambda>i. i + n * q) [0..<n]"
    using map_add_upt [of "n * q" n] upt_add_eq_append [of 0 "n * q" n] by (simp add: add.commute)
  moreover have "filter (\<lambda>i. (i + n * q) mod n = x) [0..<n] = [x]"
  proof -
    have "filter (\<lambda>i. (i + n * q) mod n = x) [0..<n] = filter (\<lambda>i. i = x) [0..<n]"
      by (rule filter_cong) auto
    also have "\<dots> = [x]"
      using assms by (induction n) (auto simp: less_Suc_eq)
    finally show ?thesis .
  qed
  ultimately show ?case using Suc by (simp add: filter_map comp_def)
qed

lemma residue_map:
  assumes "x < n" and "\<And>i. P (f i) \<longleftrightarrow> i mod n = x" and "t = n * q"
  shows "length (filter P (map f [0..<t])) = q"
  using residues [OF assms(1), of q] assms(2,3) by (simp add: filter_map comp_def)

lemma node_eq: "x < 32767 \<Longrightarrow> y < 32767 \<Longrightarrow> to_int16 (Suc x) = int y + 1 \<longleftrightarrow> x = y"
  by (simp add: to_int16_small)

text \<open>How many transfers of kind \<open>c\<close> leave node \<open>x\<close>, and how many arrive at it.\<close>

definition sent :: "nat \<Rightarrow> migration list \<Rightarrow> nat \<Rightarrow> nat" where
  "sent c ts x = length (filter (\<lambda>t. coefficient t = Some c \<and> source t = int x + 1) ts)"

definition received :: "nat \<Rightarrow> migration list \<Rightarrow> nat \<Rightarrow> nat" where
  "received c ts x = length (filter (\<lambda>t. coefficient t = Some c \<and> target t = int x + 1) ts)"

lemma mig_task_fields:
  "coefficient (mig_task n k i) = Some 0" "source (mig_task n k i) = to_int16 (i mod n + 1)"
  "target (mig_task n k i) = to_int16 (i mod k + n + 1)"
  by (simp_all add: mig_task_def wrap8_def)

lemma delta_task_fields:
  "coefficient (delta_task n i) = Some 1" "source (delta_task n i) = to_int16 (i mod n + 1)"
  "target (delta_task n i) = to_int16 (Suc i mod n + 1)"
  by (simp_all add: delta_task_def wrap8_def)

lemma no_delta_in_mig: "filter (\<lambda>t. coefficient t = Some 1 \<and> Q t) (map (mig_task n k) is) = []"
  by (simp add: filter_empty_conv mig_task_fields)

lemma no_mig_in_delta: "filter (\<lambda>t. coefficient t = Some 0 \<and> Q t) (map (delta_task n) is) = []"
  by (simp add: filter_empty_conv delta_task_fields)

lemma ncscale_balance:
  fixes k m r :: nat
  assumes n: "n = k + m" and b: "n + k < 32767" and km: "1 \<le> k" "1 \<le> m"
  defines "q \<equiv> r * (k * (k * (2 * k + m)))" and "d \<equiv> r * ((m - 1) * (k * (2 * k + m)))"
  shows "x < n \<Longrightarrow> sent 0 (ncscale_tasks k m r) x = q"
    and "y < k \<Longrightarrow> received 0 (ncscale_tasks k m r) (n + y) = r * (k * (2 * k + m) * n)"
    and "x < n \<Longrightarrow> sent 1 (ncscale_tasks k m r) x = d"
    and "x < n \<Longrightarrow> received 1 (ncscale_tasks k m r) x = d"
proof -
  have T: "ncscale_tasks k m r = map (mig_task n k) [0..<n * q] @ map (delta_task n) [0..<n * d]"
    by (simp add: ncscale_tasks_def q_def d_def n)
  have n0: "0 < n" "0 < k" using km n by simp_all
  have im: "i mod n < 32767" "i mod k + n < 32767" "Suc i mod n < 32767" for i
    using mod_less_divisor [OF n0(1), of i] mod_less_divisor [OF n0(2), of i]
      mod_less_divisor [OF n0(1), of "Suc i"] b by linarith+
  show "sent 0 (ncscale_tasks k m r) x = q" if x: "x < n"
    unfolding sent_def T filter_append no_mig_in_delta append_Nil2
    by (rule residue_map [OF x _ refl]) (use x b im in \<open>simp add: mig_task_fields node_eq\<close>)
  show "received 0 (ncscale_tasks k m r) (n + y) = r * (k * (2 * k + m) * n)" if y: "y < k"
    unfolding received_def T filter_append no_mig_in_delta append_Nil2
  proof (rule residue_map [OF y])
    fix i
    have "to_int16 (i mod k + n + 1) = int (n + y) + 1 \<longleftrightarrow> i mod k + n = n + y"
      using y b im(2) [of i] node_eq [of "i mod k + n" "n + y"] by simp
    then show "coefficient (mig_task n k i) = Some 0 \<and> target (mig_task n k i) = int (n + y) + 1 \<longleftrightarrow>
        i mod k = y" unfolding mig_task_fields by auto
  next
    show "n * q = k * (r * (k * (2 * k + m) * n))"
      unfolding q_def by (simp only: mult.assoc mult.commute mult.left_commute)
  qed
  show "sent 1 (ncscale_tasks k m r) x = d" if x: "x < n"
    unfolding sent_def T filter_append no_delta_in_mig append_Nil
    by (rule residue_map [OF x _ refl]) (use x b im in \<open>simp add: delta_task_fields node_eq\<close>)
  show "received 1 (ncscale_tasks k m r) x = d" if x: "x < n"
    unfolding received_def T filter_append no_delta_in_mig append_Nil
  proof (rule residue_map [OF _ _ refl])
    show "(x + n - 1) mod n < n" using n0 by simp
    fix i
    have "Suc i mod n = x \<longleftrightarrow> i mod n = (x + n - 1) mod n"
    proof
      assume "Suc i mod n = x"
      then show "i mod n = (x + n - 1) mod n" using shift_back [OF n0(1), of i] by simp
    next
      assume "i mod n = (x + n - 1) mod n"
      then have "Suc i mod n = Suc ((x + n - 1) mod n) mod n" by (metis mod_Suc_eq)
      also have "\<dots> = (x + n) mod n" using n0 by (simp add: mod_Suc_eq)
      finally show "Suc i mod n = x" using x by simp
    qed
    moreover have "to_int16 (Suc i mod n + 1) = int x + 1 \<longleftrightarrow> Suc i mod n = x"
      using x b im(3) [of i] node_eq [of "Suc i mod n" x] by simp
    ultimately show "coefficient (delta_task n i) = Some 1 \<and> target (delta_task n i) = int x + 1 \<longleftrightarrow>
        i mod n = (x + n - 1) mod n" by (simp add: delta_task_fields)
  qed
qed

section \<open>Properties\<close>

text \<open>C24. The simulated NCScale, for \<open>k, m \<ge> 1\<close> and numbers that stay within 32 bits: with
  less than one batch of stripes \<open>get_scheme\<close> exits with status -1; otherwise its loops end,
  the search for a free node never has to skip one, the branch for a bad pair is not taken, and
  the result is the closed form \<open>ncscale_tasks\<close>: first the migrations to the new nodes, then
  the delta blocks to the next old node. Its length is the number of whole batches times
  \<open>get_total_costs\<close>, and \<open>get_similar_batch_size\<close> is that number times the batch size.\<close>

theorem ncscale_scheme_correct:
  assumes "1 \<le> k" and "1 \<le> m" and "nc_batch k m < 4294967296" and "num * (k + m) < 4294967296"
  shows "\<exists>s. new_ncscale k m = Some s \<and>
    get_similar_batch_size s num = Some (num div nc_batch k m * nc_batch k m) \<and>
    (if num < nc_batch k m then get_scheme s num = Some (Inl (Exit (-1)))
     else get_scheme s num = Some (Inr (ncscale_tasks k m (num div nc_batch k m))) \<and>
       length (ncscale_tasks k m (num div nc_batch k m)) = num div nc_batch k m * get_total_costs s)"
proof -
  let ?n = "k + m" and ?B = "nc_batch k m"
  let ?r = "num div ?B" and ?t = "k * (2 * k + m)"
  obtain s where s: "new_ncscale k m = Some s" "batch_size s = ?B"
    "scaling_num s = k * ?n * (2 * k + m)" "single_total_cost s = ?n - 1"
    using new_ncscale_total [OF assms(1-3)] by auto
  have B0: "0 < ?B" using assms by simp
  have "num * 1 \<le> num * ?n" using assms by (intro mult_le_mono) simp_all
  then have num: "num < 4294967296" using assms(4) by linarith
  have "?r * ?B \<le> num" by simp
  then have "wrap32 (?r * ?B) = ?r * ?B" using num by (intro wrap32_small) linarith
  then have sim: "get_similar_batch_size s num = Some (?r * ?B)"
    using B0 by (simp add: get_similar_batch_size_def s)
  show ?thesis
  proof (cases "num < ?B")
    case True
    then have "get_scheme s num = Some (Inl (Exit (-1)))"
      using B0 by (simp add: get_scheme_def s)
    with True s sim show ?thesis by auto
  next
    case False
    then have "nc_input k m num" using assms by (simp add: nc_input_def)
    from get_scheme_total [OF this s(1)] have sch: "get_scheme s num = Some (Inr (ncscale_tasks k m ?r))" .
    have le: "k * ?n * (2 * k + m) * (?n - 1) \<le> num * ?n"
    proof (rule mult_le_mono)
      have "k * ?n * (2 * k + m) \<le> ?B" by simp
      with False show "k * ?n * (2 * k + m) \<le> num" by linarith
    qed simp
    have tot: "get_total_costs s = k * ?n * (2 * k + m) * (?n - 1)"
      unfolding get_total_costs_def s by (rule wrap32_small [OF le_less_trans [OF le assms(4)]])
    have "length (ncscale_tasks k m ?r) = ?n * (?r * (k * ?t)) + ?n * (?r * ((m - 1) * ?t))"
      by (simp add: ncscale_tasks_def)
    also have "\<dots> = ?n * (?r * ((k + (m - 1)) * ?t))"
      by (simp only: add_mult_distrib2 [symmetric] add_mult_distrib [symmetric])
    also have "k + (m - 1) = ?n - 1" using assms(2) by simp
    also have "?n * (?r * ((?n - 1) * ?t)) = ?r * (k * ?n * (2 * k + m) * (?n - 1))"
      by (simp only: mult.assoc mult.commute mult.left_commute)
    finally show ?thesis using False s(1) sim sch tot by simp
  qed
qed

theorem ncscale_scheme_correct_witness:
  "\<exists>s. new_ncscale 4 2 = Some s \<and> get_similar_batch_size s 1000 = Some 960 \<and>
    get_scheme s 1000 = Some (Inr (ncscale_tasks 4 2 2)) \<and>
    length (ncscale_tasks 4 2 2) = 2 * get_total_costs s"
  using ncscale_scheme_correct [of 4 2 1000] by simp

text \<open>C25. The load of the NCScale scheme is balanced: every old node sends the same number of
  blocks to the new nodes, every new node receives the same number, and every old node sends
  and receives the same number of delta blocks.\<close>

theorem ncscale_scheme_balanced:
  assumes "nc_input k m num" and "2 * k + m < 32767"
  shows "\<exists>s ts. new_ncscale k m = Some s \<and> get_scheme s num = Some (Inr ts) \<and>
    (let r = num div nc_batch k m in
      (\<forall>x < k + m. sent 0 ts x = r * (k * (k * (2 * k + m))) \<and>
        sent 1 ts x = r * ((m - 1) * (k * (2 * k + m))) \<and>
        received 1 ts x = r * ((m - 1) * (k * (2 * k + m)))) \<and>
      (\<forall>y < k. received 0 ts (k + m + y) = r * (k * (2 * k + m) * (k + m))))"
proof -
  have km: "1 \<le> k" "1 \<le> m" and num: "nc_batch k m \<le> num" "num * (k + m) < 4294967296"
    using assms(1) by (simp_all add: nc_input_def)
  have "num * 1 \<le> num * (k + m)" using km by (intro mult_le_mono) simp_all
  then have b: "nc_batch k m < 4294967296" using num by linarith
  obtain s where s: "new_ncscale k m = Some s" using new_ncscale_total [OF km b] by blast
  have n: "k + m + k < 32767" using assms(2) by simp
  show ?thesis
    using s get_scheme_total [OF assms(1) s] ncscale_balance [OF refl n km]
    by (auto simp: Let_def)
qed

theorem ncscale_scheme_balanced_witness:
  "\<exists>s ts. new_ncscale 4 2 = Some s \<and> get_scheme s 1000 = Some (Inr ts) \<and> sent 0 ts 5 = 320 \<and>
    received 0 ts 9 = 480"
proof -
  have "nc_input 4 2 1000" by (simp add: nc_input_def)
  from ncscale_scheme_balanced [OF this] obtain s ts where
    r: "new_ncscale 4 2 = Some s" "get_scheme s 1000 = Some (Inr ts)"
    "\<forall>x < 4 + 2. sent 0 ts x = 1000 div nc_batch 4 2 * (4 * (4 * (2 * 4 + 2)))"
    "\<forall>y < 4. received 0 ts (4 + 2 + y) = 1000 div nc_batch 4 2 * (4 * (2 * 4 + 2) * (4 + 2))"
    by (auto simp: Let_def)
  have "sent 0 ts 5 = 320" using r(3) [rule_format, of 5] by simp
  moreover have "received 0 ts 9 = 480" using r(4) [rule_format, of 3] by simp
  ultimately show ?thesis using r(1,2) by blast
qed

end
