(* ===== verification/Config.thy ===== *)
theory Config
  imports Prelude
begin

text \<open>
  The configuration file of a node: \<open>TCPNode::parse_config\<close> (src/tcp_node.cc). The input stream
  is modelled with its end-of-file and fail bits, because the loop of the parser tests both. A
  number with a sign is outside the model (\<open>None\<close>). A variable that a failed extraction leaves
  uninitialised is outside the model as well when it is used.
\<close>

section \<open>Decimal numbers\<close>

fun dec :: "nat \<Rightarrow> string" where
  "dec n = (if n < 10 then [char_of (48 + n)] else dec (n div 10) @ [char_of (48 + n mod 10)])"

declare dec.simps [simp del]

lemma digit_chars [simp]:
  "char_of (48 :: nat) = CHR ''0''" "char_of (49 :: nat) = CHR ''1''" "char_of (50 :: nat) = CHR ''2''"
  "char_of (51 :: nat) = CHR ''3''" "char_of (52 :: nat) = CHR ''4''" "char_of (53 :: nat) = CHR ''5''"
  "char_of (54 :: nat) = CHR ''6''" "char_of (55 :: nat) = CHR ''7''" "char_of (56 :: nat) = CHR ''8''"
  "char_of (57 :: nat) = CHR ''9''"
  by (simp_all add: char_of_eq_iff take_bit_eq_mod)

definition is_digit :: "char \<Rightarrow> bool" where
  "is_digit c \<longleftrightarrow> 48 \<le> (of_char c :: nat) \<and> (of_char c :: nat) \<le> 57"

definition num_val :: "string \<Rightarrow> nat" where
  "num_val s = foldl (\<lambda>a c. 10 * a + (of_char c - 48)) 0 s"

lemma dec_digits: "c \<in> set (dec n) \<Longrightarrow> is_digit c"
  by (induction n rule: dec.induct) (subst (asm) (2) dec.simps, auto simp: is_digit_def split: if_splits)

lemma dec_not_Nil [simp]: "dec n \<noteq> []"
  by (subst dec.simps) simp

lemma num_val_dec [simp]: "num_val (dec n) = n"
proof (induction n rule: dec.induct)
  case (1 n)
  then show ?case
    by (subst dec.simps) (auto simp: num_val_def)
qed

lemma dec_inj [simp]: "dec m = dec n \<longleftrightarrow> m = n"
  by (metis num_val_dec)

text \<open>The number of decimal digits.\<close>

lemma length_dec: "n < 10 ^ d \<Longrightarrow> 0 < d \<Longrightarrow> length (dec n) \<le> d"
proof (induction n arbitrary: d rule: dec.induct)
  case (1 n)
  show ?case
  proof (cases "n < 10")
    case True
    with 1(3) show ?thesis by (subst dec.simps) simp
  next
    case False
    with 1(2,3) have d: "0 < d - 1" "n div 10 < 10 ^ (d - 1)"
      by (cases d; auto simp: less_mult_imp_div_less mult.commute; cases "d - 1"; simp)+
    from 1(1) [OF False d(2,1)] False d(1) show ?thesis by (subst dec.simps) simp
  qed
qed

section \<open>Input streams\<close>

record istream =
  rest :: string
  eofbit :: bool
  failbit :: bool

definition is_space :: "char \<Rightarrow> bool" where
  "is_space c \<longleftrightarrow> of_char c \<in> {9, 10, 11, 12, 13, 32 :: nat}"

text \<open>
  The start of a formatted extraction: it fails if the stream is not good, skips white space,
  and fails at the end of the file.
\<close>

definition sentry :: "istream \<Rightarrow> istream" where
  "sentry s = (if eofbit s \<or> failbit s then s\<lparr>failbit := True\<rparr>
     else let r = dropWhile is_space (rest s)
       in if r = [] then \<lparr>rest = [], eofbit = True, failbit = True\<rparr> else s\<lparr>rest := r\<rparr>)"

text \<open>\<open>>>\<close> to a string variable, whose old value is kept if the extraction does not start.\<close>

definition read_word :: "string \<Rightarrow> istream \<Rightarrow> string \<times> istream" where
  "read_word old s = (let s' = sentry s in
     if failbit s' then (old, s')
     else let w = takeWhile (\<lambda>c. \<not> is_space c) (rest s'); r = dropWhile (\<lambda>c. \<not> is_space c) (rest s')
       in (w, s'\<lparr>rest := r, eofbit := r = []\<rparr>))"

text \<open>
  \<open>>>\<close> to an unsigned variable with the given maximum: without a digit the value is 0 and the
  extraction fails, beyond the maximum it is the maximum and the extraction fails.
\<close>

definition read_uint :: "nat \<Rightarrow> nat option \<Rightarrow> istream \<Rightarrow> (nat option \<times> istream) option" where
  "read_uint mx old s = (let s' = sentry s in
     if failbit s' then Some (old, s')
     else if hd (rest s') \<in> {CHR ''+'', CHR ''-''} then None
     else let w = takeWhile is_digit (rest s'); r = dropWhile is_digit (rest s');
         s'' = s'\<lparr>rest := r, eofbit := r = []\<rparr>
       in Some (if w = [] then (Some 0, s''\<lparr>failbit := True\<rparr>)
         else if mx < num_val w then (Some mx, s''\<lparr>failbit := True\<rparr>)
         else (Some (num_val w), s'')))"

section \<open>The parser\<close>

type_synonym address = "string \<times> nat"

record config =
  cf_k :: nat
  cf_m :: nat
  cf_N :: nat
  targets :: "address list"
  self_port :: "nat option"
  node_count :: nat

text \<open>
  The loop over the nodes; the state is \<open>num\<close>, \<open>ip\<close>, \<open>port\<close>, the targets and the own port. The
  failed extraction that ends the loop also ends the recursion, every other one consumes input.
\<close>

function parse_nodes ::
  "nat \<Rightarrow> nat \<Rightarrow> string \<Rightarrow> nat option \<Rightarrow> address list \<Rightarrow> nat option \<Rightarrow> istream \<Rightarrow>
    (nat \<times> address list \<times> nat option) option" where
  "parse_nodes self num ip port ts sp s =
     (if eofbit s then Some (num, ts, sp)
      else let (ip', s1) = read_word ip s in
        case read_uint 65535 port s1 of
          None \<Rightarrow> None
        | Some (port', s2) \<Rightarrow>
            if failbit s2 then Some (num, ts, sp)
            else if num \<noteq> self
            then parse_nodes self (wrap16 (num + 1)) ip' port' (ts @ [(ip', the port')]) sp s2
            else parse_nodes self (wrap16 (num + 1)) ip' port' ts port' s2)"
  by auto

lemma read_word_less:
  assumes "read_word old s = (w, s')" and "\<not> failbit s'"
  shows "length (rest s') < length (rest s)"
proof -
  have "length (dropWhile is_space (rest s)) \<le> length (rest s)" by (rule length_dropWhile_le)
  moreover have "length (dropWhile (\<lambda>c. \<not> is_space c) r) < length r"
    if r: "r = dropWhile is_space (rest s)" "r \<noteq> []" for r
  proof -
    obtain a l where a: "r = a # l" using r(2) by (cases r) auto
    have "\<not> is_space (hd r)" unfolding r(1) by (rule hd_dropWhile) (use r in simp)
    then show ?thesis using length_dropWhile_le [of "\<lambda>c. \<not> is_space c" l] by (simp add: a less_Suc_eq_le)
  qed
  ultimately show ?thesis
    using assms by (fastforce simp: read_word_def sentry_def Let_def split: if_splits)
qed

lemma read_uint_le:
  assumes "read_uint mx old s = Some (v, s')"
  shows "length (rest s') \<le> length (rest s)" "failbit s \<Longrightarrow> failbit s'"
proof -
  have "length (dropWhile P (dropWhile Q xs)) \<le> length xs" for P Q and xs :: string
    by (meson le_trans length_dropWhile_le)
  then show "length (rest s') \<le> length (rest s)" "failbit s \<Longrightarrow> failbit s'"
    using assms length_dropWhile_le [of is_space "rest s"]
    by (auto simp: read_uint_def sentry_def Let_def split: if_splits)
qed

lemma parse_step_less:
  assumes "(w, s1) = read_word ip s" and "read_uint mx port s1 = Some (v, s2)" and "\<not> failbit s2"
  shows "length (rest s2) < length (rest s)"
proof -
  have "\<not> failbit s1" using read_uint_le(2) [OF assms(2)] assms(3) by blast
  from read_word_less [OF assms(1) [symmetric] this] read_uint_le(1) [OF assms(2)]
  show ?thesis by linarith
qed

termination parse_nodes
  by (relation "measure (\<lambda>(self, num, ip, port, ts, sp, s). length (rest s))")
    (auto dest: parse_step_less)

declare parse_nodes.simps [simp del]

text \<open>
  \<open>parse_config\<close> on the content of the file (\<open>None\<close>: it cannot be opened). The test for an empty
  first line comes before anything has been read, so it never fails.
\<close>

definition parse_config :: "nat \<Rightarrow> string option \<Rightarrow> (exit_status + config) option" where
  "parse_config self content = (case content of
     None \<Rightarrow> Some (Inl (Exit (-1)))
   | Some txt \<Rightarrow> do {
       (k, s1) \<leftarrow> read_uint u32_max None \<lparr>rest = txt, eofbit = False, failbit = False\<rparr>;
       (m, s2) \<leftarrow> read_uint u32_max None s1;
       (num, ts, sp) \<leftarrow> parse_nodes self 1 [] None [] None s2;
       if num < 2 then Some (Inl (Exit (-1)))
       else do {
         k \<leftarrow> k;
         m \<leftarrow> m;
         Some (Inr \<lparr>cf_k = k, cf_m = m, cf_N = wrap32 (2 * k + m), targets = ts, self_port = sp,
           node_count = num - 1\<rparr>)
       }
     })"

section \<open>Round trip\<close>

text \<open>A configuration file: one line for \<open>k\<close> and \<open>m\<close>, and one for each node.\<close>

definition node_line :: "address \<Rightarrow> string" where
  "node_line a = fst a @ '' '' @ dec (snd a) @ [CHR 0x0A]"

definition render_config :: "nat \<Rightarrow> nat \<Rightarrow> address list \<Rightarrow> string" where
  "render_config k m nodes = dec k @ '' '' @ dec m @ [CHR 0x0A] @ concat (map node_line nodes)"

definition proper_address :: "address \<Rightarrow> bool" where
  "proper_address a \<longleftrightarrow> fst a \<noteq> [] \<and> (\<forall>c \<in> set (fst a). \<not> is_space c) \<and> snd a < 65536"

lemma digit_not_space: "is_digit c \<Longrightarrow> \<not> is_space c \<and> c \<noteq> CHR ''+'' \<and> c \<noteq> CHR ''-''"
  by (auto simp: is_digit_def is_space_def)

lemma skip_digits:
  assumes "xs = [] \<or> \<not> is_digit (hd xs)"
  shows "takeWhile is_digit (dec n @ xs) = dec n" "dropWhile is_digit (dec n @ xs) = xs"
  using assms dec_digits by (auto simp: takeWhile_append dropWhile_append)
    (cases xs; simp)+

lemma read_dec:
  assumes "n \<le> mx" and "\<forall>c \<in> set sp. is_space c" and "xs \<noteq> []" and "\<not> is_digit (hd xs)"
  shows "read_uint mx old \<lparr>rest = sp @ dec n @ xs, eofbit = False, failbit = False\<rparr> =
    Some (Some n, \<lparr>rest = xs, eofbit = False, failbit = False\<rparr>)"
proof -
  have hd: "is_digit (hd (dec n))" using dec_digits [of "hd (dec n)" n] by simp
  have "dropWhile is_space (sp @ dec n @ xs) = dropWhile is_space (dec n @ xs)"
    using assms(2) by (simp add: dropWhile_append)
  also have "\<dots> = dec n @ xs"
    using digit_not_space [OF hd] by (cases "dec n") simp_all
  finally have "sentry \<lparr>rest = sp @ dec n @ xs, eofbit = False, failbit = False\<rparr> =
      \<lparr>rest = dec n @ xs, eofbit = False, failbit = False\<rparr>" by (simp add: sentry_def Let_def)
  then show ?thesis
    using assms skip_digits [of xs n] digit_not_space [OF hd]
    by (simp add: read_uint_def Let_def hd_append)
qed

lemma read_ip:
  assumes "\<forall>c \<in> set sp. is_space c" and "w \<noteq> []" and "\<forall>c \<in> set w. \<not> is_space c"
    and "is_space c"
  shows "read_word old \<lparr>rest = sp @ w @ c # xs, eofbit = False, failbit = False\<rparr> =
    (w, \<lparr>rest = c # xs, eofbit = False, failbit = False\<rparr>)"
proof -
  have "dropWhile is_space (sp @ w @ c # xs) = dropWhile is_space (w @ c # xs)"
    using assms(1) by (simp add: dropWhile_append)
  also have "\<dots> = w @ c # xs" using assms(2,3) by (cases w) simp_all
  finally have "sentry \<lparr>rest = sp @ w @ c # xs, eofbit = False, failbit = False\<rparr> =
      \<lparr>rest = w @ c # xs, eofbit = False, failbit = False\<rparr>" by (simp add: sentry_def Let_def)
  then show ?thesis
    using assms(3,4) by (simp add: read_word_def Let_def takeWhile_append dropWhile_append)
qed

lemma space_chars [simp]: "is_space CHR '' ''" "is_space CHR 0x0A" "\<not> is_digit CHR 0x0A"
  "\<not> is_digit CHR '' ''"
  by (simp_all add: is_space_def is_digit_def)

text \<open>One line of the file is one iteration of the loop.\<close>

lemma parse_line:
  assumes "proper_address a"
  shows "parse_nodes self num ip port ts sp
      \<lparr>rest = CHR 0x0A # node_line a @ xs, eofbit = False, failbit = False\<rparr> =
    parse_nodes self (wrap16 (num + 1)) (fst a) (Some (snd a))
      (if num \<noteq> self then ts @ [a] else ts) (if num \<noteq> self then sp else Some (snd a))
      \<lparr>rest = CHR 0x0A # xs, eofbit = False, failbit = False\<rparr>"
proof -
  have w: "read_word ip \<lparr>rest = CHR 0x0A # node_line a @ xs, eofbit = False, failbit = False\<rparr> =
      (fst a, \<lparr>rest = CHR '' '' # dec (snd a) @ CHR 0x0A # xs, eofbit = False, failbit = False\<rparr>)"
    using read_ip [of "[CHR 0x0A]" "fst a" "CHR '' ''" ip "dec (snd a) @ CHR 0x0A # xs"] assms
    by (simp add: proper_address_def node_line_def)
  have u: "read_uint 65535 port
      \<lparr>rest = CHR '' '' # dec (snd a) @ CHR 0x0A # xs, eofbit = False, failbit = False\<rparr> =
      Some (Some (snd a), \<lparr>rest = CHR 0x0A # xs, eofbit = False, failbit = False\<rparr>)"
    using read_dec [of "snd a" 65535 "[CHR '' '']" "CHR 0x0A # xs" port] assms
    by (simp add: proper_address_def)
  show ?thesis by (subst parse_nodes.simps) (simp add: w u)
qed

lemma parse_end:
  "parse_nodes self num ip port ts sp \<lparr>rest = [CHR 0x0A], eofbit = False, failbit = False\<rparr> =
    Some (num, ts, sp)"
  by (subst parse_nodes.simps) (simp add: read_word_def read_uint_def sentry_def Let_def)

lemma parse_lines:
  assumes "\<forall>a \<in> set nodes. proper_address a" and "num + length nodes < 65536"
  shows "parse_nodes self num ip port ts sp
      \<lparr>rest = CHR 0x0A # concat (map node_line nodes), eofbit = False, failbit = False\<rparr> =
    Some (num + length nodes,
      ts @ map (\<lambda>j. nodes ! (j - num)) (filter (\<lambda>j. j \<noteq> self) [num..<num + length nodes]),
      if num \<le> self \<and> self < num + length nodes then Some (snd (nodes ! (self - num))) else sp)"
  using assms
proof (induction nodes arbitrary: num ip port ts sp)
  case Nil
  then show ?case by (auto simp: parse_end)
next
  case (Cons a nodes)
  have u: "[num..<num + length (a # nodes)] = num # map Suc [num..<num + length nodes]"
    by (simp add: upt_conv_Cons map_Suc_upt del: upt_Suc)
  have v: "map (\<lambda>j. (a # nodes) ! (j - num)) (filter (\<lambda>j. j \<noteq> self) (map Suc [num..<num + length nodes])) =
      map (\<lambda>j. nodes ! (j - Suc num)) (filter (\<lambda>j. j \<noteq> self) [Suc num..<Suc num + length nodes])"
  proof -
    have "map Suc [num..<num + length nodes] = [Suc num..<Suc num + length nodes]"
      by (simp add: map_Suc_upt del: upt_Suc)
    moreover have "(a # nodes) ! (j - num) = nodes ! (j - Suc num)"
      if "j \<in> set [Suc num..<Suc num + length nodes]" for j
      using that by (simp add: nth_Cons' del: upt_Suc)
    ultimately show ?thesis by (simp del: upt_Suc)
  qed
  have w: "wrap16 (num + 1) = Suc num" using Cons.prems(2) by (simp add: wrap16_small)
  note IH = Cons.IH [of "Suc num"]
  have line: "parse_nodes self num ip port ts sp \<lparr>rest = CHR 0x0A # concat (map node_line (a # nodes)),
      eofbit = False, failbit = False\<rparr> =
    parse_nodes self (Suc num) (fst a) (Some (snd a)) (if num \<noteq> self then ts @ [a] else ts)
      (if num \<noteq> self then sp else Some (snd a))
      \<lparr>rest = CHR 0x0A # concat (map node_line nodes), eofbit = False, failbit = False\<rparr>"
    using parse_line [of a self num ip port ts sp "concat (map node_line nodes)"] Cons.prems(1) w
    by simp
  show ?case
    unfolding line u using IH Cons.prems v
    by (auto simp: nth_Cons' simp del: upt_Suc)
qed

lemma parse_render:
  assumes "k < 2 ^ 32" and "m < 2 ^ 32" and "\<forall>a \<in> set nodes. proper_address a"
    and "nodes \<noteq> []" and "length nodes < 65535"
  shows "parse_config self (Some (render_config k m nodes)) = Some (Inr
    \<lparr>cf_k = k, cf_m = m, cf_N = wrap32 (2 * k + m),
     targets = map (\<lambda>j. nodes ! (j - 1)) (filter (\<lambda>j. j \<noteq> self) [1..<Suc (length nodes)]),
     self_port = (if 1 \<le> self \<and> self \<le> length nodes then Some (snd (nodes ! (self - 1))) else None),
     node_count = length nodes\<rparr>)"
proof -
  let ?nl = "CHR 0x0A # concat (map node_line nodes)"
  have 1: "read_uint u32_max None \<lparr>rest = render_config k m nodes, eofbit = False, failbit = False\<rparr> =
      Some (Some k, \<lparr>rest = CHR '' '' # dec m @ ?nl, eofbit = False, failbit = False\<rparr>)"
    using read_dec [of k u32_max "[]" "CHR '' '' # dec m @ ?nl" None] assms(1)
    by (simp add: render_config_def)
  have 2: "read_uint u32_max None \<lparr>rest = CHR '' '' # dec m @ ?nl, eofbit = False, failbit = False\<rparr> =
      Some (Some m, \<lparr>rest = ?nl, eofbit = False, failbit = False\<rparr>)"
    using read_dec [of m u32_max "[CHR '' '']" ?nl None] assms(2) by simp
  have "length nodes \<noteq> 0" using assms(4) by simp
  then show ?thesis
    using assms(5) parse_lines [OF assms(3), of 1 self "[]" None "[]" None]
    by (simp add: parse_config_def 1 2 less_Suc_eq_le del: upt_Suc)
qed

section \<open>Properties\<close>

text \<open>C28. Reading back a written configuration file: a node gets \<open>k\<close>, \<open>m\<close>, the number of nodes,
  its own port, and as its targets the addresses of all other nodes in the file's order; the
  master, whose index is 0, gets all of them.\<close>

theorem config_roundtrip:
  assumes "k < 2 ^ 32" and "m < 2 ^ 32" and "\<forall>a \<in> set nodes. proper_address a"
    and "nodes \<noteq> []" and "length nodes < 65535"
  shows "parse_config self (Some (render_config k m nodes)) = Some (Inr
    \<lparr>cf_k = k, cf_m = m, cf_N = wrap32 (2 * k + m),
     targets = map (\<lambda>j. nodes ! (j - 1)) (filter (\<lambda>j. j \<noteq> self) [1..<Suc (length nodes)]),
     self_port = (if 1 \<le> self \<and> self \<le> length nodes then Some (snd (nodes ! (self - 1))) else None),
     node_count = length nodes\<rparr>)"
  by (rule parse_render [OF assms])

theorem config_roundtrip_witness:
  "parse_config 2 (Some (render_config 6 3 [(''10.0.0.1'', 15000), (''10.0.0.2'', 15000), (''host3'', 15001)])) =
    Some (Inr \<lparr>cf_k = 6, cf_m = 3, cf_N = 15, targets = [(''10.0.0.1'', 15000), (''host3'', 15001)],
      self_port = Some 15000, node_count = 3\<rparr>)"
  using config_roundtrip [of 6 3 "[(''10.0.0.1'', 15000), (''10.0.0.2'', 15000), (''host3'', 15001)]" 2]
  by (simp add: proper_address_def is_space_def wrap32_small upt_rec)

text \<open>C29. The error cases of the configuration: the program exits if the file cannot be opened or
  lists no node. One node is enough, although the message asks for two.\<close>

theorem config_errors:
  "parse_config self None = Some (Inl (Exit (-1))) \<and>
   (k < 2 ^ 32 \<longrightarrow> m < 2 ^ 32 \<longrightarrow>
     parse_config self (Some (render_config k m [])) = Some (Inl (Exit (-1))))"
proof -
  have "parse_config self (Some (render_config k m [])) = Some (Inl (Exit (-1)))"
    if "k < 2 ^ 32" "m < 2 ^ 32"
    using that read_dec [of k u32_max "[]" "CHR '' '' # dec m @ [CHR 0x0A]" None]
      read_dec [of m u32_max "[CHR '' '']" "[CHR 0x0A]" None]
    by (simp add: parse_config_def render_config_def parse_end)
  then show ?thesis by (simp add: parse_config_def)
qed

theorem config_errors_witness:
  "parse_config 1 (Some (render_config 2 1 [])) = Some (Inl (Exit (-1)))"
  using config_errors [of 1 2 1] by simp

end
