(* ===== verification/Bytes.thy ===== *)
theory Bytes
  imports Migration "HOL-Library.Word"
begin

text \<open>
  Byte buffers: the chunk buffers the program reads files and sockets into, the loops that fill
  them, and the object representation of \<open>MigrationInfo\<close> that is written to and read from the
  sockets (\<open>write_n(&task, sizeof(task))\<close> and \<open>read_n(&task, sizeof(task))\<close>).

  The object representation is that of the platform the program is built for (System V x86-64:
  little endian, two's complement, eight-byte pointers). Bytes of fields that were never
  initialised, and padding, are those of the memory the object lies in (\<open>raw\<close>).
\<close>

type_synonym byte = "8 word"

definition CHUNK_SIZE :: nat where "CHUNK_SIZE = 2 ^ 26"

section \<open>Buffers\<close>

definition overwrite :: "'a list \<Rightarrow> nat \<Rightarrow> 'a list \<Rightarrow> 'a list" where
  "overwrite buf i bs = take i buf @ bs @ drop (i + length bs) buf"

definition field :: "nat \<Rightarrow> nat \<Rightarrow> 'a list \<Rightarrow> 'a list" where
  "field i n xs = take n (drop i xs)"

named_theorems buffer_simps

lemma length_overwrite [simp]: "i + length bs \<le> length buf \<Longrightarrow> length (overwrite buf i bs) = length buf"
  by (simp add: overwrite_def)

lemma overwrite_Nil [simp]: "overwrite buf i [] = buf"
  by (simp add: overwrite_def)

lemma overwrite_overwrite:
  "i \<le> length buf \<Longrightarrow>
    overwrite (overwrite buf i as) (i + length as) bs = overwrite buf i (as @ bs)"
  by (simp add: overwrite_def min_def ac_simps)

lemma field_same [buffer_simps]:
  "i + length bs \<le> length buf \<Longrightarrow> n = length bs \<Longrightarrow> field i n (overwrite buf i bs) = bs"
  by (simp add: field_def overwrite_def)

lemma field_before [buffer_simps]:
  "i + n \<le> j \<Longrightarrow> j \<le> length buf \<Longrightarrow> field i n (overwrite buf j bs) = field i n buf"
  by (simp add: field_def overwrite_def take_drop)

lemma field_after [buffer_simps]:
  "j + length bs \<le> i \<Longrightarrow> j \<le> length buf \<Longrightarrow> field i n (overwrite buf j bs) = field i n buf"
  by (simp add: field_def overwrite_def min_def)

text \<open>
  \<open>while (!feof(f) && (n = fread(buf + i, 1, remain, f)) > 0) { i += n; remain -= n; }\<close>: a
  \<open>fread\<close> that wants more bytes than the file has left sets the end-of-file flag.
\<close>

function fread_loop :: "nat \<Rightarrow> nat \<Rightarrow> 'a list \<Rightarrow> bool \<Rightarrow> 'a list \<Rightarrow> 'a list" where
  "fread_loop i remain rest eof buf =
     (if eof then buf
      else let got = take remain rest in
        if got = [] then buf
        else fread_loop (i + length got) (remain - length got) (drop remain rest)
          (length rest < remain) (overwrite buf i got))"
  by auto
termination
  by (relation "measure (\<lambda>(i, remain, rest, eof, buf). remain)") auto

declare fread_loop.simps [simp del]

text \<open>The buffer holds the file's first bytes, and behind them what it held before.\<close>

lemma fread_loop_eq: "fread_loop 0 chunk file False buf = overwrite buf 0 (take chunk file)"
proof -
  have stop: "fread_loop i remain rest True b = b" for i remain and rest b :: "'a list"
    by (simp add: fread_loop.simps)
  have full: "fread_loop i 0 rest False b = b" for i and rest b :: "'a list"
    by (simp add: fread_loop.simps)
  show ?thesis
    by (cases "length file < chunk")
      (auto simp: fread_loop.simps [of 0] stop full min_def Let_def overwrite_def)
qed

text \<open>
  \<open>while (remain && (n = sock.read_n(buffer + i, remain)) > 0) { i += n; remain -= n; }\<close>.
  The socket library is a parameter: \<open>rd n s\<close> are the bytes a read of at most \<open>n\<close> bytes takes
  from the stream \<open>s\<close>, and what it leaves of the stream.
\<close>

type_synonym 'a reader = "nat \<Rightarrow> 'a list \<Rightarrow> 'a list \<times> 'a list"

function recv_loop ::
  "'a reader \<Rightarrow> nat \<Rightarrow> nat \<Rightarrow> 'a list \<Rightarrow> 'a list \<Rightarrow> 'a list \<times> 'a list" where
  "recv_loop rd i remain s buf =
     (if remain = 0 then (buf, s)
      else let (got, s') = rd remain s in
        if got = [] then (buf, s')
        else recv_loop rd (i + length got) (remain - length got) s' (overwrite buf i got))"
  by auto
termination
  by (relation "measure (\<lambda>(rd, i, remain, s, buf). remain)") auto

declare recv_loop.simps [simp del]

text \<open>
  What the loop relies on: a read takes a prefix of the stream that is no longer than asked for,
  and takes nothing only at the end of the stream. It need not take all that was asked for.
\<close>

definition stream_reader :: "'a reader \<Rightarrow> bool" where
  "stream_reader rd \<longleftrightarrow> (\<forall>n s. fst (rd n s) @ snd (rd n s) = s \<and> length (fst (rd n s)) \<le> n \<and>
     (fst (rd n s) = [] \<longrightarrow> n = 0 \<or> s = []))"

lemma recv_loop_eq:
  assumes "stream_reader rd" and "i + remain \<le> length buf"
  shows "recv_loop rd i remain s buf = (overwrite buf i (take remain s), drop remain s)"
  using assms(2)
proof (induction remain arbitrary: i s buf rule: less_induct)
  case (less remain)
  obtain got s' where r: "rd remain s = (got, s')" by fastforce
  with assms(1) have g: "s = got @ s'" "length got \<le> remain" "got = [] \<Longrightarrow> remain = 0 \<or> s = []"
    by (auto simp: stream_reader_def dest: spec [of _ remain] spec2 [of _ remain s])
  show ?case
  proof (cases "remain = 0 \<or> got = []")
    case True
    with g r show ?thesis by (auto simp: recv_loop.simps [of rd i remain])
  next
    case False
    then have "recv_loop rd i remain s buf =
        recv_loop rd (i + length got) (remain - length got) s' (overwrite buf i got)"
      by (simp add: recv_loop.simps [of rd i remain] r)
    also have "\<dots> = (overwrite (overwrite buf i got) (i + length got) (take (remain - length got) s'),
        drop (remain - length got) s')"
      using False less.prems g(2) by (intro less.IH) auto
    also have "\<dots> = (overwrite buf i (take remain s), drop remain s)"
      using g(1,2) less.prems by (simp add: overwrite_overwrite)
    finally show ?thesis .
  qed
qed

section \<open>Object representations\<close>

definition le_bytes :: "nat \<Rightarrow> nat \<Rightarrow> byte list" where
  "le_bytes n x = map (\<lambda>i. word_of_nat (x div 256 ^ i)) [0..<n]"

primrec le_val :: "byte list \<Rightarrow> nat" where
  "le_val [] = 0"
| "le_val (b # bs) = unat b + 256 * le_val bs"

lemma length_le_bytes [simp]: "length (le_bytes n x) = n"
  by (simp add: le_bytes_def)

lemma le_bytes_Suc: "le_bytes (Suc n) x = word_of_nat x # le_bytes n (x div 256)"
  unfolding le_bytes_def upt_conv_Cons [OF zero_less_Suc]
  by (simp add: map_Suc_upt [symmetric] div_mult2_eq del: upt_Suc)

lemma le_val_bytes: "le_val (le_bytes n x) = x mod 256 ^ n"
proof (induction n arbitrary: x)
  case 0
  then show ?case by (simp add: le_bytes_def)
next
  case (Suc n)
  then show ?case by (simp add: le_bytes_Suc unat_of_nat mod_mult2_eq)
qed

text \<open>\<open>int16_t\<close> to its two bytes, seen as an unsigned number.\<close>

definition from_int16 :: "int \<Rightarrow> nat" where
  "from_int16 x = nat (x mod 2 ^ 16)"

lemma to_from_int16: "- 32768 \<le> x \<Longrightarrow> x < 32768 \<Longrightarrow> to_int16 (from_int16 x) = x"
proof (cases "0 \<le> x")
  case False
  assume "- 32768 \<le> x"
  then have "x mod 65536 = x + 65536"
    using False mod_pos_pos_trivial [of "x + 65536" 65536] by simp
  with False \<open>- 32768 \<le> x\<close> show ?thesis
    by (simp add: from_int16_def to_int16_def wrap16_def)
qed (auto simp: from_int16_def to_int16_def wrap16_def)

lemma to_int16_mod: "to_int16 (x mod 65536) = to_int16 x"
  by (simp add: to_int16_def wrap16_def)

text \<open>A C string: its characters and the null byte.\<close>

definition cstring :: "string \<Rightarrow> byte list" where
  "cstring s = map (\<lambda>c. word_of_nat (of_char c)) s @ [0]"

definition cread :: "byte list \<Rightarrow> string" where
  "cread bs = map (\<lambda>b. char_of (unat b)) (takeWhile (\<lambda>b. b \<noteq> 0) bs)"

definition null_free :: "string \<Rightarrow> bool" where
  "null_free s \<longleftrightarrow> (\<forall>c \<in> set s. of_char c \<noteq> (0 :: nat))"

lemma cread_cstring: "null_free s \<Longrightarrow> cread (cstring s @ bs) = s"
proof -
  assume s: "null_free s"
  have c: "unat (word_of_nat (of_char c) :: byte) = of_char c" for c :: char
    by (simp add: unat_of_nat of_char_mod_256)
  have "(word_of_nat (of_char c) :: byte) \<noteq> 0" if "c \<in> set s" for c
    using s that c [of c] by (auto simp: null_free_def simp del: unat_of_nat)
  then have "takeWhile (\<lambda>b. b \<noteq> 0) (cstring s @ bs) =
      map (\<lambda>c. word_of_nat (of_char c)) s"
    unfolding cstring_def by (simp add: takeWhile_append)
  then show "cread (cstring s @ bs) = s"
    by (simp add: cread_def o_def c map_idI del: unat_of_nat)
qed

text \<open>
  The layout: \<open>index\<close> at 0, \<open>source\<close> at 4, \<open>target\<close> at 6, \<open>mem_ptr\<close> at 8, \<open>coefficient\<close>
  at 16, \<open>target_fn\<close> at 17, \<open>store_fn\<close> at 49, seven bytes of padding at 81.
\<close>

abbreviation header_size :: nat where "header_size \<equiv> 88"

definition put_field :: "nat \<Rightarrow> byte list option \<Rightarrow> byte list \<Rightarrow> byte list" where
  "put_field i v raw = (case v of None \<Rightarrow> raw | Some bs \<Rightarrow> overwrite raw i bs)"

definition encode_migration :: "byte list \<Rightarrow> migration \<Rightarrow> byte list" where
  "encode_migration raw t =
     put_field 49 (map_option cstring (store_fn t)) (
     put_field 17 (map_option cstring (target_fn t)) (
     put_field 16 (map_option (le_bytes 1) (coefficient t)) (
     put_field 8 (Some (le_bytes 8 (case mem_ptr t of None \<Rightarrow> 0 | Some p \<Rightarrow> p))) (
     put_field 6 (Some (le_bytes 2 (from_int16 (target t)))) (
     put_field 4 (Some (le_bytes 2 (from_int16 (source t)))) (
     put_field 0 (map_option (le_bytes 4) (mi_index t)) raw))))))"

text \<open>A character array that holds no null byte is not a string, whatever is behind it.\<close>

definition cfield :: "byte list \<Rightarrow> string option" where
  "cfield bs = (if 0 \<in> set bs then Some (cread bs) else None)"

definition decode_migration :: "byte list \<Rightarrow> migration" where
  "decode_migration bs =
     \<lparr>mi_index = Some (le_val (field 0 4 bs)),
      source = to_int16 (le_val (field 4 2 bs)),
      target = to_int16 (le_val (field 6 2 bs)),
      mem_ptr = (let p = le_val (field 8 8 bs) in if p = 0 then None else Some p),
      coefficient = Some (le_val (field 16 1 bs)),
      target_fn = cfield (field 17 32 bs),
      store_fn = cfield (field 49 32 bs)\<rparr>"

text \<open>A task whose fields fit their members.\<close>

definition fits :: "migration \<Rightarrow> bool" where
  "fits t \<longleftrightarrow> - 32768 \<le> source t \<and> source t < 32768 \<and> - 32768 \<le> target t \<and> target t < 32768 \<and>
     (\<forall>i. mi_index t = Some i \<longrightarrow> i < 2 ^ 32) \<and>
     (\<forall>p. mem_ptr t = Some p \<longrightarrow> 0 < p \<and> p < 2 ^ 64) \<and>
     (\<forall>c. coefficient t = Some c \<longrightarrow> c < 256) \<and>
     (\<forall>s. target_fn t = Some s \<longrightarrow> length s < 32 \<and> null_free s) \<and>
     (\<forall>s. store_fn t = Some s \<longrightarrow> length s < 32 \<and> null_free s)"

text \<open>What was received agrees with what was sent on every field that was initialised.\<close>

definition received_as :: "migration \<Rightarrow> migration \<Rightarrow> bool" where
  "received_as t t' \<longleftrightarrow> source t' = source t \<and> target t' = target t \<and> mem_ptr t' = mem_ptr t \<and>
     (mi_index t \<noteq> None \<longrightarrow> mi_index t' = mi_index t) \<and>
     (coefficient t \<noteq> None \<longrightarrow> coefficient t' = coefficient t) \<and>
     (target_fn t \<noteq> None \<longrightarrow> target_fn t' = target_fn t) \<and>
     (store_fn t \<noteq> None \<longrightarrow> store_fn t' = store_fn t)"

lemma length_put_field:
  "(\<And>bs. v = Some bs \<Longrightarrow> i + length bs \<le> length raw) \<Longrightarrow>
    length (put_field i v raw) = length raw"
  by (cases v) (simp_all add: put_field_def)

lemma put_before:
  "i + n \<le> j \<Longrightarrow> j \<le> length raw \<Longrightarrow> field i n (put_field j v raw) = field i n raw"
  by (cases v) (simp_all add: put_field_def buffer_simps)

lemma put_after:
  "(\<And>bs. v = Some bs \<Longrightarrow> j + length bs \<le> i) \<Longrightarrow> j \<le> length raw \<Longrightarrow>
    field i n (put_field j v raw) = field i n raw"
  by (cases v) (simp_all add: put_field_def buffer_simps)

lemma put_same:
  "v = Some bs \<Longrightarrow> i + length bs \<le> length raw \<Longrightarrow> n = length bs \<Longrightarrow>
    field i n (put_field i v raw) = bs"
  by (simp add: put_field_def buffer_simps)

lemma length_cstring [simp]: "length (cstring s) = Suc (length s)"
  by (simp add: cstring_def)

lemma cfield_cstring:
  assumes "field i (Suc (length s)) bs = cstring s" and "null_free s" and "length s < 32"
  shows "cfield (field i 32 bs) = Some s"
proof -
  have "take (Suc (length s)) (field i 32 bs) = cstring s"
    using assms(1,3) by (simp add: field_def min_def)
  then obtain rest where "field i 32 bs = cstring s @ rest" by (metis append_take_drop_id)
  then show ?thesis
    using cread_cstring [OF assms(2), of rest] by (simp add: cfield_def) (simp add: cstring_def)
qed

text \<open>The fields of an encoded header.\<close>

lemma encode_fields:
  assumes "fits t" and "length raw = header_size"
  shows "length (encode_migration raw t) = header_size"
    and "mi_index t = Some x \<Longrightarrow> field 0 4 (encode_migration raw t) = le_bytes 4 x"
    and "field 4 2 (encode_migration raw t) = le_bytes 2 (from_int16 (source t))"
    and "field 6 2 (encode_migration raw t) = le_bytes 2 (from_int16 (target t))"
    and "field 8 8 (encode_migration raw t) =
      le_bytes 8 (case mem_ptr t of None \<Rightarrow> 0 | Some p \<Rightarrow> p)"
    and "coefficient t = Some c \<Longrightarrow> field 16 1 (encode_migration raw t) = le_bytes 1 c"
    and "target_fn t = Some f \<Longrightarrow>
      field 17 (Suc (length f)) (encode_migration raw t) = cstring f"
    and "store_fn t = Some g \<Longrightarrow>
      field 49 (Suc (length g)) (encode_migration raw t) = cstring g"
proof -
  have len: "length b \<le> 32" if "target_fn t = Some s \<or> store_fn t = Some s" "b = cstring s" for b s
    using assms(1) that by (auto simp: fits_def)
  note [simp] = assms(2)
  define r0 where "r0 = put_field 0 (map_option (le_bytes 4) (mi_index t)) raw"
  define r1 where "r1 = put_field 4 (Some (le_bytes 2 (from_int16 (source t)))) r0"
  define r2 where "r2 = put_field 6 (Some (le_bytes 2 (from_int16 (target t)))) r1"
  define r3 where
    "r3 = put_field 8 (Some (le_bytes 8 (case mem_ptr t of None \<Rightarrow> 0 | Some p \<Rightarrow> p))) r2"
  define r4 where "r4 = put_field 16 (map_option (le_bytes 1) (coefficient t)) r3"
  define r5 where "r5 = put_field 17 (map_option cstring (target_fn t)) r4"
  define r6 where "r6 = put_field 49 (map_option cstring (store_fn t)) r5"
  have e: "encode_migration raw t = r6"
    by (simp add: encode_migration_def r0_def r1_def r2_def r3_def r4_def r5_def r6_def)
  have l0 [simp]: "length r0 = 88" unfolding r0_def by (subst length_put_field) auto
  have l1 [simp]: "length r1 = 88" unfolding r1_def by (subst length_put_field) auto
  have l2 [simp]: "length r2 = 88" unfolding r2_def by (subst length_put_field) auto
  have l3 [simp]: "length r3 = 88" unfolding r3_def by (subst length_put_field) auto
  have l4 [simp]: "length r4 = 88" unfolding r4_def by (subst length_put_field) auto
  have l5 [simp]: "length r5 = 88" unfolding r5_def
    by (subst length_put_field) (use len in fastforce)+
  have l6 [simp]: "length r6 = 88" unfolding r6_def
    by (subst length_put_field) (use len in fastforce)+
  have f6: "field i n r6 = field i n r5" if "i + n \<le> 49" for i n
    unfolding r6_def using that by (intro put_before) auto
  have f5: "field i n r5 = field i n r4" if "i + n \<le> 17" for i n
    unfolding r5_def using that by (intro put_before) auto
  have f4: "field i n r4 = field i n r3" if "i + n \<le> 16" for i n
    unfolding r4_def using that by (intro put_before) auto
  have f3: "field i n r3 = field i n r2" if "i + n \<le> 8" for i n
    unfolding r3_def using that by (intro put_before) auto
  have f2: "field i n r2 = field i n r1" if "i + n \<le> 6" for i n
    unfolding r2_def using that by (intro put_before) auto
  have f1: "field i n r1 = field i n r0" if "i + n \<le> 4" for i n
    unfolding r1_def using that by (intro put_before) auto
  show "length (encode_migration raw t) = header_size" by (simp add: e)
  show "field 0 4 (encode_migration raw t) = le_bytes 4 x" if "mi_index t = Some x"
    using that by (simp add: e f6 f5 f4 f3 f2 f1) (simp add: r0_def put_same)
  show "field 4 2 (encode_migration raw t) = le_bytes 2 (from_int16 (source t))"
    by (simp add: e f6 f5 f4 f3 f2) (simp add: r1_def put_same)
  show "field 6 2 (encode_migration raw t) = le_bytes 2 (from_int16 (target t))"
    by (simp add: e f6 f5 f4 f3) (simp add: r2_def put_same)
  show "field 8 8 (encode_migration raw t) =
      le_bytes 8 (case mem_ptr t of None \<Rightarrow> 0 | Some p \<Rightarrow> p)"
    by (simp add: e f6 f5 f4) (simp add: r3_def put_same)
  show "field 16 1 (encode_migration raw t) = le_bytes 1 c" if "coefficient t = Some c"
    using that by (simp add: e f6 f5) (simp add: r4_def put_same)
  show "field 17 (Suc (length f)) (encode_migration raw t) = cstring f" if "target_fn t = Some f"
    using that len [of f] by (simp add: e f6) (simp add: r5_def put_same)
  show "field 49 (Suc (length g)) (encode_migration raw t) = cstring g" if "store_fn t = Some g"
    unfolding e r6_def using that len [of g] by (simp add: put_same)
qed

lemma decode_encode:
  assumes "fits t" and "length raw = header_size"
  shows "received_as t (decode_migration (encode_migration raw t))"
proof -
  note f = encode_fields [OF assms]
  let ?d = "decode_migration (encode_migration raw t)"
  have s: "source ?d = source t" "target ?d = target t"
    using assms(1) to_from_int16 [of "source t"] to_from_int16 [of "target t"]
    by (simp_all add: decode_migration_def f le_val_bytes fits_def to_int16_mod)
  have i: "mi_index ?d = Some x" if "mi_index t = Some x" for x
    using assms(1) that by (simp add: decode_migration_def f le_val_bytes fits_def)
  have m: "mem_ptr ?d = mem_ptr t"
    using assms(1) by (cases "mem_ptr t")
      (simp_all add: decode_migration_def f le_val_bytes fits_def Let_def)
  have c: "coefficient ?d = Some x" if "coefficient t = Some x" for x
    using assms(1) that f(6) [OF that] le_val_bytes [of 1 x]
    by (simp add: decode_migration_def fits_def)
  have tf: "target_fn ?d = Some x" if "target_fn t = Some x" for x
    using assms(1) that cfield_cstring [OF f(7)] by (simp add: decode_migration_def fits_def)
  have sf: "store_fn ?d = Some x" if "store_fn t = Some x" for x
    using assms(1) that cfield_cstring [OF f(8)] by (simp add: decode_migration_def fits_def)
  show ?thesis
    unfolding received_as_def using s i m c tf sf by auto
qed

text \<open>Whatever was received fits the members of the object.\<close>

lemma le_val_less: "le_val bs < 256 ^ length bs"
proof (induction bs)
  case (Cons b bs)
  have "unat b < 256" using unsigned_less [of b, where ?'a = nat] by simp
  with Cons show ?case by simp
qed simp

lemma cfield_fits:
  assumes "cfield bs = Some s" and "length bs \<le> n"
  shows "length s < n" "null_free s"
proof -
  from assms(1) have z: "0 \<in> set bs" and s: "s = cread bs" by (auto simp: cfield_def split: if_splits)
  from z have "length (takeWhile (\<lambda>b. b \<noteq> 0) bs) < length bs"
    by (induction bs) auto
  with assms(2) s show "length s < n" by (simp add: cread_def)
  have "unat b mod 256 = unat b" for b :: byte using unsigned_less [of b, where ?'a = nat] by simp
  then show "null_free s"
    by (auto simp: s null_free_def cread_def unat_gt_0 dest: set_takeWhileD)
qed

lemma to_int16_range: "- 32768 \<le> to_int16 x \<and> to_int16 x < 32768"
  by (auto simp: to_int16_def wrap16_def)

lemma decode_fits: "fits (decode_migration bs)"
proof -
  have l: "length (field i n bs) \<le> n" for i n by (simp add: field_def)
  have v: "le_val (field i n bs) < 256 ^ n" for i n
    using le_val_less [of "field i n bs"] l [of i n] power_increasing [of "length (field i n bs)" n 256]
    by (simp add: less_le_trans)
  show ?thesis
    using v [of 0 4] v [of 8 8] v [of 16 1] to_int16_range cfield_fits [OF _ l]
    by (auto simp: fits_def decode_migration_def Let_def split: if_splits)
qed

lemma received_as_trans: "received_as t t' \<Longrightarrow> received_as t' t'' \<Longrightarrow> received_as t t''"
  by (auto simp: received_as_def)

section \<open>Properties\<close>

text \<open>C27. A task survives the wire: what a peer reads back from the bytes of a task has the same
  value in every field that the sender had initialised, whatever was in the memory of the others,
  as long as the values fit their members (file names of at most 31 characters).\<close>

theorem header_roundtrip:
  assumes "fits t" and "length raw = header_size"
  shows "received_as t (decode_migration (encode_migration raw t))"
  by (rule decode_encode [OF assms])

theorem header_roundtrip_witness:
  "received_as ((new_migration 3 7 0)\<lparr>mi_index := Some 70000, store_fn := Some ''test/store/7_3/f_70000''\<rparr>)
    (decode_migration (encode_migration (replicate 88 255)
      ((new_migration 3 7 0)\<lparr>mi_index := Some 70000, store_fn := Some ''test/store/7_3/f_70000''\<rparr>)))"
  by (rule header_roundtrip)
    (simp_all add: fits_def new_migration_def null_free_def to_int16_def wrap16_def wrap8_def)

end
