(* ===== verification/Thread_Pool.thy ===== *)
theory Thread_Pool
  imports Prelude
begin

text \<open>
  The class template \<open>ThreadPool<Msg>\<close> (include/thread_pool.hh): a task queue with a flag that
  seals it. Each operation holds the queue's mutex from its first to its last access, so it is
  one step of a run; \<open>get_task\<close> is \<open>None\<close> while the caller waits on the condition variable.

  The locale \<open>task_channel\<close> is what the program's threads rely on: the messages come out in the
  order they went in, whatever the interleaving, and a consumer of a sealed queue ends.
\<close>

record 'm thread_pool =
  thread_num :: nat
  task_queue :: "'m list"
  seal_flag :: bool

definition new_pool :: "nat \<Rightarrow> 'm thread_pool" where
  "new_pool t = \<lparr>thread_num = t, task_queue = [], seal_flag = False\<rparr>"

definition add_task :: "'m \<Rightarrow> 'm thread_pool \<Rightarrow> 'm thread_pool" where
  "add_task msg p = p\<lparr>task_queue := task_queue p @ [msg]\<rparr>"

text \<open>\<open>get_task\<close>; \<open>dflt\<close> is the default-constructed message \<open>Msg()\<close>.\<close>

definition get_task :: "'m \<Rightarrow> 'm thread_pool \<Rightarrow> ('m \<times> 'm thread_pool) option" where
  "get_task dflt p =
     (if \<not> seal_flag p \<and> task_queue p = [] then None
      else case task_queue p of
        m # ms \<Rightarrow> Some (m, p\<lparr>task_queue := ms\<rparr>)
      | [] \<Rightarrow> Some (dflt, p))"

definition set_finished :: "'m thread_pool \<Rightarrow> 'm thread_pool" where
  "set_finished p = p\<lparr>seal_flag := True\<rparr>"

section \<open>Runs of a channel\<close>

datatype 'm channel_event = Add 'm | Get | Seal

text \<open>
  A run: the events in the order in which they take the mutex, and the messages that the
  \<open>Get\<close> events returned. A \<open>Get\<close> that has to wait is not an event yet.
\<close>

fun channel_step ::
  "('m \<Rightarrow> 'p \<Rightarrow> 'p) \<Rightarrow> ('p \<Rightarrow> ('m \<times> 'p) option) \<Rightarrow> ('p \<Rightarrow> 'p) \<Rightarrow>
    'p \<times> 'm list \<Rightarrow> 'm channel_event \<Rightarrow> ('p \<times> 'm list) option" where
  "channel_step add get seal (p, got) (Add m) = Some (add m p, got)"
| "channel_step add get seal (p, got) Get = do { (m, p') \<leftarrow> get p; Some (p', got @ [m]) }"
| "channel_step add get seal (p, got) Seal = Some (seal p, got)"

definition run_channel ::
  "('m \<Rightarrow> 'p \<Rightarrow> 'p) \<Rightarrow> ('p \<Rightarrow> ('m \<times> 'p) option) \<Rightarrow> ('p \<Rightarrow> 'p) \<Rightarrow>
    'm channel_event list \<Rightarrow> 'p \<Rightarrow> ('p \<times> 'm list) option" where
  "run_channel add get seal evs p = foldM (channel_step add get seal) (p, []) evs"

fun added :: "'m channel_event list \<Rightarrow> 'm list" where
  "added [] = []"
| "added (Add m # evs) = m # added evs"
| "added (_ # evs) = added evs"

text \<open>
  The loop of a single consumer thread, \<open>while (true) { task = get_task(); if (stop) break; ... }\<close>,
  with its body on a state of its own. It may wait forever, and the body may exit.
\<close>

partial_function (option) consume ::
  "('p \<Rightarrow> ('m \<times> 'p) option) \<Rightarrow> ('m \<Rightarrow> bool) \<Rightarrow> ('s \<Rightarrow> 'm \<Rightarrow> (exit_status + 's) option) \<Rightarrow>
    'p \<Rightarrow> 's \<Rightarrow> (exit_status + 's \<times> 'p) option" where
  "consume get stop body p st = do {
     (m, p') \<leftarrow> get p;
     if stop m then Some (Inr (st, p'))
     else do {
       r \<leftarrow> body st m;
       case r of Inl e \<Rightarrow> Some (Inl e) | Inr st' \<Rightarrow> consume get stop body p' st'
     }
   }"

section \<open>The contract\<close>

locale task_channel =
  fixes add :: "'m \<Rightarrow> 'p \<Rightarrow> 'p"
    and get :: "'p \<Rightarrow> ('m \<times> 'p) option"
    and seal :: "'p \<Rightarrow> 'p"
    and pending :: "'p \<Rightarrow> 'm list"
    and sealed :: "'p \<Rightarrow> bool"
    and dflt :: 'm
  assumes pending_add: "pending (add m p) = pending p @ [m]"
    and sealed_add: "sealed (add m p) = sealed p"
    and pending_seal: "pending (seal p) = pending p"
    and sealed_seal: "sealed (seal p)"
    and get_first: "pending p = m # ms \<Longrightarrow>
      \<exists>p'. get p = Some (m, p') \<and> pending p' = ms \<and> sealed p' = sealed p"
    and get_sealed: "pending p = [] \<Longrightarrow> sealed p \<Longrightarrow> get p = Some (dflt, p)"
    and get_waits: "pending p = [] \<Longrightarrow> \<not> sealed p \<Longrightarrow> get p = None"
begin

lemma get_cases:
  assumes "get p = Some (m, p')"
  obtains (message) "pending p = m # pending p'" "sealed p' = sealed p"
  | (stop) "pending p = []" "sealed p" "m = dflt" "p' = p"
proof (cases "pending p")
  case Nil
  with assms get_waits have "sealed p" by (cases "sealed p") auto
  with get_sealed [OF Nil] assms have "m = dflt" "p' = p" by simp_all
  with Nil \<open>sealed p\<close> show thesis by (rule stop)
next
  case (Cons x xs)
  from get_first [OF this] assms have "pending p = m # pending p'" "sealed p' = sealed p"
    using Cons by auto
  then show thesis by (rule message)
qed

lemma step_fifo:
  assumes "channel_step add get seal (p, got) e = Some (p', got')" and "e \<noteq> Add dflt"
    and "filter (\<lambda>m. m \<noteq> dflt) got @ pending p = sent" and "dflt \<notin> set (pending p)"
  shows "filter (\<lambda>m. m \<noteq> dflt) got' @ pending p' = sent @ added [e] \<and> dflt \<notin> set (pending p')"
proof (cases e)
  case (Add m)
  with assms show ?thesis by (auto simp: pending_add)
next
  case Get
  with assms(1) obtain m where m: "get p = Some (m, p')" "got' = got @ [m]"
    by (auto simp: bind_eq_Some_conv)
  from m(1) show ?thesis
    by (cases rule: get_cases) (use Get m assms in auto)
next
  case Seal
  with assms show ?thesis by (auto simp: pending_seal)
qed

lemma run_fifo:
  assumes "run_channel add get seal evs p = Some (p', got)" and "dflt \<notin> set (added evs)"
    and "pending p = []"
  shows "filter (\<lambda>m. m \<noteq> dflt) got @ pending p' = added evs"
proof -
  have "filter (\<lambda>m. m \<noteq> dflt) got' @ pending p' = sent @ added evs"
    if "foldM (channel_step add get seal) (p, got) evs = Some (p', got')"
      and "filter (\<lambda>m. m \<noteq> dflt) got @ pending p = sent" and "dflt \<notin> set (pending p)"
      and "dflt \<notin> set (added evs)" for p got got' sent
    using that
  proof (induction evs arbitrary: p got sent)
    case Nil
    then show ?case by simp
  next
    case (Cons e evs)
    from Cons.prems(1) obtain q h where q: "channel_step add get seal (p, got) e = Some (q, h)"
      "foldM (channel_step add get seal) (q, h) evs = Some (p', got')"
      by (auto simp: bind_eq_Some_conv)
    have e: "e \<noteq> Add dflt" "dflt \<notin> set (added evs)" "added (e # evs) = added [e] @ added evs"
      using Cons.prems(4) by (cases e; auto)+
    from Cons.IH [OF q(2) _ _ e(2)] step_fifo [OF q(1) e(1) Cons.prems(2,3)]
    show ?case by (simp add: e(3))
  qed
  from this [of p "[]" got "[]"] assms show ?thesis by (simp add: run_channel_def)
qed

text \<open>A consumer of a sealed channel treats all messages before the first that stops it.\<close>

lemma consume_sealed:
  assumes "sealed p" and "stop dflt"
  shows "\<exists>p'. consume get stop body p st = do {
      r \<leftarrow> foldX body st (takeWhile (\<lambda>m. \<not> stop m) (pending p));
      case r of Inl e \<Rightarrow> Some (Inl e) | Inr st' \<Rightarrow> Some (Inr (st', p')) }"
  using assms(1)
proof (induction "pending p" arbitrary: p st)
  case Nil
  then show ?case using assms(2) by (simp add: consume.simps [of get stop body p] get_sealed)
next
  case (Cons m ms)
  note pend = Cons.hyps(2) [symmetric]
  from get_first [OF pend] obtain p' where
    p': "get p = Some (m, p')" "pending p' = ms" "sealed p' = sealed p" by blast
  show ?case
  proof (cases "stop m \<or> body st m = None \<or> (\<exists>e. body st m = Some (Inl e))")
    case True
    with p' show ?thesis by (auto simp: consume.simps [of get stop body p] pend)
  next
    case False
    then obtain st' where st': "body st m = Some (Inr st')" "\<not> stop m"
      by (auto simp: not_None_eq) (metis sumE)
    from Cons.hyps(1) [of p' st'] p' Cons.prems st' show ?thesis
      by (simp add: consume.simps [of get stop body p st] pend)
  qed
qed

end

interpretation pool: task_channel add_task "get_task d" set_finished task_queue seal_flag d
  for d :: 'm
  by unfold_locales (auto simp: add_task_def get_task_def set_finished_def)

lemmas pool_defs = add_task_def get_task_def set_finished_def new_pool_def

section \<open>Properties\<close>



end
