(* ===== verification/Client.thy ===== *)
theory Client
  imports Bytes Thread_Pool
begin

text \<open>
  The class \<open>TCPClient\<close> (include/tcp_client.hh, src/tcp_client.cc): the sending half of a node.
  The state holds, for each connection, the bytes written to it. Opening a connection is retried
  until it succeeds, so the model starts from the connections that were opened.
\<close>

section \<open>State and connections\<close>

record client_env =
  c_chunk :: nat
  c_files :: "string \<Rightarrow> byte list option"
  conn_up :: "nat \<Rightarrow> bool"
  raw_mem :: "migration \<Rightarrow> byte list"

text \<open>\<open>multi\<close> is \<open>req_mtxs != nullptr\<close>: the client was built with a list of addresses.\<close>

record client =
  node_index :: nat
  conn_num :: nat
  multi :: bool
  tasks :: "migration thread_pool"
  outgoing :: "nat \<Rightarrow> byte list"

text \<open>The numbers under which the constructor connects to the addresses: it skips its own.\<close>

fun connect_all :: "nat \<Rightarrow> nat \<Rightarrow> 'a list \<Rightarrow> (nat \<times> 'a) list" where
  "connect_all i j [] = []"
| "connect_all i j (a # as) =
     (let j' = if j = i then wrap16 (j + 1) else j in (j', a) # connect_all i (wrap16 (j' + 1)) as)"

definition write_conn :: "nat \<Rightarrow> byte list \<Rightarrow> client \<Rightarrow> client" where
  "write_conn j bs c = c\<lparr>outgoing := (outgoing c)(j := outgoing c j @ bs)\<rparr>"

text \<open>\<open>connect_one\<close>, once connected.\<close>

definition connect_one :: "nat \<Rightarrow> client \<Rightarrow> client" where
  "connect_one j c = write_conn j (le_bytes 2 (node_index c)) c"

text \<open>The client as the constructor's initialisers leave it, and with all connections made.\<close>

definition blank_client :: "nat \<Rightarrow> 'a list \<Rightarrow> nat \<Rightarrow> client" where
  "blank_client i sa thr_num =
     \<lparr>node_index = i, conn_num = wrap16 (length sa), multi = True, tasks = new_pool thr_num,
      outgoing = (\<lambda>_. [])\<rparr>"

definition new_client :: "nat \<Rightarrow> 'a list \<Rightarrow> nat \<Rightarrow> client" where
  "new_client i sa thr_num =
     foldl (\<lambda>c (j, a). connect_one j c) (blank_client i sa thr_num) (connect_all i 1 sa)"

text \<open>The constructor for a single connection; it leaves \<open>conn_num\<close> uninitialised.\<close>

definition new_single_client :: "nat \<Rightarrow> nat \<Rightarrow> client" where
  "new_single_client i junk = connect_one 0
     \<lparr>node_index = i, conn_num = junk, multi = False, tasks = new_pool 1, outgoing = (\<lambda>_. [])\<rparr>"

section \<open>Sending\<close>

text \<open>The read loop of \<open>run\<close>: each piece that was read is written to the connection at once.\<close>

function fsend_loop ::
  "nat \<Rightarrow> nat \<Rightarrow> 'a list \<Rightarrow> bool \<Rightarrow> 'a list \<Rightarrow> 'a list \<Rightarrow> 'a list \<times> 'a list" where
  "fsend_loop i remain rest eof buf written =
     (if eof then (buf, written)
      else let got = take remain rest in
        if got = [] then (buf, written)
        else fsend_loop (i + length got) (remain - length got) (drop remain rest)
          (length rest < remain) (overwrite buf i got) (written @ got))"
  by auto
termination
  by (relation "measure (\<lambda>(i, remain, rest, eof, buf, written). remain)") auto

declare fsend_loop.simps [simp del]

lemma fsend_loop_eq: "snd (fsend_loop 0 chunk file False buf []) = take chunk file"
proof -
  have stop: "fsend_loop i remain rest True b w = (b, w)" for i remain and rest b w :: "'a list"
    by (simp add: fsend_loop.simps)
  have full: "fsend_loop i 0 rest False b w = (b, w)" for i and rest b w :: "'a list"
    by (simp add: fsend_loop.simps)
  show ?thesis
    by (cases "length file < chunk")
      (auto simp: fsend_loop.simps [of 0] stop full min_def Let_def)
qed

text \<open>
  The body of \<open>run\<close> for one task: the header and, unless this is the master, the chunk. The
  connection arrays have \<open>conn_num + 2\<close> entries.
\<close>

definition host_of :: "client \<Rightarrow> migration \<Rightarrow> nat" where
  "host_of c t = from_int16 (if node_index c \<noteq> 0 then target t else source t)"

definition send_task ::
  "client_env \<Rightarrow> client \<times> byte list \<Rightarrow> migration \<Rightarrow> (exit_status + client \<times> byte list) option" where
  "send_task e = (\<lambda>(c, buf) t.
     let host = host_of c t; j = if multi c then host else 0 in
     if multi c \<and> conn_num c + 2 \<le> host then None
     else if \<not> conn_up e j then Some (Inl (Exit (-1)))
     else
       let c1 = write_conn j (encode_migration (raw_mem e t) t) c in
       if node_index c \<noteq> 0 then
         case c_files e ''test/stdfile'' of
           None \<Rightarrow> Some (Inl (Exit (-1)))
         | Some file \<Rightarrow>
             let (buf', data) = fsend_loop 0 (c_chunk e) file False buf []
             in Some (Inr (write_conn j data c1, buf'))
       else Some (Inr (c1, buf)))"

abbreviation is_stop :: "migration \<Rightarrow> bool" where
  "is_stop t \<equiv> source t = 0 \<and> target t = 0"

definition run_client :: "client_env \<Rightarrow> client \<Rightarrow> (exit_status + client) option" where
  "run_client e c = do {
     r \<leftarrow> consume (get_task default_migration) is_stop (send_task e) (tasks c)
       (c, replicate (c_chunk e) 0);
     case r of Inl x \<Rightarrow> Some (Inl x) | Inr ((c', buf), p) \<Rightarrow> Some (Inr (c'\<lparr>tasks := p\<rparr>))
   }"

text \<open>The loops over all connections, \<open>for (i = 1; i <= conn_num + (node_index ? 1 : 0); ++i)\<close>.\<close>

definition connections :: "client \<Rightarrow> nat list" where
  "connections c = filter (\<lambda>i. i \<noteq> node_index c)
     [1..<Suc (conn_num c + (if node_index c \<noteq> 0 then 1 else 0))]"

text \<open>With the single-connection constructor the connection array is a null pointer.\<close>

definition send_shutdown_signal :: "client_env \<Rightarrow> client \<Rightarrow> (exit_status + client) option" where
  "send_shutdown_signal e c =
     (if \<not> multi c then None
      else foldX (\<lambda>c i. if conn_up e i
          then Some (Inr (write_conn i (encode_migration (raw_mem e default_migration) default_migration) c))
          else Some (Inl (Exit (-1))))
        c (connections c))"

definition wait_start_flag :: "client_env \<Rightarrow> client \<Rightarrow> nat \<Rightarrow> (exit_status + client) option" where
  "wait_start_flag e c i = (if conn_up e i then Some (Inr c) else Some (Inl (Exit (-1))))"

definition start_client :: "client_env \<Rightarrow> client \<Rightarrow> (exit_status + client) option" where
  "start_client e c = do {
     r \<leftarrow> foldX (wait_start_flag e) c (if multi c then connections c else [0]);
     case r of
       Inl x \<Rightarrow> Some (Inl x)
     | Inr c1 \<Rightarrow> do {
         r \<leftarrow> run_client e c1;
         case r of Inl x \<Rightarrow> Some (Inl x) | Inr c2 \<Rightarrow> send_shutdown_signal e c2
       }
   }"

text \<open>\<open>demo_tasks\<close>: twenty tasks for tests.\<close>

definition demo_tasks :: "client \<Rightarrow> client" where
  "demo_tasks c = (let p = foldl (\<lambda>p i. add_task ((new_migration 0 1 (i mod 2))
       \<lparr>mi_index := Some i, target_fn := (if i mod 2 = 1 then Some ''test/stdfile'' else None)\<rparr>) p)
     (tasks c) [0..<20]
   in c\<lparr>tasks := set_finished p\<rparr>)"

section \<open>Connections\<close>

lemma connect_all_skip: "connect_all i i as = connect_all i (wrap16 (i + 1)) as"
  if "wrap16 (i + 1) \<noteq> i"
  using that by (cases as) auto

text \<open>
  If the addresses are those of nodes \<open>j, ..., n\<close> without node \<open>i\<close>, each is connected to under
  its node's number.
\<close>

lemma connect_all_numbers:
  assumes "n < 65535" and "1 \<le> j" and "j \<le> n + 1"
  shows "connect_all i j (map f (filter (\<lambda>j. j \<noteq> i) [j..<Suc n])) =
    map (\<lambda>j. (j, f j)) (filter (\<lambda>j. j \<noteq> i) [j..<Suc n])"
  using assms(2,3)
proof (induction "Suc n - j" arbitrary: j)
  case 0
  then show ?case by simp
next
  case (Suc d)
  then have u: "[j..<Suc n] = j # [Suc j..<Suc n]" and w: "wrap16 (j + 1) = Suc j"
    using assms(1) upt_conv_Cons [of j "Suc n"] by (simp_all add: wrap16_small del: upt_Suc)
  have IH: "connect_all i (Suc j) (map f (filter (\<lambda>j. j \<noteq> i) [Suc j..<Suc n])) =
      map (\<lambda>j. (j, f j)) (filter (\<lambda>j. j \<noteq> i) [Suc j..<Suc n])"
    using Suc by (intro Suc.hyps(1)) auto
  show ?case
  proof (cases "j = i")
    case True
    then show ?thesis using IH connect_all_skip [of i "map f [Suc i..<Suc n]"] w
      unfolding u by (simp del: upt_Suc)
  next
    case False
    then show ?thesis using IH w by (simp add: u Let_def del: upt_Suc)
  qed
qed

lemma write_conn_simps [simp]:
  "node_index (write_conn j bs c) = node_index c" "conn_num (write_conn j bs c) = conn_num c"
  "multi (write_conn j bs c) = multi c" "tasks (write_conn j bs c) = tasks c"
  "outgoing (write_conn j bs c) = (outgoing c)(j := outgoing c j @ bs)"
  by (simp_all add: write_conn_def)

section \<open>What is sent\<close>

lemma foldl_connect:
  "distinct (map fst ps) \<Longrightarrow> foldl (\<lambda>c (j, a). connect_one j c) c ps =
    c\<lparr>outgoing := (\<lambda>j. if j \<in> fst ` set ps then outgoing c j @ le_bytes 2 (node_index c) else outgoing c j)\<rparr>"
proof (induction ps arbitrary: c)
  case Nil
  then show ?case by simp
next
  case (Cons p ps)
  obtain j a where p: "p = (j, a)" by fastforce
  from Cons have "j \<notin> fst ` set ps" by (auto simp: p)
  with Cons show ?case
    by (auto simp: p connect_one_def write_conn_def fun_eq_iff image_iff)
qed

text \<open>A client as the constructor leaves it: its index has been written to every connection.\<close>

definition ready_client :: "nat \<Rightarrow> nat \<Rightarrow> client \<Rightarrow> bool" where
  "ready_client i n c \<longleftrightarrow> node_index c = i \<and> multi c \<and> connections c = filter (\<lambda>j. j \<noteq> i) [1..<Suc n] \<and>
     n < conn_num c + 2 \<and>
     (\<forall>j. outgoing c j = (if j \<in> set (connections c) then le_bytes 2 i else []))"

lemma ready_tasks: "ready_client i n (c\<lparr>tasks := p\<rparr>) = ready_client i n c"
  by (simp add: ready_client_def connections_def)

text \<open>
  For the configuration's nodes \<open>1, ..., n\<close>, node \<open>i\<close> (0 for the master) is built with the
  addresses of the others.
\<close>

lemma new_client_ready:
  assumes "n < 65535" and "i \<le> n"
  shows "ready_client i n (new_client i (map f (filter (\<lambda>j. j \<noteq> i) [1..<Suc n])) thr)"
proof -
  let ?js = "filter (\<lambda>j. j \<noteq> i) [1..<Suc n]"
  have num: "length ?js = (if i = 0 then n else n - 1)"
  proof (cases "i = 0")
    case True
    then have "?js = [1..<Suc n]" by (intro filter_True) auto
    then show ?thesis using True by (simp del: upt_Suc)
  next
    case False
    have "length ?js = card (set ?js)" by (intro distinct_card [symmetric]) simp
    also have "set ?js = {1..n} - {i}" by auto
    finally show ?thesis using False assms(2) by simp
  qed
  note conn = connect_all_numbers [OF assms(1), of 1 i f]
  define c where "c = new_client i (map f ?js) thr"
  have c: "c = \<lparr>node_index = i, conn_num = length ?js, multi = True, tasks = new_pool thr,
      outgoing = (\<lambda>j. if j \<in> set ?js then le_bytes 2 i else [])\<rparr>"
    unfolding c_def new_client_def blank_client_def using conn num assms
    by (subst foldl_connect) (auto simp: o_def image_image wrap16_small simp del: upt_Suc
      split: if_splits)
  then have sel: "node_index c = i" "conn_num c = length ?js" "multi c"
    "outgoing c = (\<lambda>j. if j \<in> set ?js then le_bytes 2 i else [])" by (simp_all only: client.simps)
  have "connections c = ?js"
    unfolding connections_def sel using num assms(2) by (simp del: upt_Suc split: if_splits)
  moreover have "n < conn_num c + 2"
    unfolding sel using num assms(2) by (simp del: upt_Suc split: if_splits)
  ultimately show ?thesis
    unfolding c_def [symmetric] by (simp add: ready_client_def sel del: upt_Suc)
qed

text \<open>The bytes of one task on its connection.\<close>

definition task_bytes :: "client_env \<Rightarrow> nat \<Rightarrow> byte list \<Rightarrow> migration \<Rightarrow> byte list" where
  "task_bytes e i file t = encode_migration (raw_mem e t) t @
     (if i \<noteq> 0 then take (c_chunk e) file else [])"

lemma send_task_eq:
  assumes "multi c" and "host_of c t < conn_num c + 2" and "conn_up e (host_of c t)"
    and "node_index c \<noteq> 0 \<Longrightarrow> c_files e ''test/stdfile'' = Some file"
  shows "\<exists>buf'. send_task e (c, buf) t =
    Some (Inr (write_conn (host_of c t) (task_bytes e (node_index c) file t) c, buf'))"
proof (cases "node_index c = 0")
  case True
  with assms show ?thesis by (simp add: send_task_def task_bytes_def Let_def)
next
  case False
  obtain buf' where "fsend_loop 0 (c_chunk e) file False buf [] = (buf', take (c_chunk e) file)"
    using fsend_loop_eq [of "c_chunk e" "file" buf] by (metis prod.collapse)
  with False assms show ?thesis
    by (auto simp: send_task_def task_bytes_def Let_def write_conn_def)
qed

lemma foldX_send:
  assumes "multi c" and "\<forall>t \<in> set ts. host_of c t < conn_num c + 2 \<and> conn_up e (host_of c t)"
    and "node_index c \<noteq> 0 \<Longrightarrow> c_files e ''test/stdfile'' = Some file"
  shows "\<exists>buf'. foldX (send_task e) (c, buf) ts = Some (Inr (c\<lparr>outgoing := (\<lambda>j. outgoing c j @
    concat (map (task_bytes e (node_index c) file) (filter (\<lambda>t. host_of c t = j) ts)))\<rparr>, buf'))"
  using assms
proof (induction ts arbitrary: c buf)
  case Nil
  then show ?case by simp
next
  case (Cons t ts)
  let ?c = "write_conn (host_of c t) (task_bytes e (node_index c) file t) c"
  have h: "host_of ?c u = host_of c u" for u by (simp add: host_of_def)
  from send_task_eq [of c t e "file" buf] Cons.prems obtain buf1 where
    "send_task e (c, buf) t = Some (Inr (?c, buf1))" by auto
  moreover from Cons.IH [of ?c buf1] Cons.prems obtain buf' where
    "foldX (send_task e) (?c, buf1) ts = Some (Inr (?c\<lparr>outgoing := (\<lambda>j. outgoing ?c j @
      concat (map (task_bytes e (node_index c) file) (filter (\<lambda>t. host_of c t = j) ts)))\<rparr>, buf'))"
    by (auto simp: h)
  moreover have "?c\<lparr>outgoing := (\<lambda>j. outgoing ?c j @
      concat (map (task_bytes e (node_index c) file) (filter (\<lambda>t. host_of c t = j) ts)))\<rparr> =
    c\<lparr>outgoing := (\<lambda>j. outgoing c j @
      concat (map (task_bytes e (node_index c) file) (filter (\<lambda>u. host_of c u = j) (t # ts))))\<rparr>"
    by (auto simp: write_conn_def fun_eq_iff)
  ultimately show ?case by simp
qed

lemma foldX_write_all:
  assumes "\<forall>i \<in> set is. conn_up e i" and "distinct is"
  shows "foldX (\<lambda>c i. if conn_up e i then Some (Inr (write_conn i bs c)) else Some (Inl x)) c is =
    Some (Inr (c\<lparr>outgoing := (\<lambda>j. if j \<in> set is then outgoing c j @ bs else outgoing c j)\<rparr>))"
  using assms by (induction "is" arbitrary: c) (auto simp: write_conn_def fun_eq_iff)

lemma foldX_wait: "\<forall>i \<in> set is. conn_up e i \<Longrightarrow> foldX (wait_start_flag e) c is = Some (Inr c)"
  by (induction "is") (simp_all add: wait_start_flag_def)

text \<open>A task of this node that goes to another node of the cluster.\<close>

definition routable :: "nat \<Rightarrow> client_env \<Rightarrow> client \<Rightarrow> migration \<Rightarrow> bool" where
  "routable n e c t \<longleftrightarrow> 1 \<le> host_of c t \<and> host_of c t \<le> n \<and> host_of c t \<noteq> node_index c"

lemma run_client_eq:
  assumes "ready_client i n c" and "seal_flag (tasks c)"
    and "ts = takeWhile (\<lambda>t. \<not> is_stop t) (task_queue (tasks c))"
    and "\<forall>t \<in> set ts. routable n e c t" and "\<forall>j \<in> set (connections c). conn_up e j"
    and "i \<noteq> 0 \<Longrightarrow> c_files e ''test/stdfile'' = Some file"
  shows "\<exists>p. run_client e c = Some (Inr (c\<lparr>outgoing := (\<lambda>j. outgoing c j @
    concat (map (task_bytes e i file) (filter (\<lambda>t. host_of c t = j) ts))), tasks := p\<rparr>))"
proof -
  from assms(1) have c: "node_index c = i" "multi c" "n < conn_num c + 2"
    "connections c = filter (\<lambda>j. j \<noteq> i) [1..<Suc n]" by (simp_all add: ready_client_def)
  have "\<forall>t \<in> set ts. host_of c t < conn_num c + 2 \<and> conn_up e (host_of c t)"
    using assms(4,5) c(1,3,4) by (fastforce simp: routable_def simp del: upt_Suc)
  from foldX_send [OF c(2) this, of "file" "replicate (c_chunk e) 0"] c(1) assms(6) obtain buf' where
    f: "foldX (send_task e) (c, replicate (c_chunk e) 0) ts = Some (Inr (c\<lparr>outgoing := (\<lambda>j. outgoing c j @
    concat (map (task_bytes e i file) (filter (\<lambda>t. host_of c t = j) ts)))\<rparr>, buf'))" by auto
  obtain p where "consume (get_task default_migration) is_stop (send_task e) (tasks c)
      (c, replicate (c_chunk e) 0) = Some (Inr ((c\<lparr>outgoing := (\<lambda>j. outgoing c j @
    concat (map (task_bytes e i file) (filter (\<lambda>t. host_of c t = j) ts)))\<rparr>, buf'), p))"
    using pool.consume_sealed [OF assms(2), of is_stop default_migration "send_task e"
        "(c, replicate (c_chunk e) 0)"] f
    by (auto simp: assms(3) default_migration_def)
  then show ?thesis by (auto simp: run_client_def)
qed

lemma start_client_eq:
  assumes "ready_client i n c" and "seal_flag (tasks c)"
    and "ts = takeWhile (\<lambda>t. \<not> is_stop t) (task_queue (tasks c))"
    and "\<forall>t \<in> set ts. routable n e c t" and "\<forall>j \<in> set (connections c). conn_up e j"
    and "i \<noteq> 0 \<Longrightarrow> c_files e ''test/stdfile'' = Some file"
  shows "\<exists>c'. start_client e c = Some (Inr c') \<and> (\<forall>j. 1 \<le> j \<and> j \<le> n \<and> j \<noteq> i \<longrightarrow> outgoing c' j =
    le_bytes 2 i @ concat (map (task_bytes e i file) (filter (\<lambda>t. host_of c t = j) ts)) @
    encode_migration (raw_mem e default_migration) default_migration)"
proof -
  from assms(1) have c: "node_index c = i" "multi c" "connections c = filter (\<lambda>j. j \<noteq> i) [1..<Suc n]"
    "\<And>j. outgoing c j = (if j \<in> set (connections c) then le_bytes 2 i else [])"
    by (simp_all add: ready_client_def)
  from run_client_eq [OF assms] obtain p where
    r: "run_client e c = Some (Inr (c\<lparr>outgoing := (\<lambda>j. outgoing c j @
    concat (map (task_bytes e i file) (filter (\<lambda>t. host_of c t = j) ts))), tasks := p\<rparr>))"
    (is "_ = Some (Inr ?c)") by blast
  have conn: "connections ?c = connections c" by (simp add: connections_def)
  have d: "distinct (connections c)" by (simp add: connections_def)
  have mem: "j \<in> set (connections c) \<longleftrightarrow> 1 \<le> j \<and> j \<le> n \<and> j \<noteq> i" for j
    by (auto simp: c(3))
  have "send_shutdown_signal e ?c = Some (Inr (?c\<lparr>outgoing := (\<lambda>j. if j \<in> set (connections c)
      then outgoing ?c j @ encode_migration (raw_mem e default_migration) default_migration
      else outgoing ?c j)\<rparr>))"
    unfolding send_shutdown_signal_def conn using foldX_write_all [OF assms(5) d] c(2) by simp
  with r foldX_wait [OF assms(5)] c(2) show ?thesis
    by (simp add: start_client_def mem c(4))
qed

section \<open>Properties\<close>



text \<open>C26. What a client writes: started by a node with its tasks in a sealed queue, it returns, and
  what it has written to each other node \<open>j\<close> is its own index, the headers of exactly the tasks
  for \<open>j\<close> in their order (for a data node each followed by the chunk), and the stop message.\<close>

theorem client_sends_tasks:
  assumes "n < 65535" and "i \<le> n" and "\<forall>j. 1 \<le> j \<and> j \<le> n \<longrightarrow> conn_up e j"
    and "c = (new_client i (map f (filter (\<lambda>j. j \<noteq> i) [1..<Suc n])) 1)\<lparr>tasks :=
      \<lparr>thread_num = 1, task_queue = ts, seal_flag = True\<rparr>\<rparr>"
    and "\<forall>t \<in> set ts. \<not> is_stop t \<and> routable n e c t"
    and "i \<noteq> 0 \<longrightarrow> c_files e ''test/stdfile'' = Some file"
  shows "\<exists>c'. start_client e c = Some (Inr c') \<and> (\<forall>j. 1 \<le> j \<and> j \<le> n \<and> j \<noteq> i \<longrightarrow> outgoing c' j =
    le_bytes 2 i @ concat (map (task_bytes e i file) (filter (\<lambda>t. host_of c t = j) ts)) @
    encode_migration (raw_mem e default_migration) default_migration)"
proof (rule start_client_eq)
  have r: "ready_client i n (new_client i (map f (filter (\<lambda>j. j \<noteq> i) [1..<Suc n])) 1)"
    by (rule new_client_ready [OF assms(1,2)])
  then show ready: "ready_client i n c" by (simp only: assms(4) ready_tasks)
  show "\<forall>j \<in> set (connections c). conn_up e j"
    using ready assms(3) by (auto simp: ready_client_def)
  have "takeWhile (\<lambda>t. \<not> is_stop t) ts = ts" using assms(5) by (simp add: takeWhile_eq_all_conv)
  then have "takeWhile (\<lambda>t. \<not> is_stop t) ts = ts" .
  moreover have "task_queue (tasks c) = ts" by (simp add: assms(4))
  ultimately show "ts = takeWhile (\<lambda>t. \<not> is_stop t) (task_queue (tasks c))" by (simp only:)
qed (use assms in auto)

definition demo_client_env :: client_env where
  "demo_client_env = \<lparr>c_chunk = 2, c_files = [''test/stdfile'' \<mapsto> [1, 2]], conn_up = (\<lambda>_. True),
     raw_mem = (\<lambda>_. replicate 88 0)\<rparr>"

definition demo_client :: client where
  "demo_client = (new_client 1 (map (\<lambda>_. ()) (filter (\<lambda>j. j \<noteq> 1) [1..<Suc 3])) 1)\<lparr>tasks :=
     \<lparr>thread_num = 1, task_queue = [new_migration 1 2 0, new_migration 1 3 0], seal_flag = True\<rparr>\<rparr>"

theorem client_sends_tasks_witness:
  "\<exists>c'. start_client demo_client_env demo_client = Some (Inr c') \<and>
    outgoing c' 2 = le_bytes 2 1 @
      (encode_migration (replicate 88 0) (new_migration 1 2 0) @ [1, 2]) @
      encode_migration (replicate 88 0) default_migration"
proof -
  have "ready_client 1 3 (new_client 1 (map (\<lambda>_. ()) (filter (\<lambda>j. j \<noteq> 1) [1..<Suc 3])) 1)"
    by (rule new_client_ready) simp_all
  then have i: "node_index demo_client = 1"
    unfolding demo_client_def by (simp add: ready_client_def)
  then have h: "host_of demo_client (new_migration 1 j 0) = j" if "j < 256" for j
    using that by (simp add: host_of_def to_int16_small from_int16_def)
  have "\<exists>c'. start_client demo_client_env demo_client = Some (Inr c') \<and>
      (\<forall>j. 1 \<le> j \<and> j \<le> 3 \<and> j \<noteq> 1 \<longrightarrow> outgoing c' j = le_bytes 2 1 @
        concat (map (task_bytes demo_client_env 1 [1, 2]) (filter (\<lambda>t. host_of demo_client t = j)
          [new_migration 1 2 0, new_migration 1 3 0])) @
        encode_migration (raw_mem demo_client_env default_migration) default_migration)"
    by (rule client_sends_tasks [OF _ _ _ demo_client_def])
      (use i h in \<open>auto simp: demo_client_env_def routable_def to_int16_small\<close>)
  then obtain c' where c: "start_client demo_client_env demo_client = Some (Inr c')"
    "\<And>j. 1 \<le> j \<and> j \<le> 3 \<and> j \<noteq> 1 \<Longrightarrow> outgoing c' j = le_bytes 2 1 @
        concat (map (task_bytes demo_client_env 1 [1, 2]) (filter (\<lambda>t. host_of demo_client t = j)
          [new_migration 1 2 0, new_migration 1 3 0])) @
        encode_migration (raw_mem demo_client_env default_migration) default_migration" by blast
  from c(2) [of 2] have "outgoing c' 2 = le_bytes 2 1 @
      (encode_migration (replicate 88 0) (new_migration 1 2 0) @ [1, 2]) @
      encode_migration (replicate 88 0) default_migration"
    using h [of 2] h [of 3] by (simp add: task_bytes_def demo_client_env_def)
  with c(1) show ?thesis by blast
qed

end
