(* ===== verification/Node.thy ===== *)
theory Node
  imports Matching_Main NCScale Config Client
begin

text \<open>
  The program \<open>node_main\<close> (src/node_main.cc) and the class \<open>TCPNode\<close> (src/tcp_node.cc) but for its
  configuration parser: the arguments, the tasks the master computes, numbers and hands to its
  client, and the loop in which a data node passes the master's tasks on to its client. Console
  output and timing are not modelled.
\<close>

section \<open>Arguments\<close>

text \<open>\<open>strtoul\<close> in base 10, with 64-bit results.\<close>

definition strtoul :: "string \<Rightarrow> nat" where
  "strtoul s = (
     let r = dropWhile is_space s;
         neg = (r \<noteq> [] \<and> hd r = CHR ''-'');
         r' = (if r \<noteq> [] \<and> (hd r = CHR ''-'' \<or> hd r = CHR ''+'') then tl r else r);
         v = num_val (takeWhile is_digit r')
     in if 2 ^ 64 \<le> v then 2 ^ 64 - 1 else if neg then (2 ^ 64 - v) mod 2 ^ 64 else v)"

text \<open>\<open>argv[i][0]\<close>: the first character, or the terminating null character.\<close>

definition first_char :: "string \<Rightarrow> char" where
  "first_char s = (if s = [] then CHR 0x00 else hd s)"

text \<open>
  \<open>main\<close> up to \<open>node.start()\<close>, on the arguments with the program's name: the node's index, the
  number of stripes and the scheme type.
\<close>

definition node_main :: "string list \<Rightarrow> exit_status + nat \<times> nat \<times> nat" where
  "node_main argv = (
     if \<not> (length argv = 2 \<and> first_char (argv ! 1) \<noteq> CHR ''0'' \<or>
       length argv = 4 \<and> first_char (argv ! 1) = CHR ''0'') then Inl (Exit (-1))
     else if first_char (argv ! 1) \<noteq> CHR ''0'' then Inr (wrap16 (strtoul (argv ! 1)), 0, 0)
     else let exp_type = wrap32 (strtoul (argv ! 3))
       in if 2 < exp_type then Inl (Exit (-1))
         else Inr (wrap16 (strtoul (argv ! 1)), wrap32 (strtoul (argv ! 2)), exp_type))"

section \<open>The master\<close>

text \<open>
  The part of \<open>TCPNode::start\<close> that computes the scheme: NCScale (type 2), StripeMerge-G (1) or
  StripeMerge-P (0) on random placements.
\<close>

definition master_scheme ::
  "(nat \<Rightarrow> nat list \<Rightarrow> nat list) \<Rightarrow> (nat \<Rightarrow> nat list \<Rightarrow> nat list) \<Rightarrow> config \<Rightarrow> nat \<Rightarrow> nat \<Rightarrow>
    (exit_status + migration list) option" where
  "master_scheme shufd shufs cf exp_size scheme_type = do {
     ns \<leftarrow> new_ncscale (cf_k cf) (cf_m cf);
     actual_size \<leftarrow> get_similar_batch_size ns exp_size;
     if scheme_type = 2 then get_scheme ns actual_size
     else do {
       let nodes = wrap16 (cf_N cf);
       let k = wrap8 (cf_k cf);
       let m = wrap8 (cf_m cf);
       pls \<leftarrow> generate_random_distributions shufd nodes actual_size k m;
       mg \<leftarrow> load_generator None None nodes k m pls;
       r \<leftarrow> (if scheme_type \<noteq> 0
         then do { r \<leftarrow> basic_greedy mg False;
           Some (case r of Inl e \<Rightarrow> Inl e | Inr (cost, mg') \<Rightarrow> Inr mg') }
         else dist_based_search mg);
       case r of
         Inl e \<Rightarrow> Some (Inl e)
       | Inr mg' \<Rightarrow> do {
           (scheme, mg'') \<leftarrow> get_sending_scheme shufs mg';
           Some (Inr scheme)
         }
     }
   }"

text \<open>\<open>%u\<close> of an \<open>int16_t\<close>, which is promoted to \<open>int\<close> and printed as an unsigned number.\<close>

definition print_u :: "int \<Rightarrow> string" where
  "print_u x = dec (nat (x mod 2 ^ 32))"

definition store_dir :: "string \<Rightarrow> string \<Rightarrow> string" where
  "store_dir self other = ''test/store/'' @ self @ ''_'' @ other"

definition store_name :: "migration \<Rightarrow> nat \<Rightarrow> string" where
  "store_name t i = store_dir (print_u (target t)) (print_u (source t)) @ ''/f_'' @ dec i"

text \<open>
  The preparation of task \<open>i\<close>. A file name that does not fit its 32 bytes is written over what
  lies behind; that has no defined result.
\<close>

definition prepare_task :: "nat \<Rightarrow> migration \<Rightarrow> migration option" where
  "prepare_task i t = do {
     c \<leftarrow> coefficient t;
     let t1 = t\<lparr>mi_index := Some i\<rparr>;
     let t2 = (if c \<noteq> 0 then t1\<lparr>target_fn := Some ''test/stdfile''\<rparr> else t1);
     if length (store_name t i) < 32 then Some (t2\<lparr>store_fn := Some (store_name t i)\<rparr>) else None
   }"

definition prepare_tasks :: "migration list \<Rightarrow> migration list option" where
  "prepare_tasks scheme =
     foldM (\<lambda>ts i. do { t \<leftarrow> prepare_task i (ts ! i); Some (ts[i := t]) }) scheme [0..<length scheme]"

text \<open>The tasks are handed to the client, which is then told that there are no more.\<close>

definition add_to_client :: "client \<Rightarrow> migration \<Rightarrow> (exit_status + client) option" where
  "add_to_client c t =
     (if source t = target t then Some (Inl (Exit (-1)))
      else Some (Inr (c\<lparr>tasks := add_task t (tasks c)\<rparr>)))"

definition finish_client :: "client \<Rightarrow> client" where
  "finish_client c = c\<lparr>tasks := set_finished (tasks c)\<rparr>"

definition dispatch :: "migration list \<Rightarrow> client \<Rightarrow> (exit_status + client) option" where
  "dispatch ts c = do {
     r \<leftarrow> foldX add_to_client c ts;
     Some (case r of Inl e \<Rightarrow> Inl e | Inr c' \<Rightarrow> Inr (finish_client c'))
   }"

text \<open>
  The master's branch of \<open>TCPNode::start\<close>, up to the client's run; \<open>shuffle\<close> is
  \<open>std::random_shuffle\<close>.
\<close>

definition start_master ::
  "(nat \<Rightarrow> nat list \<Rightarrow> nat list) \<Rightarrow> (nat \<Rightarrow> nat list \<Rightarrow> nat list) \<Rightarrow>
    (migration list \<Rightarrow> migration list) \<Rightarrow> config \<Rightarrow> nat \<Rightarrow> nat \<Rightarrow> (exit_status + client) option" where
  "start_master shufd shufs shuffle cf exp_size scheme_type = do {
     r \<leftarrow> master_scheme shufd shufs cf exp_size scheme_type;
     case r of
       Inl e \<Rightarrow> Some (Inl e)
     | Inr scheme \<Rightarrow> do {
         ts \<leftarrow> prepare_tasks (shuffle scheme);
         dispatch ts (new_client 0 (targets cf) 1)
       }
   }"

section \<open>A data node\<close>

text \<open>The directories that a data node creates.\<close>

definition init_dirs :: "nat \<Rightarrow> nat \<Rightarrow> string list" where
  "init_dirs self nn =
     map (\<lambda>c. store_dir (dec self) (dec c)) (filter (\<lambda>c. self \<noteq> c) [1..<Suc nn])"

text \<open>
  The loop that passes the tasks in the server's own queue on to the client, and what follows
  it.
\<close>

definition forward_tasks ::
  "migration thread_pool \<Rightarrow> client \<Rightarrow> (exit_status + client \<times> migration thread_pool) option" where
  "forward_tasks own c = do {
     r \<leftarrow> consume (get_task default_migration) is_stop
       (\<lambda>c t. Some (Inr (c\<lparr>tasks := add_task t (tasks c)\<rparr>))) own c;
     Some (case r of Inl e \<Rightarrow> Inl e | Inr (c', own') \<Rightarrow> Inr (finish_client c', own'))
   }"

section \<open>Preparation\<close>

lemma prepare_tasks_eq:
  assumes "\<forall>i < length ts. \<exists>t'. prepare_task i (ts ! i) = Some t'"
  shows "prepare_tasks ts = Some (map (\<lambda>i. the (prepare_task i (ts ! i))) [0..<length ts])"
proof -
  let ?p = "\<lambda>i. the (prepare_task i (ts ! i))"
  let ?I = "\<lambda>i us. us = map ?p [0..<i] @ drop i ts"
  have "\<exists>us. foldM (\<lambda>ts i. do { t \<leftarrow> prepare_task i (ts ! i); Some (ts[i := t]) }) ts [0..<length ts] =
      Some us \<and> ?I (length ts) us"
  proof (rule foldM_upt)
    fix i us
    assume i: "0 \<le> i" "i < length ts" and us: "?I i us"
    then have n: "us ! i = ts ! i" by (simp add: nth_append)
    obtain t' where t': "prepare_task i (ts ! i) = Some t'" using assms i by blast
    have "us[i := t'] = map ?p [0..<Suc i] @ drop (Suc i) ts"
      using i us t' by (simp add: list_update_append Cons_nth_drop_Suc [symmetric])
    with t' n show "\<exists>s'. do { t \<leftarrow> prepare_task i (us ! i); Some (us[i := t]) } = Some s' \<and> ?I (Suc i) s'"
      by simp
  qed simp_all
  then show ?thesis by (simp add: prepare_tasks_def)
qed

lemma print_u_nat: "0 \<le> x \<Longrightarrow> x < 2 ^ 32 \<Longrightarrow> print_u x = dec (nat x)"
  by (simp add: print_u_def)

lemma store_name_length:
  assumes "1 \<le> source t" "source t < 1000" "1 \<le> target t" "target t < 1000" and "i < 10000000000"
  shows "length (store_name t i) < 32"
proof -
  have "length (dec (nat (source t))) \<le> 3" "length (dec (nat (target t))) \<le> 3"
    using assms by (auto intro!: length_dec simp: nat_less_iff)
  moreover have "length (dec i) \<le> 10" using assms(5) by (intro length_dec) simp_all
  ultimately show ?thesis
    using assms by (simp add: store_name_def store_dir_def print_u_nat)
qed

section \<open>The tasks of a scheme\<close>

text \<open>A task as the three-argument constructor leaves it.\<close>

definition bare :: "migration \<Rightarrow> bool" where
  "bare t \<longleftrightarrow> mem_ptr t = None \<and> target_fn t = None \<and> store_fn t = None"

lemma bare_new [simp]: "bare (new_migration s t c)"
  by (simp add: bare_def new_migration_def)

lemma parity_tasks_bare: "t \<in> set (parity_tasks F i r) \<Longrightarrow> bare t"
  by (induction F i r rule: parity_tasks.induct) (auto split: if_splits)

lemma scheme_tasks_bare: "t \<in> set (scheme_upto shuf g n) \<Longrightarrow> bare t"
  by (auto simp: scheme_upto_def pair_tasks_def Let_def excess_tasks_def dest: parity_tasks_bare)

lemma proper_taskI:
  "source t = int a + 1 \<Longrightarrow> target t = int b + 1 \<Longrightarrow> a < n \<Longrightarrow> b < n \<Longrightarrow> a \<noteq> b \<Longrightarrow>
    coefficient t = Some c \<Longrightarrow> c \<le> m \<Longrightarrow> proper_task n m t"
  by (auto simp: proper_task_def)

lemma ncscale_tasks_proper:
  assumes "t \<in> set (ncscale_tasks k m r)" and "1 \<le> k" and "1 \<le> m" and "2 * k + m < 32767"
  shows "proper_task (2 * k + m) m t" "bare t"
proof -
  have "bare (mig_task n k i)" "bare (delta_task n i)" for n i
    by (simp_all add: mig_task_def delta_task_def)
  then show "bare t" using assms(1) by (auto simp: ncscale_tasks_def)
  have small: "to_int16 (x + 1) = int x + 1" if "x < 2 * k + m" for x
    using that assms(4) by (simp add: to_int16_small)
  have n: "0 < k + m" "0 < k" using assms(2) by simp_all
  have "proper_task (2 * k + m) m (mig_task (k + m) k i)" for i
  proof (rule proper_taskI)
    have l: "i mod (k + m) < k + m" "i mod k < k" by (rule mod_less_divisor, rule n)+
    then show lt: "i mod (k + m) < 2 * k + m" "i mod k + (k + m) < 2 * k + m"
      "i mod (k + m) \<noteq> i mod k + (k + m)" by linarith+
    show "source (mig_task (k + m) k i) = int (i mod (k + m)) + 1"
      "target (mig_task (k + m) k i) = int (i mod k + (k + m)) + 1"
      unfolding mig_task_fields using small [OF lt(1)] small [OF lt(2)] by (simp_all add: add.assoc)
    show "coefficient (mig_task (k + m) k i) = Some 0" by (rule mig_task_fields)
    show "0 \<le> m" by simp
  qed
  moreover have "proper_task (2 * k + m) m (delta_task (k + m) i)" for i
  proof (rule proper_taskI)
    have l: "i mod (k + m) < k + m" "Suc i mod (k + m) < k + m"
      by (rule mod_less_divisor, rule n)+
    then show lt: "i mod (k + m) < 2 * k + m" "Suc i mod (k + m) < 2 * k + m" by linarith+
    show "source (delta_task (k + m) i) = int (i mod (k + m)) + 1"
      "target (delta_task (k + m) i) = int (Suc i mod (k + m)) + 1"
      unfolding delta_task_fields using small [OF lt(1)] small [OF lt(2)] by simp_all
    show "i mod (k + m) \<noteq> Suc i mod (k + m)" using assms(2,3) by (simp add: mod_Suc)
    show "coefficient (delta_task (k + m) i) = Some 1" by (rule delta_task_fields)
    show "1 \<le> m" by (rule assms(3))
  qed
  ultimately show "proper_task (2 * k + m) m t"
    using assms(1) by (auto simp: ncscale_tasks_def)
qed

lemma length_scheme:
  assumes "scheme_ready shuf g"
  shows "length (scheme_upto shuf g (stripes_num g)) \<le>
    stripes_num g * (rs_k (g_params g) + rs_m (g_params g))"
proof -
  have ok: "matching_ok g" "wf_config g" using assms by (simp_all add: scheme_ready_def wf_gen_def)
  have "matching_cost g \<le> card (pair_heads g) * rs_n g"
    unfolding matching_cost_def
    using sum_bounded_above [of "pair_heads g" "scost g" "rs_n g"] matching_cost_bound [OF ok(2,1)]
    by simp
  also have "card (pair_heads g) \<le> stripes_num g"
    using card_mono [of "{..<stripes_num g}" "pair_heads g"] by (auto simp: pair_heads_def)
  finally show ?thesis
    using scheme_length [OF assms] ok(2) by (simp add: wf_config_def)
qed

lemma null_free_dec: "null_free (dec n)"
proof -
  have "of_char c \<noteq> (0 :: nat)" if "c \<in> set (dec n)" for c
    using dec_digits [OF that] by (auto simp: is_digit_def)
  then show ?thesis by (simp add: null_free_def)
qed

lemma null_free_append [simp]: "null_free (a @ b) \<longleftrightarrow> null_free a \<and> null_free b"
  by (auto simp: null_free_def)

lemma null_free_Cons [simp]: "null_free []" "null_free (c # s) \<longleftrightarrow> of_char c \<noteq> (0 :: nat) \<and> null_free s"
  by (auto simp: null_free_def)

lemma null_free_store_name: "null_free (store_name t i)"
  by (simp add: store_name_def store_dir_def print_u_def null_free_dec)

text \<open>A task as the master sends it; \<open>n\<close> nodes, \<open>m\<close> parities.\<close>

definition prepared :: "nat \<Rightarrow> nat \<Rightarrow> nat \<Rightarrow> migration \<Rightarrow> bool" where
  "prepared n m i t \<longleftrightarrow> proper_task n m t \<and> mem_ptr t = None \<and> mi_index t = Some i \<and>
     store_fn t = Some (store_name t i) \<and>
     (coefficient t \<noteq> Some 0 \<longrightarrow> target_fn t = Some ''test/stdfile'') \<and> fits t"

lemma store_name_fields:
  "source t = source t' \<Longrightarrow> target t = target t' \<Longrightarrow> store_name t i = store_name t' i"
  by (simp add: store_name_def)

lemma prepare_proper:
  assumes "proper_task n m t" and "bare t" and "n < 1000" and "m < 256" and "i < 4294967296"
  shows "\<exists>t'. prepare_task i t = Some t' \<and> prepared n m i t' \<and>
    source t' = source t \<and> target t' = target t \<and> coefficient t' = coefficient t"
proof -
  from assms(1) obtain c where t: "1 \<le> source t" "source t < 1000" "1 \<le> target t" "target t < 1000"
    "coefficient t = Some c" "c < 256" using assms(3,4) by (auto simp: proper_task_def)
  have len: "length (store_name t i) < 32" using t assms(5) by (intro store_name_length) simp_all
  let ?f = "if c \<noteq> 0 then Some ''test/stdfile'' else target_fn t"
  let ?t = "t\<lparr>mi_index := Some i, target_fn := ?f, store_fn := Some (store_name t i)\<rparr>"
  have "prepare_task i t = Some ?t" using t len by (simp add: prepare_task_def)
  moreover have "fits ?t"
    using assms(2,5) t len null_free_store_name
    by (auto simp: fits_def bare_def)
  then have "prepared n m i ?t"
    using assms(1,2) t(5) store_name_fields [of ?t t]
    by (simp add: prepared_def proper_task_def bare_def)
  ultimately show ?thesis by fastforce
qed

lemma prepare_all:
  assumes "\<forall>t \<in> set ts. proper_task n m t \<and> bare t" and "n < 1000" and "m < 256"
    and "length ts < 4294967296"
  shows "\<exists>us. prepare_tasks ts = Some us \<and> length us = length ts \<and>
    (\<forall>i < length us. prepared n m i (us ! i) \<and> source (us ! i) = source (ts ! i) \<and>
      target (us ! i) = target (ts ! i) \<and> coefficient (us ! i) = coefficient (ts ! i))"
proof -
  have p: "\<exists>t'. prepare_task i (ts ! i) = Some t' \<and> prepared n m i t' \<and>
      source t' = source (ts ! i) \<and> target t' = target (ts ! i) \<and>
      coefficient t' = coefficient (ts ! i)" if "i < length ts" for i
    using prepare_proper [of n m "ts ! i" i] assms that by simp
  then have "prepare_tasks ts = Some (map (\<lambda>i. the (prepare_task i (ts ! i))) [0..<length ts])"
    by (intro prepare_tasks_eq) blast
  moreover have "prepared n m i (the (prepare_task i (ts ! i))) \<and>
      source (the (prepare_task i (ts ! i))) = source (ts ! i) \<and>
      target (the (prepare_task i (ts ! i))) = target (ts ! i) \<and>
      coefficient (the (prepare_task i (ts ! i))) = coefficient (ts ! i)" if "i < length ts" for i
    using p [OF that] by auto
  ultimately show ?thesis by simp
qed

text \<open>Two tasks with the same file name are the same transfer with the same number.\<close>

lemma dec_prefix:
  assumes "dec a @ x # xs = dec b @ y # ys" and "\<not> is_digit x" and "\<not> is_digit y"
  shows "a = b \<and> x # xs = y # ys"
  using skip_digits [of "x # xs" a] skip_digits [of "y # ys" b] assms by (metis dec_inj list.sel(1))

lemma store_name_inj:
  assumes "store_name t i = store_name t' i'"
  shows "print_u (source t) = print_u (source t') \<and> print_u (target t) = print_u (target t') \<and> i = i'"
proof -
  have sep: "\<not> is_digit CHR ''_''" "\<not> is_digit CHR ''/''" by (simp_all add: is_digit_def)
  from assms have "dec (nat (target t mod 2 ^ 32)) @ CHR ''_'' # dec (nat (source t mod 2 ^ 32)) @ CHR ''/'' # ''f_'' @ dec i =
      dec (nat (target t' mod 2 ^ 32)) @ CHR ''_'' # dec (nat (source t' mod 2 ^ 32)) @ CHR ''/'' # ''f_'' @ dec i'"
    by (simp add: store_name_def store_dir_def print_u_def)
  from dec_prefix [OF this sep(1,1)] have
    1: "nat (target t mod 2 ^ 32) = nat (target t' mod 2 ^ 32)" and
    2: "dec (nat (source t mod 2 ^ 32)) @ CHR ''/'' # ''f_'' @ dec i =
      dec (nat (source t' mod 2 ^ 32)) @ CHR ''/'' # ''f_'' @ dec i'" by simp_all
  from dec_prefix [OF 2 sep(2,2)] have
    "nat (source t mod 2 ^ 32) = nat (source t' mod 2 ^ 32)" "dec i = dec i'" by simp_all
  with 1 show ?thesis by (simp add: print_u_def)
qed

text \<open>The file of a prepared task is in a directory that its target node has created.\<close>

lemma store_name_dir:
  assumes "proper_task n m t" and "n < 32768"
  shows "\<exists>d \<in> set (init_dirs (nat (target t)) n). store_name t i = d @ ''/f_'' @ dec i"
proof -
  have "nat (target t) \<noteq> nat (source t)" "1 \<le> nat (source t)" "nat (source t) \<le> n"
    using assms(1) by (auto simp: proper_task_def)
  then have "store_dir (dec (nat (target t))) (dec (nat (source t))) \<in> set (init_dirs (nat (target t)) n)"
    by (auto simp: init_dirs_def simp del: upt_Suc)
  then show ?thesis
    using assms by (intro bexI) (auto simp: store_name_def print_u_nat proper_task_def)
qed

end
