(* ===== verification/Node_Props.thy ===== *)
theory Node_Props
  imports Node
begin

text \<open>
  What the master's branch of \<open>TCPNode::start\<close> computes, for every scheme type, and the other
  properties of \<open>node_main\<close>.
\<close>

section \<open>The scheme\<close>

text \<open>The parameters the program supports, and shuffles that permute.\<close>

definition supported :: "nat \<Rightarrow> nat \<Rightarrow> nat \<Rightarrow> config \<Rightarrow> bool" where
  "supported k m exp_size cf \<longleftrightarrow> 1 \<le> k \<and> 1 \<le> m \<and> m \<le> 7 \<and> k + m < 255 \<and>
     nc_batch k m \<le> exp_size \<and> exp_size * (k + m) < 4294967296 \<and>
     cf_k cf = k \<and> cf_m cf = m \<and> cf_N cf = 2 * k + m"

lemma actual_size:
  assumes "supported k m num cf"
  shows "\<exists>ns. new_ncscale k m = Some ns \<and>
    get_similar_batch_size ns num = Some (num div nc_batch k m * nc_batch k m)"
    and "nc_input k m (num div nc_batch k m * nc_batch k m)"
    and "even (num div nc_batch k m * nc_batch k m)"
    and "num div nc_batch k m * nc_batch k m < 2147483648"
proof -
  let ?B = "nc_batch k m"
  from assms have km: "1 \<le> k" "1 \<le> m" and num: "?B \<le> num" "num * (k + m) < 4294967296"
    by (simp_all add: supported_def)
  have "num * 2 \<le> num * (k + m)" using km by (intro mult_le_mono) simp_all
  then have n31: "num < 2147483648" using num(2) by linarith
  have le: "num div ?B * ?B \<le> num" by simp
  then show a31: "num div ?B * ?B < 2147483648" using n31 by linarith
  have B: "?B < 4294967296" using num(1) n31 by linarith
  have B0: "0 < ?B" using km by simp
  obtain ns where ns: "new_ncscale k m = Some ns" "batch_size ns = ?B"
    using new_ncscale_total [OF km B] by auto
  have "wrap32 (num div ?B * ?B) = num div ?B * ?B" using a31 by (intro wrap32_small) linarith
  then show "\<exists>ns. new_ncscale k m = Some ns \<and>
      get_similar_batch_size ns num = Some (num div ?B * ?B)"
    using ns B0 by (auto simp: get_similar_batch_size_def)
  have "1 \<le> num div ?B" using num(1) B0 div_greater_zero_iff [of num ?B] by linarith
  then have "1 * ?B \<le> num div ?B * ?B" by (rule mult_le_mono1)
  moreover have "num div ?B * ?B * (k + m) \<le> num * (k + m)" using le by (rule mult_le_mono1)
  ultimately show "nc_input k m (num div ?B * ?B)"
    using km num(2) unfolding nc_input_def by linarith
  show "even (num div ?B * ?B)" by simp
qed

lemma length_ncscale_tasks:
  assumes "1 \<le> m"
  shows "length (ncscale_tasks k m r) \<le> r * nc_batch k m * (k + m)"
proof -
  obtain m' where m: "m = Suc m'" using assms by (cases m) auto
  have "length (ncscale_tasks k m r) = (k + m) * (r * (k * (2 * k + m))) * (k + (m - 1))"
    by (simp add: ncscale_tasks_def m algebra_simps)
  also have "\<dots> \<le> (k + m) * (r * (k * (2 * k + m))) * (2 * (k + m))"
    by (rule mult_le_mono2) simp
  also have "\<dots> = r * nc_batch k m * (k + m)" by (simp add: algebra_simps)
  finally show ?thesis .
qed

lemma master_scheme_total:
  assumes sup: "supported k m num cf"
    and shuf: "\<And>i xs. mset (shufd i xs) = mset xs" "\<And>i xs. mset (shufs i xs) = mset xs"
  shows "\<exists>scheme. master_scheme shufd shufs cf num ty = Some (Inr scheme) \<and>
    (\<forall>t \<in> set scheme. proper_task (2 * k + m) m t \<and> bare t) \<and> length scheme < 4294967296"
proof -
  let ?a = "num div nc_batch k m * nc_batch k m" and ?n = "2 * k + m"
  from sup have cf: "cf_k cf = k" "cf_m cf = m" "cf_N cf = ?n" and km: "1 \<le> k" "1 \<le> m" "m \<le> 7"
    "k + m < 255" by (simp_all add: supported_def)
  have n: "?n < 32767" using km by linarith
  obtain ns where ns: "new_ncscale k m = Some ns" "get_similar_batch_size ns num = Some ?a"
    using actual_size(1) [OF sup] by blast
  have inp: "nc_input k m ?a" by (rule actual_size(2) [OF sup])
  then have ak: "?a * (k + m) < 4294967296" by (simp add: nc_input_def)
  have w: "wrap16 ?n = ?n" "wrap8 k = k" "wrap8 m = m" using km by (simp_all add: wrap_simps)
  show ?thesis
  proof (cases "ty = 2")
    case True
    from get_scheme_total [OF inp ns(1)] have s:
      "get_scheme ns ?a = Some (Inr (ncscale_tasks k m (?a div nc_batch k m)))" .
    have "length (ncscale_tasks k m (?a div nc_batch k m)) \<le> ?a * (k + m)"
      using length_ncscale_tasks [OF km(2), of k "?a div nc_batch k m"] km by simp
    with ak have "length (ncscale_tasks k m (?a div nc_batch k m)) < 4294967296" by linarith
    with True s ns ncscale_tasks_proper [OF _ km(1,2) n] show ?thesis
      by (simp add: master_scheme_def cf)
  next
    case False
    obtain pls where pls: "generate_random_distributions shufd ?n ?a k m = Some pls"
      "length pls = ?a" "\<forall>pl \<in> set pls. valid_placement ?n k m pl"
      using generate_valid [of shufd k m ?n ?a] shuf(1) km by auto
    have good: "good_input ?n k m pls"
      using km n pls actual_size(4) [OF sup] by (simp add: good_input_def)
    have even: "even (length pls)" using pls(2) actual_size(3) [OF sup] by simp
    obtain g g' where g: "load_generator None None ?n k m pls = Some g"
      "(if ty \<noteq> 0 then do { r \<leftarrow> basic_greedy g False;
          Some (case r of Inl e \<Rightarrow> Inl e | Inr (cost, mg') \<Rightarrow> Inr mg') }
        else dist_based_search g) = Some (Inr g')"
      "g_params g' = set_params ?n k m" "stripes_num g' = length pls"
      "wf_gen g'" "matching_ok g'" "all_matched g'" "blocks_to_sent g' = []"
      using greedy_loaded [OF good _ even, of None None] search_loaded [OF good km(3)] even
      by (cases "ty = 0") fastforce+
    have r: "scheme_ready shufs g'" using searched_ready [OF good g(3,5-8)] shuf(2) by blast
    have p: "node_num (g_params g') = ?n" "rs_m (g_params g') = m" "rs_k (g_params g') = k"
      using g(3) by (simp_all add: set_params_def)
    obtain g'' where s: "get_sending_scheme shufs g' =
        Some (scheme_upto shufs g' (stripes_num g'), g'')"
      using get_sending_scheme_total [OF r] by blast
    have "length (scheme_upto shufs g' (stripes_num g')) \<le> ?a * (k + m)"
      using length_scheme [OF r] by (simp add: p g(4) pls(2))
    then have "length (scheme_upto shufs g' (stripes_num g')) < 4294967296"
      using ak by (rule le_less_trans)
    moreover have "proper_task ?n m t \<and> bare t"
      if "t \<in> set (scheme_upto shufs g' (stripes_num g'))" for t
      using scheme_tasks_proper [OF r _ that] scheme_tasks_bare [OF that] n by (simp add: p)
    ultimately show ?thesis
      using False ns pls(1) g(1,2) s by (simp add: master_scheme_def cf w Let_def)
  qed
qed

section \<open>Dispatching\<close>

lemma dispatch_eq:
  assumes "\<forall>t \<in> set ts. source t \<noteq> target t"
  shows "dispatch ts c = Some (Inr (finish_client (c\<lparr>tasks :=
    (tasks c)\<lparr>task_queue := task_queue (tasks c) @ ts\<rparr>\<rparr>)))"
proof -
  have "foldX add_to_client c ts = Some (Inr (foldl (\<lambda>c t. c\<lparr>tasks := add_task t (tasks c)\<rparr>) c ts))"
    by (rule foldX_foldl) (use assms in \<open>simp add: add_to_client_def\<close>)
  moreover have "foldl (\<lambda>c t. c\<lparr>tasks := add_task t (tasks c)\<rparr>) c ts =
      c\<lparr>tasks := (tasks c)\<lparr>task_queue := task_queue (tasks c) @ ts\<rparr>\<rparr>"
    by (induction ts arbitrary: c) (simp_all add: add_task_def)
  ultimately show ?thesis by (simp add: dispatch_def)
qed

lemma prepared_proper: "prepared n m i t \<Longrightarrow> proper_task n m t"
  by (simp add: prepared_def)

lemma proper_different: "proper_task n m t \<Longrightarrow> source t \<noteq> target t"
  by (simp add: proper_task_def)

text \<open>The queue of the master's client when it starts sending.\<close>

lemma connect_tasks: "tasks (foldl (\<lambda>c (j, a). connect_one j c) c ps) = tasks c"
  by (induction ps arbitrary: c) (auto simp: connect_one_def)

lemma new_client_tasks: "tasks (new_client i sa n) = new_pool n"
  by (simp add: new_client_def blank_client_def connect_tasks)

lemma start_master_total:
  assumes sup: "supported k m num cf" and n: "2 * k + m < 1000"
    and shuf: "\<And>i xs. mset (shufd i xs) = mset xs" "\<And>i xs. mset (shufs i xs) = mset xs"
      "\<And>ts. mset (shuffle ts) = mset ts"
  shows "\<exists>scheme ts. master_scheme shufd shufs cf num ty = Some (Inr scheme) \<and>
    start_master shufd shufs shuffle cf num ty = Some (Inr ((new_client 0 (targets cf) 1)\<lparr>tasks :=
      \<lparr>thread_num = 1, task_queue = ts, seal_flag = True\<rparr>\<rparr>)) \<and>
    length ts = length scheme \<and> (\<forall>i < length ts. prepared (2 * k + m) m i (ts ! i)) \<and>
    mset (map (\<lambda>t. (source t, target t, coefficient t)) ts) =
      mset (map (\<lambda>t. (source t, target t, coefficient t)) scheme)"
proof -
  from master_scheme_total [where ty = ty and shufd = shufd and shufs = shufs, OF sup shuf(1,2)] obtain scheme where
    s: "master_scheme shufd shufs cf num ty = Some (Inr scheme)"
      "\<forall>t \<in> set scheme. proper_task (2 * k + m) m t \<and> bare t" "length scheme < 4294967296"
    by blast
  let ?us = "shuffle scheme"
  have u: "\<forall>t \<in> set ?us. proper_task (2 * k + m) m t \<and> bare t" "length ?us = length scheme"
    using s(2) mset_eq_setD [OF shuf(3)] mset_eq_length [OF shuf(3)] by auto
  have m: "m < 256" using sup by (simp add: supported_def)
  from prepare_all [OF u(1) n m] u(2) s(3) obtain ts where
    t: "prepare_tasks ?us = Some ts" "length ts = length ?us"
      "\<forall>i < length ts. prepared (2 * k + m) m i (ts ! i) \<and> source (ts ! i) = source (?us ! i) \<and>
        target (ts ! i) = target (?us ! i) \<and> coefficient (ts ! i) = coefficient (?us ! i)" by auto
  have "\<forall>t \<in> set ts. source t \<noteq> target t"
    using t(3) by (auto simp: in_set_conv_nth dest!: prepared_proper proper_different)
  note d = dispatch_eq [OF this, of "new_client 0 (targets cf) 1"]
  have "map (\<lambda>t. (source t, target t, coefficient t)) ts =
      map (\<lambda>t. (source t, target t, coefficient t)) ?us"
    using t(2,3) by (intro nth_equalityI) auto
  then have "mset (map (\<lambda>t. (source t, target t, coefficient t)) ts) =
      image_mset (\<lambda>t. (source t, target t, coefficient t)) (mset ?us)" by simp
  also have "mset ?us = mset scheme" by (rule shuf(3))
  finally have "mset (map (\<lambda>t. (source t, target t, coefficient t)) ts) =
      mset (map (\<lambda>t. (source t, target t, coefficient t)) scheme)" by simp
  moreover have "start_master shufd shufs shuffle cf num ty = Some (Inr ((new_client 0 (targets cf) 1)\<lparr>tasks :=
      \<lparr>thread_num = 1, task_queue = ts, seal_flag = True\<rparr>\<rparr>))"
    using s(1) t(1) d by (simp add: start_master_def new_client_tasks new_pool_def
      finish_client_def set_finished_def)
  ultimately show ?thesis
    using s(1) t(2,3) u(2) by (intro exI [of _ scheme] exI [of _ ts]) simp
qed

section \<open>Forwarding\<close>

lemma forward_tasks_eq:
  assumes "seal_flag own"
  shows "\<exists>own'. forward_tasks own c = Some (Inr (finish_client (c\<lparr>tasks := (tasks c)\<lparr>task_queue :=
    task_queue (tasks c) @ takeWhile (\<lambda>t. \<not> is_stop t) (task_queue own)\<rparr>\<rparr>), own'))"
proof -
  let ?b = "\<lambda>c t. Some (Inr (c\<lparr>tasks := add_task t (tasks c)\<rparr>) :: exit_status + client)"
  let ?ts = "takeWhile (\<lambda>t. \<not> is_stop t) (task_queue own)"
  have "foldX ?b c ts = Some (Inr (c\<lparr>tasks := (tasks c)\<lparr>task_queue := task_queue (tasks c) @ ts\<rparr>\<rparr>))"
    for ts by (induction ts arbitrary: c) (simp_all add: add_task_def)
  moreover obtain own' where "consume (get_task default_migration) is_stop ?b own c = do {
      r \<leftarrow> foldX ?b c ?ts; case r of Inl e \<Rightarrow> Some (Inl e) | Inr c' \<Rightarrow> Some (Inr (c', own')) }"
    using pool.consume_sealed [OF assms, of is_stop default_migration ?b c]
    by (auto simp: default_migration_def)
  ultimately show ?thesis by (auto simp: forward_tasks_def)
qed

section \<open>Properties\<close>

text \<open>C15. For supported parameters and each of the three scheme types, the master computes a
  scheme without exiting, prepares it and hands it to its client: the client's queue is sealed
  and holds, up to order and preparation, exactly the transfers of the scheme, numbered from 0,
  each complete (file names fit) and between different nodes of the cluster.\<close>

theorem master_dispatches_scheme:
  assumes "supported k m num cf" and "2 * k + m < 1000"
    and "\<And>i xs. mset (shufd i xs) = mset xs" and "\<And>i xs. mset (shufs i xs) = mset xs"
    and "\<And>ts. mset (shuffle ts) = mset ts"
  shows "\<exists>scheme ts. master_scheme shufd shufs cf num ty = Some (Inr scheme) \<and>
    start_master shufd shufs shuffle cf num ty = Some (Inr ((new_client 0 (targets cf) 1)\<lparr>tasks :=
      \<lparr>thread_num = 1, task_queue = ts, seal_flag = True\<rparr>\<rparr>)) \<and>
    length ts = length scheme \<and> (\<forall>i < length ts. prepared (2 * k + m) m i (ts ! i)) \<and>
    mset (map (\<lambda>t. (source t, target t, coefficient t)) ts) =
      mset (map (\<lambda>t. (source t, target t, coefficient t)) scheme)"
  by (rule start_master_total [OF assms])

theorem master_dispatches_scheme_witness:
  "\<exists>scheme ts. master_scheme (\<lambda>_. rev) (\<lambda>_. rev) \<lparr>cf_k = 2, cf_m = 1, cf_N = 5,
      targets = replicate 5 (''h'', 15000), self_port = None, node_count = 5\<rparr> 600 0 = Some (Inr scheme) \<and>
    length ts = length scheme \<and> (\<forall>i < length ts. prepared 5 1 i (ts ! i))"
  using master_dispatches_scheme [of 2 1 600 "\<lparr>cf_k = 2, cf_m = 1, cf_N = 5,
      targets = replicate 5 (''h'', 15000), self_port = None, node_count = 5\<rparr>" "\<lambda>_. rev" "\<lambda>_. rev" rev 0]
  by (auto simp: supported_def)





end
