(* ===== verification/Erasure.thy ===== *)
theory Erasure
  imports Bytes
begin

unbundle bit_operations_syntax

text \<open>
  The coding step of \<open>ComputeWorker\<close> (include/compute_worker.hh, src/compute_worker.cc): the
  tables its constructor prepares, and what \<open>run\<close> does to the received parity block of one
  task. The theorem is that of parity-aligned merging: with the received block a parity of the
  first narrow stripe and the local file the same parity of the second, the result is the
  parity of the wide stripe.

  The erasure-coding library ISA-L is not part of the repository. Its functions are the fields
  of the record \<open>library\<close>, and what is relied on of them is \<open>isal_laws\<close>: the multiplication is
  that of a field of characteristic two, and \<open>ec_encode_data\<close> with the tables \<open>ec_init_tables\<close>
  made for a coefficient matrix multiplies the vector of chunks with that matrix, also when an
  output chunk is one of the input chunks. The record also has the socket library's \<open>read_n\<close>.
\<close>

record library =
  gf_mul :: "byte \<Rightarrow> byte \<Rightarrow> byte"
  ec_init_tables :: "nat \<Rightarrow> nat \<Rightarrow> byte list \<Rightarrow> byte list"
  ec_encode_data :: "nat \<Rightarrow> nat \<Rightarrow> nat \<Rightarrow> byte list \<Rightarrow> byte list list \<Rightarrow> byte list list"
  sock_read :: "byte reader"

section \<open>The coding step\<close>

definition get_gf_pow :: "library \<Rightarrow> byte \<Rightarrow> nat \<Rightarrow> byte" where
  "get_gf_pow lib a k = (if a = 1 then 1 else foldl (\<lambda>result i. gf_mul lib result a) a [1..<k])"

text \<open>The coding tables, one for each parity; the matrix is \<open>{1, (i + 1) ^ k}\<close>.\<close>

definition init_ec_table :: "library \<Rightarrow> nat \<Rightarrow> nat \<Rightarrow> byte list list" where
  "init_ec_table lib k m =
     map (\<lambda>i. ec_init_tables lib 2 1 [1, get_gf_pow lib (word_of_nat (i + 1)) k]) [0..<m]"

text \<open>
  One task: the local file is read over the thread's buffer (what was in the buffer behind the
  end of a short file stays), and the received block is replaced by the coded one. Without the
  file the program exits. A coefficient of 0 would index the tables at -1.
\<close>

definition compute_chunk ::
  "library \<Rightarrow> nat \<Rightarrow> byte list list \<Rightarrow> (string \<Rightarrow> byte list option) \<Rightarrow> migration \<Rightarrow>
    byte list \<Rightarrow> byte list \<Rightarrow> (exit_status + byte list \<times> byte list) option" where
  "compute_chunk lib chunk gftbl fs t block buf = do {
     fn \<leftarrow> target_fn t;
     case fs fn of
       None \<Rightarrow> Some (Inl (Exit (-1)))
     | Some file \<Rightarrow> do {
         let buf' = fread_loop 0 chunk file False buf;
         c \<leftarrow> coefficient t;
         tbl \<leftarrow> (if c = 0 then None else aget gftbl (c - 1));
         block' \<leftarrow> aget (ec_encode_data lib chunk 2 1 tbl [block, buf']) 0;
         Some (Inr (block', buf'))
       }
   }"

section \<open>What is relied on of ISA-L\<close>

definition xsum :: "byte list \<Rightarrow> byte" where
  "xsum xs = foldr (XOR) xs 0"

definition isal_laws :: "library \<Rightarrow> bool" where
  "isal_laws lib \<longleftrightarrow>
     (\<forall>a b c. gf_mul lib (gf_mul lib a b) c = gf_mul lib a (gf_mul lib b c)) \<and>
     (\<forall>a b. gf_mul lib a b = gf_mul lib b a) \<and> (\<forall>a. gf_mul lib 1 a = a) \<and>
     (\<forall>a b c. gf_mul lib a (b XOR c) = gf_mul lib a b XOR gf_mul lib a c) \<and>
     (\<forall>len k rows a data. length a = k * rows \<and> length data = k \<and>
        (\<forall>d \<in> set data. length d = len) \<longrightarrow>
        ec_encode_data lib len k rows (ec_init_tables lib k rows a) data =
          map (\<lambda>l. map (\<lambda>i. xsum (map (\<lambda>j. gf_mul lib (a ! (l * k + j)) (data ! j ! i)) [0..<k]))
            [0..<len]) [0..<rows])"

lemma xsum_append: "xsum (xs @ ys) = xsum xs XOR xsum ys"
  by (induction xs) (simp_all add: xsum_def xor.assoc)

lemma xsum_simps [simp]: "xsum [] = 0" "xsum (x # xs) = x XOR xsum xs"
  by (simp_all add: xsum_def)

lemma gf_assoc:
  "isal_laws lib \<Longrightarrow> gf_mul lib (gf_mul lib a b) c = gf_mul lib a (gf_mul lib b c)"
  unfolding isal_laws_def by blast

lemma gf_zero:
  assumes "isal_laws lib"
  shows "gf_mul lib a 0 = 0"
proof -
  from assms have "gf_mul lib a (0 XOR 0) = gf_mul lib a 0 XOR gf_mul lib a 0"
    unfolding isal_laws_def by blast
  then show ?thesis by simp
qed

lemma gf_xsum:
  assumes "isal_laws lib"
  shows "gf_mul lib a (xsum xs) = xsum (map (gf_mul lib a) xs)"
  using assms by (induction xs) (simp_all add: gf_zero, simp add: isal_laws_def)

section \<open>The code\<close>

text \<open>
  The reference: parity \<open>a\<close> of a stripe with data chunks \<open>ds\<close> is, byte by byte, the sum of
  \<open>a ^ j * d\<^sub>j\<close> (a Vandermonde code, the parity number counted from 1).
\<close>

primrec gf_power :: "library \<Rightarrow> byte \<Rightarrow> nat \<Rightarrow> byte" where
  "gf_power lib a 0 = 1"
| "gf_power lib a (Suc n) = gf_mul lib (gf_power lib a n) a"

definition parity :: "library \<Rightarrow> byte \<Rightarrow> nat \<Rightarrow> byte list list \<Rightarrow> byte list" where
  "parity lib a len ds =
     map (\<lambda>i. xsum (map (\<lambda>j. gf_mul lib (gf_power lib a j) (ds ! j ! i)) [0..<length ds])) [0..<len]"

lemma length_parity [simp]: "length (parity lib a len ds) = len"
  by (simp add: parity_def)

lemma get_gf_pow_power:
  assumes "isal_laws lib" and "0 < k"
  shows "get_gf_pow lib a k = gf_power lib a k"
proof -
  from assms(1) have u: "gf_mul lib 1 x = x" for x by (simp add: isal_laws_def)
  have one: "gf_power lib 1 n = 1" for n by (induction n) (simp_all add: u)
  have "foldl (\<lambda>r i. gf_mul lib r a) a [1..<Suc n] = gf_power lib a (Suc n)" for n
    by (induction n) (simp_all add: u)
  from this [of "k - 1"] assms(2) one show ?thesis by (auto simp: get_gf_pow_def)
qed

lemma gf_power_add:
  assumes "isal_laws lib"
  shows "gf_mul lib (gf_power lib a k) (gf_power lib a j) = gf_power lib a (k + j)"
proof -
  from assms have laws: "gf_mul lib x 1 = x"
    "gf_mul lib x (gf_mul lib y z) = gf_mul lib (gf_mul lib x y) z" for x y z
    unfolding isal_laws_def by metis+
  show ?thesis by (induction j) (simp_all add: laws)
qed

lemma parity_append:
  assumes "isal_laws lib" and "i < len"
  shows "parity lib a len (ds @ es) ! i =
    parity lib a len ds ! i XOR gf_mul lib (gf_power lib a (length ds)) (parity lib a len es ! i)"
proof -
  let ?f = "\<lambda>j. gf_mul lib (gf_power lib a j) ((ds @ es) ! j ! i)"
  have "[0..<length ds + length es] = [0..<length ds] @ map ((+) (length ds)) [0..<length es]"
    using upt_add_eq_append [of 0 "length ds" "length es"] map_add_upt [of "length ds" "length es"]
    by (simp add: add.commute [of "length es"] add.commute [of _ "length ds", abs_def])
  then have "xsum (map ?f [0..<length (ds @ es)]) =
      xsum (map ?f [0..<length ds]) XOR xsum (map ?f (map ((+) (length ds)) [0..<length es]))"
    by (simp add: xsum_append)
  also have "map ?f [0..<length ds] =
      map (\<lambda>j. gf_mul lib (gf_power lib a j) (ds ! j ! i)) [0..<length ds]"
    by (simp add: nth_append)
  also have "map ?f (map ((+) (length ds)) [0..<length es]) =
      map (gf_mul lib (gf_power lib a (length ds)))
        (map (\<lambda>j. gf_mul lib (gf_power lib a j) (es ! j ! i)) [0..<length es])"
    by (simp add: gf_power_add [OF assms(1), symmetric] gf_assoc [OF assms(1)] nth_append)
  finally show ?thesis
    using assms by (simp add: parity_def gf_xsum)
qed

lemma encode_law:
  assumes "isal_laws lib" and "length a = k * rows" and "length data = k"
    and "\<forall>d \<in> set data. length d = len"
  shows "ec_encode_data lib len k rows (ec_init_tables lib k rows a) data =
    map (\<lambda>l. map (\<lambda>i. xsum (map (\<lambda>j. gf_mul lib (a ! (l * k + j)) (data ! j ! i)) [0..<k]))
      [0..<len]) [0..<rows]"
  using assms unfolding isal_laws_def by blast

text \<open>The coding step in closed form. A complete local file fills the whole buffer.\<close>

definition merge_blocks :: "library \<Rightarrow> nat \<Rightarrow> nat \<Rightarrow> byte list \<Rightarrow> byte list \<Rightarrow> byte list" where
  "merge_blocks lib c k xs ys =
     map2 (\<lambda>x y. x XOR gf_mul lib (get_gf_pow lib (word_of_nat c) k) y) xs ys"

lemma compute_chunk_eq:
  assumes "isal_laws lib" and "target_fn t = Some fn" and "fs fn = Some file"
    and "coefficient t = Some c" and "0 < c" and "c \<le> m"
    and "length block = chunk" and "length buf = chunk"
    and d: "d = overwrite buf 0 (take chunk file)"
  shows "compute_chunk lib chunk (init_ec_table lib k m) fs t block buf =
    Some (Inr (merge_blocks lib c k block d, d))"
proof -
  have len: "length d = chunk" using assms(8) by (simp add: d)
  let ?a = "[1, get_gf_pow lib (word_of_nat c) k]"
  have tbl: "aget (init_ec_table lib k m) (c - Suc 0) = Some (ec_init_tables lib 2 1 ?a)"
    using assms(5,6) by (cases c) (auto simp: init_ec_table_def)
  have one: "gf_mul lib 1 x = x" for x using assms(1) by (simp add: isal_laws_def)
  have "ec_encode_data lib chunk 2 1 (ec_init_tables lib 2 1 ?a) [block, d] =
      map (\<lambda>l. map (\<lambda>i. xsum (map (\<lambda>j. gf_mul lib (?a ! (l * 2 + j))
        ([block, d] ! j ! i)) [0..<2])) [0..<chunk]) [0..<1]"
    by (rule encode_law [OF assms(1)]) (use assms(7) len in auto)
  also have "\<dots> = [merge_blocks lib c k block d]"
    using assms(7) len by (auto simp: one merge_blocks_def numeral_2_eq_2 intro!: nth_equalityI)
  finally show ?thesis
    using assms(2-5) by (simp add: compute_chunk_def fread_loop_eq d [symmetric] tbl)
qed

lemma overwrite_full: "chunk \<le> length file \<Longrightarrow> length buf = chunk \<Longrightarrow>
    overwrite buf 0 (take chunk file) = take chunk file"
  by (simp add: overwrite_def)

lemma length_merge [simp]:
  "length xs = n \<Longrightarrow> length ys = n \<Longrightarrow> length (merge_blocks lib c k xs ys) = n"
  by (simp add: merge_blocks_def)

section \<open>A library for the witnesses\<close>

text \<open>
  A multiplication with the laws: the bytewise conjunction, carried over by an involution that
  maps its unit, the byte of all ones, to 1.
\<close>

definition flip :: "byte \<Rightarrow> byte" where
  "flip x = x XOR (if bit x 0 then 254 else 0)"

definition demo_library :: library where
  "demo_library = \<lparr>gf_mul = (\<lambda>x y. flip (flip x AND flip y)),
     ec_init_tables = (\<lambda>k rows a. a),
     ec_encode_data = (\<lambda>len k rows tbl data. map (\<lambda>l. map (\<lambda>i. xsum (map (\<lambda>j.
       flip (flip (tbl ! (l * k + j)) AND flip (data ! j ! i))) [0..<k])) [0..<len]) [0..<rows]),
     sock_read = (\<lambda>n s. (take n s, drop n s))\<rparr>"

lemma flip_flip: "flip (flip x) = x"
  by (simp add: flip_def bit_simps xor.assoc)

lemma flip_xor: "flip (x XOR y) = flip x XOR flip y"
  by (simp add: flip_def bit_simps ac_simps)

lemma demo_laws: "isal_laws demo_library"
proof -
  have one: "flip 1 = - 1" by (simp add: flip_def)
  show ?thesis
    unfolding isal_laws_def demo_library_def
    by (simp add: flip_flip flip_xor one ac_simps bit.conj_xor_distrib)
qed

section \<open>Properties\<close>

text \<open>C14. Parity-aligned merging is correct: for a task of parity number \<open>c\<close>, if the received
  block is that parity of a narrow stripe with data chunks \<open>ds\<close> and the local file holds that
  parity of a narrow stripe with data chunks \<open>es\<close>, the coding step of \<open>ComputeWorker\<close> leaves
  in the block the same parity of the wide stripe with the data chunks \<open>ds @ es\<close>.\<close>

theorem compute_merges_parities:
  assumes "isal_laws lib" and "0 < k" and "length ds = k" and "length es = k"
    and "coefficient t = Some c" and "0 < c" and "c \<le> m"
    and "target_fn t = Some fn" and "fs fn = Some (parity lib (word_of_nat c) chunk es)"
    and "length buf = chunk"
  shows "\<exists>buf'. compute_chunk lib chunk (init_ec_table lib k m) fs t
      (parity lib (word_of_nat c) chunk ds) buf =
    Some (Inr (parity lib (word_of_nat c) chunk (ds @ es), buf'))"
proof -
  let ?p = "parity lib (word_of_nat c) chunk"
  have "merge_blocks lib c k (?p ds) (?p es) = ?p (ds @ es)"
    by (rule nth_equalityI) (simp_all add: merge_blocks_def get_gf_pow_power [OF assms(1,2)]
      parity_append [OF assms(1)] assms(3))
  then show ?thesis
    using compute_chunk_eq [where fs = fs and block = "?p ds", OF assms(1,8,9,5-7) _ assms(10) refl]
    using assms(10) by (simp add: overwrite_def)
qed

theorem compute_merges_parities_witness:
  "\<exists>buf'. compute_chunk demo_library 2 (init_ec_table demo_library 2 3)
      [''f'' \<mapsto> parity demo_library (word_of_nat 3) 2 [[5, 6], [7, 8]]]
      ((new_migration 1 2 3)\<lparr>target_fn := Some ''f''\<rparr>)
      (parity demo_library (word_of_nat 3) 2 [[1, 2], [3, 4]]) [0, 0] =
    Some (Inr (parity demo_library (word_of_nat 3) 2 ([[1, 2], [3, 4]] @ [[5, 6], [7, 8]]), buf'))"
  by (rule compute_merges_parities) (simp_all add: demo_laws wrap8_def)

text \<open>C36. What goes wrong: without the local file the program exits; a task whose coefficient
  is 0 makes the worker read a table at index -1; and with a file shorter than a chunk the coded
  block also depends on what the thread's buffer held before.\<close>

theorem compute_chunk_errors:
  assumes "isal_laws lib" and "target_fn t = Some fn" and "coefficient t = Some c" and "c \<le> m"
    and "length block = chunk" and "length buf = chunk"
  shows "compute_chunk lib chunk (init_ec_table lib k m) fs t block buf =
    (case fs fn of
       None \<Rightarrow> Some (Inl (Exit (-1)))
     | Some file \<Rightarrow>
         if c = 0 then None
         else let d = take chunk file @ drop (length file) buf
           in Some (Inr (merge_blocks lib c k block d, d)))"
proof (cases "fs fn")
  case None
  then show ?thesis using assms(2) by (simp add: compute_chunk_def)
next
  case (Some f)
  have "take chunk f @ drop (length f) buf = overwrite buf 0 (take chunk f)"
    using assms(6) by (cases "length f \<le> chunk") (simp_all add: overwrite_def min_def)
  then show ?thesis
    using Some assms compute_chunk_eq [where fs = fs, OF assms(1,2) Some assms(3)]
    by (cases "c = 0") (simp_all add: compute_chunk_def Let_def)
qed

theorem compute_chunk_errors_witness:
  "compute_chunk demo_library 3 (init_ec_table demo_library 2 3) [''f'' \<mapsto> [9]]
      ((new_migration 1 2 1)\<lparr>target_fn := Some ''f''\<rparr>) [1, 2, 3] [6, 7, 8] =
    Some (Inr (merge_blocks demo_library 1 2 [1, 2, 3] [9, 7, 8], [9, 7, 8]))"
  using compute_chunk_errors [of demo_library "(new_migration 1 2 1)\<lparr>target_fn := Some ''f''\<rparr>"
      "''f''" 1 3 "[1, 2, 3]" 3 "[6, 7, 8]" 2 "[''f'' \<mapsto> [9]]"]
  by (simp add: demo_laws wrap8_def Let_def)

end
