(* ===== verification/Memory_Pool.thy ===== *)
theory Memory_Pool
  imports Prelude
begin

text \<open>
  The class \<open>MemoryPool\<close> (include/memory_pool.hh, src/memory_pool.cc): a fixed number of chunk
  buffers that are handed out and taken back. The addresses that \<open>new char[s]\<close> returned for the
  buffers are a parameter. Both operations hold the mutex, so each is one step; \<open>get_block\<close> is
  \<open>None\<close> while the caller waits.

  The locale \<open>block_source\<close> states the contract of the threads that share the buffers: as long
  as a thread only gives back what it holds, no buffer has two holders.
\<close>

record memory_pool =
  block_num :: nat
  block_size :: nat
  pool :: "nat list"
  free_queue :: "nat list"
  ptr_map :: "nat \<rightharpoonup> nat"

definition new_memory_pool :: "nat list \<Rightarrow> nat \<Rightarrow> memory_pool" where
  "new_memory_pool addrs s =
     foldl (\<lambda>p i. p\<lparr>pool := pool p @ [addrs ! i], free_queue := free_queue p @ [i],
         ptr_map := (ptr_map p)(addrs ! i \<mapsto> i)\<rparr>)
       \<lparr>block_num = length addrs, block_size = s, pool = [], free_queue = [], ptr_map = Map.empty\<rparr>
       [0..<length addrs]"

definition get_block :: "memory_pool \<Rightarrow> (nat \<times> memory_pool) option" where
  "get_block p = (case free_queue p of
     [] \<Rightarrow> None
   | i # is \<Rightarrow> Some (pool p ! i, p\<lparr>free_queue := is\<rparr>))"

text \<open>A pointer that is not a block's is reported and ignored.\<close>

definition release_block :: "nat \<Rightarrow> memory_pool \<Rightarrow> memory_pool" where
  "release_block ptr p = (case ptr_map p ptr of
     None \<Rightarrow> p
   | Some i \<Rightarrow> p\<lparr>free_queue := free_queue p @ [i]\<rparr>)"

text \<open>The state invariant of the class, and its two abstractions.\<close>

definition wf_pool :: "memory_pool \<Rightarrow> bool" where
  "wf_pool p \<longleftrightarrow> distinct (pool p) \<and> length (pool p) = block_num p \<and>
     (\<forall>i \<in> set (free_queue p). i < block_num p) \<and>
     (\<forall>a. ptr_map p a = map_of (zip (pool p) [0..<block_num p]) a)"

definition free_blocks :: "memory_pool \<Rightarrow> nat list" where
  "free_blocks p = map (\<lambda>i. pool p ! i) (free_queue p)"

definition all_blocks :: "memory_pool \<Rightarrow> nat set" where
  "all_blocks p = set (pool p)"

lemma new_pool_parts:
  "new_memory_pool addrs s = \<lparr>block_num = length addrs, block_size = s, pool = addrs,
     free_queue = [0..<length addrs],
     ptr_map = foldl (\<lambda>f i. f(addrs ! i \<mapsto> i)) Map.empty [0..<length addrs]\<rparr>"
proof -
  have "foldl (\<lambda>p i. p\<lparr>pool := pool p @ [addrs ! i], free_queue := free_queue p @ [i],
         ptr_map := (ptr_map p)(addrs ! i \<mapsto> i)\<rparr>)
       \<lparr>block_num = length addrs, block_size = s, pool = [], free_queue = [], ptr_map = Map.empty\<rparr>
       [0..<n] = \<lparr>block_num = length addrs, block_size = s, pool = take n addrs,
     free_queue = [0..<n], ptr_map = foldl (\<lambda>f i. f(addrs ! i \<mapsto> i)) Map.empty [0..<n]\<rparr>"
    if "n \<le> length addrs" for n
    using that by (induction n) (simp_all add: take_Suc_conv_app_nth)
  from this [of "length addrs"] show ?thesis by (simp add: new_memory_pool_def)
qed

lemma map_of_zip_snoc:
  "length xs = length ys \<Longrightarrow> x \<notin> set xs \<Longrightarrow>
    map_of (zip xs ys @ [(x, y)]) = (map_of (zip xs ys))(x \<mapsto> y)"
proof -
  assume "length xs = length ys" and "x \<notin> set xs"
  then have "map_of (zip xs ys) x = None" by (simp add: map_of_zip_is_None)
  then show ?thesis by (auto simp: map_add_def fun_eq_iff split: option.splits)
qed

lemma new_pool_wf:
  assumes "distinct addrs"
  shows "wf_pool (new_memory_pool addrs s)" "free_blocks (new_memory_pool addrs s) = addrs"
    "all_blocks (new_memory_pool addrs s) = set addrs"
proof -
  have "foldl (\<lambda>f i. f(addrs ! i \<mapsto> i)) Map.empty [0..<n] = map_of (zip (take n addrs) [0..<n])"
    if "n \<le> length addrs" for n
    using that
  proof (induction n)
    case (Suc n)
    then have "addrs ! n \<notin> set (take n addrs)"
      using assms by (auto simp: in_set_conv_nth nth_eq_iff_index_eq)
    with Suc show ?case by (simp add: take_Suc_conv_app_nth map_of_zip_snoc del: map_of_append)
  qed simp
  from this [of "length addrs"] assms
  show "wf_pool (new_memory_pool addrs s)" by (auto simp: new_pool_parts wf_pool_def)
  show "free_blocks (new_memory_pool addrs s) = addrs"
    by (simp add: new_pool_parts free_blocks_def map_nth)
  show "all_blocks (new_memory_pool addrs s) = set addrs"
    by (simp add: new_pool_parts all_blocks_def)
qed

section \<open>The contract\<close>

datatype 'b block_event = Request | Release 'b

text \<open>A run of threads that release only blocks they hold; \<open>held\<close> are the blocks in use.\<close>

fun block_step ::
  "('p \<Rightarrow> ('b \<times> 'p) option) \<Rightarrow> ('b \<Rightarrow> 'p \<Rightarrow> 'p) \<Rightarrow> 'p \<times> 'b list \<Rightarrow> 'b block_event \<Rightarrow>
    ('p \<times> 'b list) option" where
  "block_step request release (p, held) Request =
     do { (b, p') \<leftarrow> request p; Some (p', b # held) }"
| "block_step request release (p, held) (Release b) =
     (if b \<in> set held then Some (release b p, remove1 b held) else None)"

locale block_source =
  fixes request :: "'p \<Rightarrow> ('b \<times> 'p) option"
    and release :: "'b \<Rightarrow> 'p \<Rightarrow> 'p"
    and free :: "'p \<Rightarrow> 'b list"
    and blocks :: "'p \<Rightarrow> 'b set"
    and wf :: "'p \<Rightarrow> bool"
  assumes request_first: "wf p \<Longrightarrow> free p = b # bs \<Longrightarrow>
      \<exists>p'. request p = Some (b, p') \<and> free p' = bs \<and> blocks p' = blocks p \<and> wf p'"
    and request_waits: "wf p \<Longrightarrow> free p = [] \<Longrightarrow> request p = None"
    and release_own: "wf p \<Longrightarrow> b \<in> blocks p \<Longrightarrow>
      free (release b p) = free p @ [b] \<and> blocks (release b p) = blocks p \<and> wf (release b p)"
    and release_foreign: "wf p \<Longrightarrow> b \<notin> blocks p \<Longrightarrow> release b p = p"
begin

definition partitioned :: "'p \<times> 'b list \<Rightarrow> bool" where
  "partitioned s \<longleftrightarrow> wf (fst s) \<and> distinct (free (fst s) @ snd s) \<and>
     set (free (fst s) @ snd s) = blocks (fst s)"

lemma requestD:
  assumes "wf p" and "request p = Some (b, p')"
  shows "free p = b # free p'" "blocks p' = blocks p" "wf p'"
proof -
  from assms request_waits obtain c cs where "free p = c # cs" by (cases "free p") auto
  with request_first [OF assms(1) this] assms(2)
  show "free p = b # free p'" "blocks p' = blocks p" "wf p'" by auto
qed

lemma request_fresh:
  "partitioned (p, held) \<Longrightarrow> request p = Some (b, p') \<Longrightarrow> b \<notin> set held \<and> b \<in> blocks p"
  by (frule requestD [rotated]) (auto simp: partitioned_def)

lemma step_partitioned:
  assumes "partitioned s" and "block_step request release s e = Some s'"
  shows "partitioned s' \<and> blocks (fst s') = blocks (fst s)"
proof (cases e)
  case Request
  obtain p held where s: "s = (p, held)" by fastforce
  with Request assms(2) obtain b p' where r: "request p = Some (b, p')" "s' = (p', b # held)"
    by (auto simp: bind_eq_Some_conv)
  with requestD [of p b p'] assms(1) s show ?thesis by (auto simp: partitioned_def)
next
  case (Release b)
  obtain p held where s: "s = (p, held)" by fastforce
  with Release assms(2) have b: "b \<in> set held" "s' = (release b p, remove1 b held)"
    by (auto split: if_splits)
  from assms(1) s have p: "wf p" "distinct (free p @ held)" "set (free p @ held) = blocks p"
    by (simp_all add: partitioned_def)
  with b(1) have "b \<in> blocks p" by auto
  from release_own [OF p(1) this] p b show ?thesis
    by (auto simp: partitioned_def s set_remove1_eq)
qed

lemma run_partitioned:
  "partitioned s \<Longrightarrow> foldM (block_step request release) s evs = Some s' \<Longrightarrow>
    partitioned s' \<and> blocks (fst s') = blocks (fst s)"
proof (induction evs arbitrary: s)
  case Nil
  then show ?case by simp
next
  case (Cons e evs)
  from Cons.prems(2) obtain t where t: "block_step request release s e = Some t"
    "foldM (block_step request release) t evs = Some s'"
    by (auto simp: bind_eq_Some_conv)
  from step_partitioned [OF Cons.prems(1) t(1)] Cons.IH [OF _ t(2)] show ?case by simp
qed

end

lemma ptr_map_block: "wf_pool p \<Longrightarrow> i < block_num p \<Longrightarrow> ptr_map p (pool p ! i) = Some i"
  by (simp add: wf_pool_def map_of_zip_nth)

lemma ptr_map_foreign: "wf_pool p \<Longrightarrow> a \<notin> all_blocks p \<Longrightarrow> ptr_map p a = None"
  by (simp add: wf_pool_def all_blocks_def map_of_zip_is_None)

interpretation mp: block_source get_block release_block free_blocks all_blocks wf_pool
proof unfold_locales
  fix p b bs
  assume w: "wf_pool p" and "free_blocks p = b # bs"
  then show "\<exists>p'. get_block p = Some (b, p') \<and> free_blocks p' = bs \<and>
      all_blocks p' = all_blocks p \<and> wf_pool p'"
    by (auto simp: get_block_def free_blocks_def all_blocks_def wf_pool_def Cons_eq_map_conv)
next
  fix p
  assume "wf_pool p" and "free_blocks p = []"
  then show "get_block p = None" by (simp add: get_block_def free_blocks_def)
next
  fix p b
  assume w: "wf_pool p" and "b \<in> all_blocks p"
  then obtain i where i: "i < block_num p" "b = pool p ! i"
    by (auto simp: all_blocks_def wf_pool_def in_set_conv_nth)
  with w show "free_blocks (release_block b p) = free_blocks p @ [b] \<and>
      all_blocks (release_block b p) = all_blocks p \<and> wf_pool (release_block b p)"
    using ptr_map_block [OF w i(1)]
    by (auto simp: release_block_def free_blocks_def all_blocks_def wf_pool_def)
next
  fix p b
  assume "wf_pool p" and "b \<notin> all_blocks p"
  then show "release_block b p = p" by (simp add: release_block_def ptr_map_foreign)
qed

section \<open>Properties\<close>

text \<open>C31. The chunk buffers always have exactly one owner: after any run of threads that give
  back only buffers they hold, the free buffers and the held ones together are all the buffers,
  each once, and the next buffer handed out is held by nobody.\<close>

theorem memory_pool_exclusive:
  assumes "distinct addrs"
    and "foldM (block_step get_block release_block) (new_memory_pool addrs sz, []) evs =
      Some (p, held)"
  shows "mset (free_blocks p) + mset held = mset addrs \<and>
    (\<forall>b p'. get_block p = Some (b, p') \<longrightarrow> b \<in> set addrs - set held)"
proof -
  have "mp.partitioned (new_memory_pool addrs sz, [])"
    by (simp add: mp.partitioned_def new_pool_wf assms(1))
  from mp.run_partitioned [OF this assms(2)] assms(1)
  have p: "mp.partitioned (p, held)" "all_blocks p = set addrs" by (simp_all add: new_pool_wf)
  then have "mset (free_blocks p @ held) = mset addrs"
    using assms(1) set_eq_iff_mset_eq_distinct [of "free_blocks p @ held" addrs]
    unfolding mp.partitioned_def by simp
  with mp.request_fresh [OF p(1)] p(2) show ?thesis by auto
qed

theorem memory_pool_exclusive_witness:
  "mset [100] + mset [300, 200 :: nat] = mset [100, 200, 300]"
  using memory_pool_exclusive [of "[100, 200, 300]" 4 "[Request, Request, Release 100, Request]"
      "\<lparr>block_num = 3, block_size = 4, pool = [100, 200, 300], free_queue = [0],
        ptr_map = [100 \<mapsto> 0, 200 \<mapsto> 1, 300 \<mapsto> 2]\<rparr>" "[300, 200]"]
  by (simp add: new_pool_parts upt_rec get_block_def release_block_def free_blocks_def)

text \<open>\<open>release_block\<close> does not notice that a buffer is already free: a buffer given back
  twice is handed out to two holders.\<close>

theorem double_release_shares:
  assumes "wf_pool p" and "a \<in> all_blocks p" and "free_blocks p = []"
  shows "\<exists>p1 p2. get_block (release_block a (release_block a p)) = Some (a, p1) \<and>
    get_block p1 = Some (a, p2)"
proof -
  let ?p = "release_block a (release_block a p)"
  from mp.release_own [OF assms(1,2)] mp.release_own [of "release_block a p" a] assms
  have "wf_pool ?p" "free_blocks ?p = [a, a]" by auto
  from mp.request_first [OF this] obtain p1 where
    p1: "get_block ?p = Some (a, p1)" "free_blocks p1 = [a]" "wf_pool p1" by blast
  from mp.request_first [OF p1(3,2)] p1(1) show ?thesis by blast
qed

theorem double_release_shares_witness:
  "\<exists>p1 p2. get_block (release_block 100 (release_block 100
      \<lparr>block_num = 1, block_size = 4, pool = [100], free_queue = [], ptr_map = [100 \<mapsto> 0]\<rparr>)) =
      Some (100, p1) \<and> get_block p1 = Some (100, p2)"
  by (rule double_release_shares) (simp_all add: wf_pool_def all_blocks_def free_blocks_def)

end
