(* ===== verification/Server.thy ===== *)
theory Server
  imports Erasure Thread_Pool Memory_Pool
begin

text \<open>
  The serving half of a node: \<open>TCPServer\<close> (src/tcp_server.cc) with its \<open>ComputeWorker\<close> and
  \<open>WriteWorker\<close> threads (src/compute_worker.cc, src/write_worker.cc).

  A state holds what the threads share (the chunk buffers, the memory pool, the three task
  queues, the files written) and the program point of every thread with its local variables.
  There is one step relation for each kind of thread, translated from the body of its loop;
  \<open>server_step\<close> is their interleaving. An operation that holds a mutex is one step. What a
  thread does to a buffer it holds, and to its own socket, is taken together with the following
  queue operation. A connection is the stream of bytes the peer will have sent on it.
\<close>

section \<open>State\<close>

record server_env =
  env_lib :: library
  chunk_size :: nat
  gftbl :: "byte list list"
  files :: "string \<Rightarrow> byte list option"
  writable :: "string \<Rightarrow> bool"

text \<open>
  A handler thread waits for a header, or has a task with its buffer and waits for the chunk;
  the handler of the master's connection only reads headers.
\<close>

datatype handler = Reading "byte list" | Filling migration "byte list" | Master "byte list" | Closed

text \<open>A compute thread holds its read buffer (\<open>data[1]\<close>).\<close>

datatype computer = C_idle "byte list" | C_busy migration "byte list" | C_done

datatype writer = W_idle | W_busy migration | W_done

datatype serving = Joining | Waiting | Finished

record server =
  mem :: "nat \<Rightarrow> byte list"
  mem_pool :: memory_pool
  c_worker :: "migration thread_pool"
  w_worker :: "migration thread_pool"
  own_pool :: "migration thread_pool"
  handlers :: "handler list"
  computers :: "computer list"
  writers :: "writer list"
  serving :: serving
  stored :: "(string \<times> byte list) list"
  down :: bool

text \<open>
  The constructor \<open>TCPServer\<close> and the thread starts of \<open>start_serving\<close>; \<open>addrs\<close> are the
  addresses of the chunk buffers, \<open>hs\<close> the handler threads of the accepted connections.
\<close>

definition new_server :: "nat list \<Rightarrow> nat \<Rightarrow> nat \<Rightarrow> handler list \<Rightarrow> server" where
  "new_server addrs workers_num chunk hs =
     \<lparr>mem = (\<lambda>_. replicate chunk 0), mem_pool = new_memory_pool addrs chunk,
      c_worker = new_pool workers_num, w_worker = new_pool workers_num, own_pool = new_pool 1,
      handlers = hs, computers = replicate workers_num (C_idle (replicate chunk 0)),
      writers = replicate workers_num W_idle, serving = Joining, stored = [], down = False\<rparr>"

text \<open>
  \<open>wait_for_connection\<close>: connections are accepted until there are \<open>serving_num\<close>; a failed
  accept (\<open>None\<close>) is skipped. A connection starts with the two bytes of the client's index; the
  master's index is 0. The result is \<open>None\<close> if the loop still waits when no more connections
  come, or if the index cannot be read.
\<close>

fun wait_for_connection :: "library \<Rightarrow> nat \<Rightarrow> byte list option list \<Rightarrow> handler list option" where
  "wait_for_connection lib 0 accepts = Some []"
| "wait_for_connection lib (Suc n) [] = None"
| "wait_for_connection lib (Suc n) (None # accepts) = wait_for_connection lib (Suc n) accepts"
| "wait_for_connection lib (Suc n) (Some str # accepts) = do {
     let (h, str') = sock_read lib 2 str;
     client_index \<leftarrow> (if length h = 2 then Some (le_val h) else None);
     hs \<leftarrow> wait_for_connection lib n accepts;
     Some ((if client_index \<noteq> 0 then Reading str' else Master str') # hs)
   }"

section \<open>The handler threads\<close>

text \<open>
  \<open>receive_handler\<close>. A header that is cut off by the end of the connection has no step: the
  task would be partly uninitialised.
\<close>

inductive receive_step :: "server_env \<Rightarrow> server \<Rightarrow> server \<Rightarrow> bool" for e where
  recv_header: "handlers s = hs @ Reading str # hs' \<Longrightarrow>
    sock_read (env_lib e) header_size str = (h, str') \<Longrightarrow> length h = header_size \<Longrightarrow>
    source (decode_migration h) \<noteq> target (decode_migration h) \<Longrightarrow>
    get_block (mem_pool s) = Some (b, mp) \<Longrightarrow>
    receive_step e s (s\<lparr>mem_pool := mp,
      handlers := hs @ Filling ((decode_migration h)\<lparr>mem_ptr := Some b\<rparr>) str' # hs'\<rparr>)"
| recv_end: "handlers s = hs @ Reading str # hs' \<Longrightarrow>
    sock_read (env_lib e) header_size str = (h, str') \<Longrightarrow>
    h = [] \<or> length h = header_size \<and> source (decode_migration h) = target (decode_migration h) \<Longrightarrow>
    receive_step e s (s\<lparr>handlers := hs @ Closed # hs'\<rparr>)"
| recv_chunk: "handlers s = hs @ Filling t str # hs' \<Longrightarrow>
    mem_ptr t = Some b \<Longrightarrow> coefficient t = Some c \<Longrightarrow>
    recv_loop (sock_read (env_lib e)) 0 (chunk_size e) str (mem s b) = (buf, str') \<Longrightarrow>
    receive_step e s (s\<lparr>mem := (mem s)(b := buf), handlers := hs @ Reading str' # hs',
      c_worker := (if c \<noteq> 0 then add_task t (c_worker s) else c_worker s),
      w_worker := (if c \<noteq> 0 then w_worker s else add_task t (w_worker s))\<rparr>)"

text \<open>\<open>run\<close>: the handler of the master's connection.\<close>

inductive master_step :: "server_env \<Rightarrow> server \<Rightarrow> server \<Rightarrow> bool" for e where
  master_task: "handlers s = hs @ Master str # hs' \<Longrightarrow>
    sock_read (env_lib e) header_size str = (h, str') \<Longrightarrow> length h = header_size \<Longrightarrow>
    master_step e s (s\<lparr>own_pool := add_task (decode_migration h) (own_pool s),
      handlers := hs @ Master str' # hs'\<rparr>)"
| master_end: "handlers s = hs @ Master str # hs' \<Longrightarrow>
    sock_read (env_lib e) header_size str = ([], str') \<Longrightarrow>
    master_step e s (s\<lparr>own_pool := set_finished (own_pool s), handlers := hs @ Closed # hs'\<rparr>)"

section \<open>The workers\<close>

text \<open>\<open>ComputeWorker::run\<close>; the thread that finds the sealed queue empty seals the writers'.\<close>

inductive compute_step :: "server_env \<Rightarrow> server \<Rightarrow> server \<Rightarrow> bool" for e where
  compute_get: "computers s = cs @ C_idle buf # cs' \<Longrightarrow>
    get_task default_migration (c_worker s) = Some (t, cp) \<Longrightarrow> mem_ptr t \<noteq> None \<Longrightarrow>
    compute_step e s (s\<lparr>c_worker := cp, computers := cs @ C_busy t buf # cs'\<rparr>)"
| compute_stop: "computers s = cs @ C_idle buf # cs' \<Longrightarrow>
    get_task default_migration (c_worker s) = Some (t, cp) \<Longrightarrow> mem_ptr t = None \<Longrightarrow>
    compute_step e s (s\<lparr>c_worker := cp, w_worker := set_finished (w_worker s),
      computers := cs @ C_done # cs'\<rparr>)"
| compute_do: "computers s = cs @ C_busy t buf # cs' \<Longrightarrow> mem_ptr t = Some b \<Longrightarrow>
    compute_chunk (env_lib e) (chunk_size e) (gftbl e) (files e) t (mem s b) buf =
      Some (Inr (block', buf')) \<Longrightarrow>
    compute_step e s (s\<lparr>mem := (mem s)(b := block'), w_worker := add_task t (w_worker s),
      computers := cs @ C_idle buf' # cs'\<rparr>)"
| compute_exit: "computers s = cs @ C_busy t buf # cs' \<Longrightarrow> mem_ptr t = Some b \<Longrightarrow>
    compute_chunk (env_lib e) (chunk_size e) (gftbl e) (files e) t (mem s b) buf =
      Some (Inl st) \<Longrightarrow>
    compute_step e s (s\<lparr>down := True\<rparr>)"

text \<open>
  \<open>WriteWorker::run\<close>; \<open>fwrite\<close> writes the whole buffer, and the program exits if the file
  cannot be opened.
\<close>

inductive write_step :: "server_env \<Rightarrow> server \<Rightarrow> server \<Rightarrow> bool" for e where
  write_get: "writers s = ws @ W_idle # ws' \<Longrightarrow>
    get_task default_migration (w_worker s) = Some (t, wp) \<Longrightarrow> mem_ptr t \<noteq> None \<Longrightarrow>
    write_step e s (s\<lparr>w_worker := wp, writers := ws @ W_busy t # ws'\<rparr>)"
| write_stop: "writers s = ws @ W_idle # ws' \<Longrightarrow>
    get_task default_migration (w_worker s) = Some (t, wp) \<Longrightarrow> mem_ptr t = None \<Longrightarrow>
    write_step e s (s\<lparr>w_worker := wp, writers := ws @ W_done # ws'\<rparr>)"
| write_do: "writers s = ws @ W_busy t # ws' \<Longrightarrow> mem_ptr t = Some b \<Longrightarrow> store_fn t = Some fn \<Longrightarrow>
    writable e fn \<Longrightarrow>
    write_step e s (s\<lparr>stored := stored s @ [(fn, take (chunk_size e) (mem s b))],
      mem_pool := release_block b (mem_pool s), writers := ws @ W_idle # ws'\<rparr>)"
| write_exit: "writers s = ws @ W_busy t # ws' \<Longrightarrow> store_fn t = Some fn \<Longrightarrow> \<not> writable e fn \<Longrightarrow>
    write_step e s (s\<lparr>down := True\<rparr>)"

section \<open>The serving thread\<close>

text \<open>
  \<open>start_serving\<close> after the threads are started: it joins the handlers, seals the compute
  workers' queue and waits for both kinds of workers.
\<close>

inductive serve_step :: "server \<Rightarrow> server \<Rightarrow> bool" where
  serve_join: "serving s = Joining \<Longrightarrow> \<forall>h \<in> set (handlers s). h = Closed \<Longrightarrow>
    serve_step s (s\<lparr>c_worker := set_finished (c_worker s), serving := Waiting\<rparr>)"
| serve_finish: "serving s = Waiting \<Longrightarrow> \<forall>c \<in> set (computers s). c = C_done \<Longrightarrow>
    \<forall>w \<in> set (writers s). w = W_done \<Longrightarrow>
    serve_step s (s\<lparr>serving := Finished\<rparr>)"

text \<open>The interleaving of all threads; nothing runs after an \<open>exit\<close>.\<close>

inductive server_step :: "server_env \<Rightarrow> server \<Rightarrow> server \<Rightarrow> bool" for e where
  step_receive: "\<not> down s \<Longrightarrow> receive_step e s s' \<Longrightarrow> server_step e s s'"
| step_master: "\<not> down s \<Longrightarrow> master_step e s s' \<Longrightarrow> server_step e s s'"
| step_compute: "\<not> down s \<Longrightarrow> compute_step e s s' \<Longrightarrow> server_step e s s'"
| step_write: "\<not> down s \<Longrightarrow> write_step e s s' \<Longrightarrow> server_step e s s'"
| step_serve: "\<not> down s \<Longrightarrow> serve_step s s' \<Longrightarrow> server_step e s s'"

abbreviation server_run :: "server_env \<Rightarrow> server \<Rightarrow> server \<Rightarrow> bool" where
  "server_run e \<equiv> (server_step e)\<^sup>*\<^sup>*"

section \<open>Inversion\<close>

inductive_cases receive_stepE: "receive_step e s s'"
inductive_cases master_stepE: "master_step e s s'"
inductive_cases compute_stepE: "compute_step e s s'"
inductive_cases write_stepE: "write_step e s s'"
inductive_cases serve_stepE: "serve_step s s'"
inductive_cases server_stepE: "server_step e s s'"

lemmas step_elims = server_stepE receive_stepE master_stepE compute_stepE write_stepE serve_stepE

text \<open>Which thread can move in which state of the serving thread.\<close>

inductive_simps serve_step_iff: "serve_step s s'"

end
