(* ===== verification/Server_Inv.thy ===== *)
theory Server_Inv
  imports Server
begin

text \<open>
  The invariants of the serving half of a node.

  \<^item> \<open>inv_own\<close>: every chunk buffer is free, or held by exactly one task in flight.
  \<^item> \<open>inv_task\<close>: tasks in flight and tasks still to come are complete.
  \<^item> \<open>inv_phase\<close>: what is known when a queue is sealed and when a thread has ended.
  \<^item> \<open>outputs\<close>: the files written and those the tasks in flight and to come stand for; it is the
    same in every state of a run.
\<close>

section \<open>The byte streams of the connections\<close>

definition reads_fully :: "byte reader \<Rightarrow> bool" where
  "reads_fully rd \<longleftrightarrow> (\<forall>n s. rd n s = (take n s, drop n s))"

lemma reads_fully_stream: "reads_fully rd \<Longrightarrow> stream_reader rd"
  by (auto simp: reads_fully_def stream_reader_def)

text \<open>The tasks with their chunks that a stream holds, up to the end or a stop message.\<close>

function frames :: "nat \<Rightarrow> byte list \<Rightarrow> (migration \<times> byte list) list" where
  "frames chunk str =
     (if length str < header_size then []
      else let t = decode_migration (take header_size str) in
        if source t = target t then []
        else (t, take chunk (drop header_size str)) # frames chunk (drop (header_size + chunk) str))"
  by auto
termination
  by (relation "measure (\<lambda>(chunk, str). length str)") auto

declare frames.simps [simp del]

text \<open>No header and no chunk is cut off.\<close>

function whole :: "nat \<Rightarrow> byte list \<Rightarrow> bool" where
  "whole chunk str =
     (if str = [] then True
      else if length str < header_size then False
      else let t = decode_migration (take header_size str) in
        source t = target t \<or> header_size + chunk \<le> length str \<and>
          whole chunk (drop (header_size + chunk) str))"
  by auto
termination
  by (relation "measure (\<lambda>(chunk, str). length str)") auto

declare whole.simps [simp del]

text \<open>
  A task that can be carried out: its coefficient is at most \<open>m\<close>, the file it is written to can
  be opened, and for a parity block there is a local file of at least a chunk.
\<close>

definition task_ok :: "server_env \<Rightarrow> nat \<Rightarrow> migration \<Rightarrow> bool" where
  "task_ok e m t \<longleftrightarrow>
     (\<exists>fn. store_fn t = Some fn \<and> writable e fn) \<and>
     (\<exists>c \<le> m. coefficient t = Some c \<and>
        (c \<noteq> 0 \<longrightarrow> (\<exists>fn f. target_fn t = Some fn \<and> files e fn = Some f \<and> chunk_size e \<le> length f)))"

definition good_stream :: "server_env \<Rightarrow> nat \<Rightarrow> byte list \<Rightarrow> bool" where
  "good_stream e m str \<longleftrightarrow> whole (chunk_size e) str \<and>
     (\<forall>(t, d) \<in> set (frames (chunk_size e) str). task_ok e m t)"

fun good_handler :: "server_env \<Rightarrow> nat \<Rightarrow> handler \<Rightarrow> bool" where
  "good_handler e m (Reading str) = good_stream e m str"
| "good_handler e m (Filling t str) =
     (chunk_size e \<le> length str \<and> good_stream e m (drop (chunk_size e) str))"
| "good_handler e m (Master str) = (length str mod header_size = 0)"
| "good_handler e m Closed = True"

text \<open>What the code relies on of its environment, and the tables of the constructor.\<close>

definition env_ok :: "server_env \<Rightarrow> nat \<Rightarrow> nat \<Rightarrow> bool" where
  "env_ok e k m \<longleftrightarrow> isal_laws (env_lib e) \<and> reads_fully (sock_read (env_lib e)) \<and>
     gftbl e = init_ec_table (env_lib e) k m"

section \<open>Tasks in flight\<close>

fun h_task :: "handler \<Rightarrow> migration multiset" where
  "h_task (Filling t str) = {#t#}"
| "h_task h = {#}"

fun c_task :: "computer \<Rightarrow> migration multiset" where
  "c_task (C_busy t buf) = {#t#}"
| "c_task c = {#}"

fun w_task :: "writer \<Rightarrow> migration multiset" where
  "w_task (W_busy t) = {#t#}"
| "w_task w = {#}"

definition filling :: "server \<Rightarrow> migration multiset" where
  "filling s = sum_list (map h_task (handlers s))"

text \<open>Parity blocks still to be coded, and blocks that are only to be written.\<close>

definition uncoded :: "server \<Rightarrow> migration multiset" where
  "uncoded s = mset (task_queue (c_worker s)) + sum_list (map c_task (computers s))"

definition coded :: "server \<Rightarrow> migration multiset" where
  "coded s = mset (task_queue (w_worker s)) + sum_list (map w_task (writers s))"

definition in_flight :: "server \<Rightarrow> migration multiset" where
  "in_flight s = filling s + uncoded s + coded s"

abbreviation block_of :: "migration \<Rightarrow> nat" where
  "block_of t \<equiv> the (mem_ptr t)"

lemmas flight_defs = in_flight_def filling_def uncoded_def coded_def

section \<open>The invariants\<close>

definition inv_own :: "nat list \<Rightarrow> server \<Rightarrow> bool" where
  "inv_own addrs s \<longleftrightarrow> wf_pool (mem_pool s) \<and> all_blocks (mem_pool s) = set addrs \<and>
     mset (free_blocks (mem_pool s)) + image_mset block_of (in_flight s) = mset addrs \<and>
     (\<forall>t \<in># in_flight s. mem_ptr t \<noteq> None)"

fun buf_ok :: "nat \<Rightarrow> computer \<Rightarrow> bool" where
  "buf_ok n (C_idle buf) = (length buf = n)"
| "buf_ok n (C_busy t buf) = (length buf = n)"
| "buf_ok n C_done = True"

definition inv_task :: "server_env \<Rightarrow> nat \<Rightarrow> server \<Rightarrow> bool" where
  "inv_task e m s \<longleftrightarrow> (\<forall>b. length (mem s b) = chunk_size e) \<and>
     (\<forall>c \<in> set (computers s). buf_ok (chunk_size e) c) \<and>
     (\<forall>h \<in> set (handlers s). good_handler e m h) \<and>
     (\<forall>t \<in># in_flight s. task_ok e m t) \<and>
     (\<forall>t \<in># uncoded s. coefficient t \<noteq> Some 0)"

definition inv_phase :: "server \<Rightarrow> bool" where
  "inv_phase s \<longleftrightarrow>
     (seal_flag (c_worker s) \<longleftrightarrow> serving s \<noteq> Joining) \<and>
     (serving s \<noteq> Joining \<longrightarrow> (\<forall>h \<in> set (handlers s). h = Closed)) \<and>
     (C_done \<in> set (computers s) \<longrightarrow> seal_flag (c_worker s) \<and> task_queue (c_worker s) = []) \<and>
     (seal_flag (w_worker s) \<longleftrightarrow> C_done \<in> set (computers s)) \<and>
     (W_done \<in> set (writers s) \<longrightarrow> seal_flag (w_worker s) \<and>
        (\<forall>t \<in> set (task_queue (w_worker s)). coefficient t \<noteq> Some 0)) \<and>
     (serving s = Finished \<longrightarrow> (\<forall>c \<in> set (computers s). c = C_done) \<and>
        (\<forall>w \<in> set (writers s). w = W_done))"

text \<open>What a task and its received chunk stand for, and the files of a state.\<close>

definition out :: "server_env \<Rightarrow> nat \<Rightarrow> migration \<times> byte list \<Rightarrow> string \<times> byte list" where
  "out e k = (\<lambda>(t, d). (the (store_fn t),
     if coefficient t = Some 0 then d
     else merge_blocks (env_lib e) (the (coefficient t)) k d
       (take (chunk_size e) (the (files e (the (target_fn t)))))))"

fun h_out :: "server_env \<Rightarrow> nat \<Rightarrow> handler \<Rightarrow> (string \<times> byte list) multiset" where
  "h_out e k (Reading str) = image_mset (out e k) (mset (frames (chunk_size e) str))"
| "h_out e k (Filling t str) = add_mset (out e k (t, take (chunk_size e) str))
     (image_mset (out e k) (mset (frames (chunk_size e) (drop (chunk_size e) str))))"
| "h_out e k (Master str) = {#}"
| "h_out e k Closed = {#}"

definition outputs :: "server_env \<Rightarrow> nat \<Rightarrow> server \<Rightarrow> (string \<times> byte list) multiset" where
  "outputs e k s = sum_list (map (h_out e k) (handlers s)) +
     image_mset (\<lambda>t. out e k (t, mem s (block_of t))) (uncoded s) +
     image_mset (\<lambda>t. (the (store_fn t), mem s (block_of t))) (coded s) +
     mset (stored s)"

section \<open>Preservation\<close>

lemma frames_Cons:
  "header_size \<le> length str \<Longrightarrow> t = decode_migration (take header_size str) \<Longrightarrow>
    source t \<noteq> target t \<Longrightarrow> frames chunk str =
      (t, take chunk (drop header_size str)) # frames chunk (drop chunk (drop header_size str))"
  by (subst frames.simps) (simp add: Let_def add.commute)

lemma frames_stop:
  "str = [] \<or> header_size \<le> length str \<and>
     source (decode_migration (take header_size str)) =
       target (decode_migration (take header_size str)) \<Longrightarrow> frames chunk str = []"
  by (subst frames.simps) (auto simp: Let_def)

lemma whole_Cons:
  "header_size \<le> length str \<Longrightarrow> t = decode_migration (take header_size str) \<Longrightarrow>
    source t \<noteq> target t \<Longrightarrow> whole chunk str \<longleftrightarrow>
      chunk \<le> length (drop header_size str) \<and> whole chunk (drop chunk (drop header_size str))"
  by (subst whole.simps) (auto simp: Let_def add.commute)

lemma get_message:
  assumes "get_task d p = Some (t, p')" and "mem_ptr t \<noteq> None" and "mem_ptr d = None"
  shows "task_queue p = t # task_queue p'" "seal_flag p' = seal_flag p"
  using assms(1) by (rule pool.get_cases; use assms(2,3) in auto)+

lemma get_stop:
  assumes "get_task d p = Some (t, p')" and "mem_ptr t = None"
    and "\<forall>t \<in> set (task_queue p). mem_ptr t \<noteq> None"
  shows "task_queue p = []" "seal_flag p" "p' = p"
  using assms(1) by (rule pool.get_cases; use assms(2,3) in auto)+

lemma mem_ptr_default [simp]: "mem_ptr default_migration = None"
  by (simp add: default_migration_def)

lemma block_of_flight:
  assumes "inv_own addrs s" and "t \<in># in_flight s"
  shows "block_of t \<in> set addrs"
proof -
  have "block_of t \<in># image_mset block_of (in_flight s)" using assms(2) by simp
  moreover have "image_mset block_of (in_flight s) \<subseteq># mset addrs"
    using assms(1) unfolding inv_own_def by (metis mset_subset_eq_add_right)
  ultimately have "block_of t \<in># mset addrs" by (rule mset_subset_eqD [rotated])
  then show ?thesis by simp
qed

lemma own_receive:
  assumes "inv_own addrs s" and "receive_step e s s'"
  shows "inv_own addrs s'"
  using assms(2)
proof cases
  case (recv_header hs str hs' h str' b mp)
  from assms(1) have "wf_pool (mem_pool s)" by (simp add: inv_own_def)
  from mp.requestD [OF this recv_header(6)] assms(1) recv_header(1,2) show ?thesis
    by (auto simp: inv_own_def flight_defs)
next
  case (recv_end hs str hs' h str')
  with assms(1) show ?thesis by (simp add: inv_own_def flight_defs)
next
  case (recv_chunk hs t str hs' b c buf str')
  with assms(1) show ?thesis by (simp add: inv_own_def flight_defs add_task_def)
qed

lemma own_compute:
  assumes "inv_own addrs s" and "compute_step e s s'"
  shows "inv_own addrs s'"
  using assms(2)
proof cases
  case (compute_get cs buf cs' t cp)
  with assms(1) get_message [OF compute_get(3,4)] show ?thesis
    by (simp add: inv_own_def flight_defs)
next
  case (compute_stop cs buf cs' t cp)
  have "\<forall>t \<in> set (task_queue (c_worker s)). mem_ptr t \<noteq> None"
    using assms(1) by (simp add: inv_own_def flight_defs)
  from get_stop [OF compute_stop(3,4) this] compute_stop assms(1) show ?thesis
    by (simp add: inv_own_def flight_defs set_finished_def)
next
  case (compute_do cs t buf cs' b block' buf')
  with assms(1) show ?thesis by (simp add: inv_own_def flight_defs add_task_def)
next
  case (compute_exit cs t buf cs' b st)
  with assms(1) show ?thesis by (simp add: inv_own_def flight_defs)
qed

lemma own_write:
  assumes "inv_own addrs s" and "write_step e s s'"
  shows "inv_own addrs s'"
  using assms(2)
proof cases
  case (write_get ws ws' t wp)
  with assms(1) get_message [OF write_get(3,4)] show ?thesis
    by (simp add: inv_own_def flight_defs)
next
  case (write_stop ws ws' t wp)
  have "\<forall>t \<in> set (task_queue (w_worker s)). mem_ptr t \<noteq> None"
    using assms(1) by (simp add: inv_own_def flight_defs)
  from get_stop [OF write_stop(3,4) this] write_stop assms(1) show ?thesis
    by (simp add: inv_own_def flight_defs)
next
  case (write_do ws t ws' b fn)
  have "t \<in># in_flight s" using write_do(2) by (simp add: flight_defs)
  from block_of_flight [OF assms(1) this] have "b \<in> set addrs" using write_do(3) by simp
  then have "b \<in> all_blocks (mem_pool s)" using assms(1) by (simp add: inv_own_def)
  with mp.release_own [of "mem_pool s" b] write_do assms(1) show ?thesis
    by (simp add: inv_own_def flight_defs)
next
  case (write_exit ws t ws' fn)
  with assms(1) show ?thesis by (simp add: inv_own_def flight_defs)
qed

lemma own_step:
  assumes "inv_own addrs s" and "server_step e s s'"
  shows "inv_own addrs s'"
  using assms(2)
proof cases
  case step_master
  from step_master(2) show ?thesis
    by cases (use assms(1) in \<open>simp_all add: inv_own_def flight_defs\<close>)
next
  case step_serve
  from step_serve(2) show ?thesis
    by cases (use assms(1) in \<open>simp_all add: inv_own_def flight_defs set_finished_def\<close>)
qed (auto intro: own_receive own_compute own_write assms(1))

text \<open>Another task in flight has another block.\<close>

lemma blocks_distinct:
  assumes "inv_own addrs s" and "distinct addrs" and "in_flight s = add_mset t ts"
    and "t' \<in># ts" and "mem_ptr t = Some b"
  shows "block_of t' \<noteq> b"
proof
  assume b: "block_of t' = b"
  from assms(4) obtain us where "ts = add_mset t' us" by (metis mset_add)
  then have "mset addrs =
      mset (free_blocks (mem_pool s)) + add_mset b (add_mset b (image_mset block_of us))"
    using assms(1,3,5) b by (simp add: inv_own_def)
  then have "2 \<le> count (mset addrs) b" by simp
  then show False using assms(2) by (simp add: distinct_count_atmost_1 split: if_splits)
qed

text \<open>Writing to the block of a task does not change the block of any other.\<close>

lemma mem_others:
  assumes "inv_own addrs s" and "distinct addrs" and "in_flight s = add_mset t (us + ts)"
    and "mem_ptr t = Some b"
  shows "image_mset (\<lambda>t. f t (((mem s)(b := buf)) (block_of t))) ts =
    image_mset (\<lambda>t. f t (mem s (block_of t))) ts"
  by (rule image_mset_cong) (use blocks_distinct [OF assms(1-3) _ assms(4)] in auto)

lemma task_receive:
  assumes "inv_task e m s" and "env_ok e k m" and "receive_step e s s'"
  shows "inv_task e m s'"
  using assms(3)
proof cases
  case (recv_header hs str hs' h str' b mp)
  have rd: "sock_read (env_lib e) n x = (take n x, drop n x)" for n x
    using assms(2) by (simp add: env_ok_def reads_fully_def)
  from recv_header rd have h: "h = take header_size str" "str' = drop header_size str"
    "header_size \<le> length str" by auto
  have g: "good_stream e m str" using assms(1) recv_header(2) by (simp add: inv_task_def)
  let ?t = "decode_migration h"
  note f = frames_Cons [OF h(3) refl, folded h(1), OF recv_header(5)]
  note w = whole_Cons [OF h(3) refl, folded h(1), OF recv_header(5)]
  from g have "task_ok e m ?t" "good_handler e m (Filling ?t str')"
    using h(2) by (auto simp: good_stream_def f w)
  then have "task_ok e m (?t\<lparr>mem_ptr := Some b\<rparr>)"
    "good_handler e m (Filling (?t\<lparr>mem_ptr := Some b\<rparr>) str')" by (simp_all add: task_ok_def)
  with assms(1) recv_header(1,2) show ?thesis
    by (auto simp: inv_task_def flight_defs)
next
  case (recv_end hs str hs' h str')
  with assms(1) show ?thesis by (auto simp: inv_task_def flight_defs)
next
  case (recv_chunk hs t str hs' b c buf str')
  have rd: "stream_reader (sock_read (env_lib e))"
    using assms(2) by (simp add: env_ok_def reads_fully_stream)
  have len: "length (mem s b) = chunk_size e" using assms(1) by (simp add: inv_task_def)
  from recv_loop_eq [OF rd, of 0 "chunk_size e" "mem s b" str] recv_chunk(5) len
  have r: "length buf = chunk_size e" "str' = drop (chunk_size e) str" by auto
  with assms(1) recv_chunk show ?thesis
    by (auto simp: inv_task_def flight_defs add_task_def)
qed

lemma compute_ok:
  assumes "env_ok e k m" and "task_ok e m t" and "coefficient t \<noteq> Some 0"
    and "length block = chunk_size e" and "length buf = chunk_size e"
  shows "\<exists>buf'. compute_chunk (env_lib e) (chunk_size e) (gftbl e) (files e) t block buf =
      Some (Inr (snd (out e k (t, block)), buf')) \<and> length buf' = chunk_size e \<and>
      length (snd (out e k (t, block))) = chunk_size e"
proof -
  from assms(2,3) obtain c fn f where c: "coefficient t = Some c" "0 < c" "c \<le> m"
    "target_fn t = Some fn" "files e fn = Some f" "chunk_size e \<le> length f"
    by (auto simp: task_ok_def)
  from assms(1) have e: "isal_laws (env_lib e)" "gftbl e = init_ec_table (env_lib e) k m"
    by (simp_all add: env_ok_def)
  from compute_chunk_eq [where fs = "files e", OF e(1) c(4,5,1-3) assms(4,5) refl] show ?thesis
    using c assms(4,5) by (simp add: e(2) out_def overwrite_full)
qed

lemma task_compute:
  assumes "inv_task e m s" and "inv_own addrs s" and "env_ok e k m" and "compute_step e s s'"
  shows "inv_task e m s'"
  using assms(4)
proof cases
  case (compute_get cs buf cs' t cp)
  with assms(1) get_message [OF compute_get(3,4)] show ?thesis
    by (auto simp: inv_task_def flight_defs)
next
  case (compute_stop cs buf cs' t cp)
  have "\<forall>t \<in> set (task_queue (c_worker s)). mem_ptr t \<noteq> None"
    using assms(2) by (simp add: inv_own_def flight_defs)
  from get_stop [OF compute_stop(3,4) this] compute_stop assms(1) show ?thesis
    by (auto simp: inv_task_def flight_defs set_finished_def)
next
  case (compute_do cs t buf cs' b block' buf')
  have t: "t \<in># in_flight s" "t \<in># uncoded s" using compute_do(2) by (simp_all add: flight_defs)
  with assms(1) have "task_ok e m t" "coefficient t \<noteq> Some 0" "length (mem s b) = chunk_size e"
    "length buf = chunk_size e" using compute_do(2) by (auto simp: inv_task_def)
  from compute_ok [OF assms(3) this] compute_do(4) have
    "length block' = chunk_size e" "length buf' = chunk_size e" by auto
  with assms(1) compute_do show ?thesis
    by (auto simp: inv_task_def flight_defs add_task_def)
next
  case (compute_exit cs t buf cs' b st)
  with assms(1) show ?thesis by (auto simp: inv_task_def flight_defs)
qed

lemma task_write:
  assumes "inv_task e m s" and "inv_own addrs s" and "write_step e s s'"
  shows "inv_task e m s'"
  using assms(3)
proof cases
  case (write_get ws ws' t wp)
  with assms(1) get_message [OF write_get(3,4)] show ?thesis
    by (auto simp: inv_task_def flight_defs)
next
  case (write_stop ws ws' t wp)
  have "\<forall>t \<in> set (task_queue (w_worker s)). mem_ptr t \<noteq> None"
    using assms(2) by (simp add: inv_own_def flight_defs)
  from get_stop [OF write_stop(3,4) this] write_stop assms(1) show ?thesis
    by (auto simp: inv_task_def flight_defs)
qed (use assms(1) in \<open>auto simp: inv_task_def flight_defs\<close>)

lemma task_step:
  assumes "inv_task e m s" and "inv_own addrs s" and "env_ok e k m" and "server_step e s s'"
  shows "inv_task e m s'"
  using assms(4)
proof cases
  case step_master
  have rd: "sock_read (env_lib e) n x = (take n x, drop n x)" for n x
    using assms(3) by (simp add: env_ok_def reads_fully_def)
  from step_master(2) show ?thesis
  proof cases
    case (master_task hs str hs' h str')
    then have "header_size \<le> length str" "str' = drop header_size str" by (auto simp: rd)
    with assms(1) master_task(1,2) show ?thesis
      by (auto simp: inv_task_def flight_defs le_mod_geq [symmetric])
  qed (use assms(1) in \<open>auto simp: inv_task_def flight_defs\<close>)
next
  case step_serve
  from step_serve(2) show ?thesis
    by cases (use assms(1) in \<open>auto simp: inv_task_def flight_defs set_finished_def\<close>)
qed (auto intro: task_receive task_compute task_write assms)

lemma phase_step:
  assumes "inv_phase s" and "inv_task e m s" and "inv_own addrs s" and "server_step e s s'"
  shows "inv_phase s'"
  using assms(4)
proof cases
  case step_receive
  from step_receive(2) show ?thesis
    by cases (use assms(1) in \<open>auto simp: inv_phase_def add_task_def\<close>)
next
  case step_master
  from step_master(2) show ?thesis
    by cases (use assms(1) in \<open>auto simp: inv_phase_def\<close>)
next
  case step_compute
  from step_compute(2) show ?thesis
  proof cases
    case (compute_get cs buf cs' t cp)
    with assms(1) get_message [OF compute_get(3,4)] show ?thesis
      by (auto simp: inv_phase_def)
  next
    case (compute_stop cs buf cs' t cp)
    have "\<forall>t \<in> set (task_queue (c_worker s)). mem_ptr t \<noteq> None"
      using assms(3) by (simp add: inv_own_def flight_defs)
    from get_stop [OF compute_stop(3,4) this] compute_stop assms(1) show ?thesis
      by (auto simp: inv_phase_def set_finished_def)
  next
    case (compute_do cs t buf cs' b block' buf')
    then have "coefficient t \<noteq> Some 0" using assms(2) by (auto simp: inv_task_def flight_defs)
    with compute_do assms(1) show ?thesis by (auto simp: inv_phase_def add_task_def)
  next
    case (compute_exit cs t buf cs' b st)
    with assms(1) show ?thesis by (auto simp: inv_phase_def)
  qed
next
  case step_write
  from step_write(2) show ?thesis
  proof cases
    case (write_get ws ws' t wp)
    with assms(1) get_message [OF write_get(3,4)] show ?thesis
      by (auto simp: inv_phase_def)
  next
    case (write_stop ws ws' t wp)
    have "\<forall>t \<in> set (task_queue (w_worker s)). mem_ptr t \<noteq> None"
      using assms(3) by (simp add: inv_own_def flight_defs)
    from get_stop [OF write_stop(3,4) this] write_stop assms(1) show ?thesis
      by (auto simp: inv_phase_def)
  qed (use assms(1) in \<open>auto simp: inv_phase_def\<close>)
next
  case step_serve
  from step_serve(2) show ?thesis
    by cases (use assms(1) in \<open>auto simp: inv_phase_def set_finished_def\<close>)
qed

section \<open>Conservation\<close>

lemma out_mem_ptr [simp]: "out e k (t\<lparr>mem_ptr := p\<rparr>, d) = out e k (t, d)"
  by (simp add: out_def)

lemma out_fst [simp]: "fst (out e k (t, d)) = the (store_fn t)"
  by (simp add: out_def)

lemma outputs_receive:
  assumes "inv_own addrs s" and "distinct addrs" and "inv_task e m s" and "env_ok e k m"
    and "receive_step e s s'"
  shows "outputs e k s' = outputs e k s"
  using assms(5)
proof cases
  case (recv_header hs str hs' h str' b mp)
  from recv_header assms(4) have h: "h = take header_size str" "str' = drop header_size str"
    "header_size \<le> length str" by (auto simp: env_ok_def reads_fully_def)
  note f = frames_Cons [OF h(3) refl, folded h(1), OF recv_header(5)]
  show ?thesis
    using recv_header(1,2) by (simp add: outputs_def flight_defs f h(2))
next
  case (recv_end hs str hs' h str')
  then have "frames (chunk_size e) str = []"
    using assms(4) by (intro frames_stop) (auto simp: env_ok_def reads_fully_def)
  with recv_end(1,2) show ?thesis by (simp add: outputs_def flight_defs)
next
  case (recv_chunk hs t str hs' b c buf str')
  have g: "chunk_size e \<le> length str" "length (mem s b) = chunk_size e"
    using assms(3) recv_chunk(2) by (simp_all add: inv_task_def)
  have rd: "stream_reader (sock_read (env_lib e))"
    using assms(4) by (simp add: env_ok_def reads_fully_stream)
  from recv_loop_eq [OF rd, of 0 "chunk_size e" "mem s b" str] recv_chunk(5) g
  have r: "buf = take (chunk_size e) str" "str' = drop (chunk_size e) str"
    by (simp_all add: overwrite_full)
  let ?fill = "sum_list (map h_task (hs @ hs'))"
  have fl: "in_flight s = add_mset t ((?fill + coded s) + uncoded s)"
    "in_flight s = add_mset t ((?fill + uncoded s) + coded s)"
    using recv_chunk(2) by (simp_all add: flight_defs)
  note others = mem_others [OF assms(1,2) fl(1) recv_chunk(3)]
    mem_others [OF assms(1,2) fl(2) recv_chunk(3)]
  have "uncoded s' = (if c \<noteq> 0 then {#t#} else {#}) + uncoded s"
    "coded s' = (if c \<noteq> 0 then {#} else {#t#}) + coded s"
    using recv_chunk(1) by (simp_all add: uncoded_def coded_def add_task_def)
  moreover have "mem s' = (mem s)(b := buf)" "stored s' = stored s"
    "handlers s' = hs @ Reading str' # hs'" using recv_chunk(1) by simp_all
  moreover have "out e k (t, d) = (the (store_fn t), d)" if "c = 0" for d
    using that recv_chunk(4) by (simp add: out_def)
  ultimately show ?thesis
    using recv_chunk(2,3)
    by (simp add: outputs_def others [of "\<lambda>t x. out e k (t, x)"]
        others [of "\<lambda>t. Pair (the (store_fn t))"] r del: fun_upd_apply) (simp add: r)
qed

lemma outputs_compute:
  assumes "inv_own addrs s" and "distinct addrs" and "inv_task e m s" and "env_ok e k m"
    and "compute_step e s s'"
  shows "outputs e k s' = outputs e k s"
  using assms(5)
proof cases
  case (compute_get cs buf cs' t cp)
  with get_message [OF compute_get(3,4)] show ?thesis
    by (simp add: outputs_def flight_defs)
next
  case (compute_stop cs buf cs' t cp)
  have "\<forall>t \<in> set (task_queue (c_worker s)). mem_ptr t \<noteq> None"
    using assms(1) by (simp add: inv_own_def flight_defs)
  from get_stop [OF compute_stop(3,4) this] compute_stop show ?thesis
    by (simp add: outputs_def flight_defs set_finished_def)
next
  case (compute_do cs t buf cs' b block' buf')
  have t: "t \<in># in_flight s" "t \<in># uncoded s" using compute_do(2) by (simp_all add: flight_defs)
  with assms(3) have "task_ok e m t" "coefficient t \<noteq> Some 0" "length (mem s b) = chunk_size e"
    "length buf = chunk_size e" using compute_do(2) by (auto simp: inv_task_def)
  from compute_ok [OF assms(4) this] compute_do(4) have
    b: "out e k (t, mem s b) = (the (store_fn t), block')"
    by (cases "out e k (t, mem s b)") (auto simp: prod_eq_iff)
  let ?un = "mset (task_queue (c_worker s)) + sum_list (map c_task (cs @ cs'))"
  have u: "uncoded s = add_mset t ?un" "uncoded s' = ?un" "coded s' = add_mset t (coded s)"
    using compute_do(1,2) by (simp_all add: uncoded_def coded_def add_task_def)
  have fl: "in_flight s = add_mset t ((filling s + coded s) + ?un)"
    "in_flight s = add_mset t ((filling s + ?un) + coded s)"
    by (simp_all add: in_flight_def u)
  note others = mem_others [OF assms(1,2) fl(1) compute_do(3)]
    mem_others [OF assms(1,2) fl(2) compute_do(3)]
  have "mem s' = (mem s)(b := block')" "stored s' = stored s" "handlers s' = handlers s"
    using compute_do(1) by simp_all
  then show ?thesis
    unfolding outputs_def u
    by (simp only: image_mset_add_mset others [of "\<lambda>t x. out e k (t, x)"]
        others [of "\<lambda>t. Pair (the (store_fn t))"]) (simp add: compute_do(3) b)
next
  case (compute_exit cs t buf cs' b st)
  then show ?thesis by (simp add: outputs_def flight_defs)
qed

lemma outputs_write:
  assumes "inv_own addrs s" and "inv_task e m s" and "write_step e s s'"
  shows "outputs e k s' = outputs e k s"
  using assms(3)
proof cases
  case (write_get ws ws' t wp)
  with get_message [OF write_get(3,4)] show ?thesis
    by (simp add: outputs_def flight_defs)
next
  case (write_stop ws ws' t wp)
  have "\<forall>t \<in> set (task_queue (w_worker s)). mem_ptr t \<noteq> None"
    using assms(1) by (simp add: inv_own_def flight_defs)
  from get_stop [OF write_stop(3,4) this] write_stop show ?thesis
    by (simp add: outputs_def flight_defs)
next
  case (write_do ws t ws' b fn)
  then show ?thesis using assms(2) by (simp add: outputs_def flight_defs inv_task_def)
next
  case (write_exit ws t ws' fn)
  then show ?thesis by (simp add: outputs_def flight_defs)
qed

lemma outputs_step:
  assumes "inv_own addrs s" and "distinct addrs" and "inv_task e m s" and "env_ok e k m"
    and "server_step e s s'"
  shows "outputs e k s' = outputs e k s"
  using assms(5)
proof cases
  case step_master
  from step_master(2) show ?thesis
    by cases (simp_all add: outputs_def flight_defs)
next
  case step_serve
  from step_serve(2) show ?thesis
    by cases (simp_all add: outputs_def flight_defs set_finished_def)
qed (auto intro: outputs_receive outputs_compute outputs_write assms)

end
