(* ===== verification/Runs.thy ===== *)
theory Runs
  imports Prelude
begin

text \<open>
  Step systems that come to an end. The locale \<open>measured_system\<close> is the contract of a system of
  interleaved threads: an invariant that every step keeps, a weight that every step lowers, and
  progress as long as the final states are not reached. It is interpreted on the threads of one
  server and on the whole cluster. The parameter of type \<open>'c\<close> holds the constants of a system.
\<close>

locale measured_system =
  fixes step :: "'c \<Rightarrow> 's \<Rightarrow> 's \<Rightarrow> bool"
    and inv :: "'c \<Rightarrow> 's \<Rightarrow> bool"
    and weight :: "'c \<Rightarrow> 's \<Rightarrow> nat"
    and final :: "'c \<Rightarrow> 's \<Rightarrow> bool"
  assumes inv_step: "inv c s \<Longrightarrow> step c s s' \<Longrightarrow> inv c s'"
    and weight_step: "inv c s \<Longrightarrow> step c s s' \<Longrightarrow> weight c s' < weight c s"
    and progress: "inv c s \<Longrightarrow> \<not> final c s \<Longrightarrow> \<exists>s'. step c s s'"
    and final_stops: "inv c s \<Longrightarrow> final c s \<Longrightarrow> \<not> step c s s'"
begin

lemma run_inv: "(step c)\<^sup>*\<^sup>* s s' \<Longrightarrow> inv c s \<Longrightarrow> inv c s'"
  by (induction rule: rtranclp_induct) (auto intro: inv_step)

lemma run_bounded:
  assumes "(step c ^^ n) s s'" and "inv c s"
  shows "n + weight c s' \<le> weight c s" "inv c s'"
proof -
  have "n + weight c s' \<le> weight c s \<and> inv c s'"
    using assms(1)
  proof (induction n arbitrary: s')
    case 0
    then show ?case using assms(2) by simp
  next
    case (Suc n)
    then obtain t where t: "(step c ^^ n) s t" "step c t s'" by auto
    from Suc.IH [OF t(1)] weight_step [OF _ t(2)] inv_step [OF _ t(2)] show ?case by fastforce
  qed
  then show "n + weight c s' \<le> weight c s" "inv c s'" by simp_all
qed

lemma stuck_iff_final: "inv c s \<Longrightarrow> final c s \<longleftrightarrow> (\<forall>s'. \<not> step c s s')"
  using progress final_stops by blast

lemma can_finish: "inv c s \<Longrightarrow> \<exists>s'. (step c)\<^sup>*\<^sup>* s s' \<and> final c s'"
proof (induction "weight c s" arbitrary: s rule: less_induct)
  case less
  show ?case
  proof (cases "final c s")
    case True
    then show ?thesis by blast
  next
    case False
    from progress [OF less.prems False] obtain t where t: "step c s t" by blast
    from less.hyps [OF weight_step [OF less.prems t] inv_step [OF less.prems t]] t show ?thesis
      by (meson converse_rtranclp_into_rtranclp)
  qed
qed

end

end
