(* ===== verification/Server_Run.thy ===== *)
theory Server_Run
  imports Server_Inv Runs
begin

text \<open>
  Runs of the serving half of a node: the invariants hold in every reachable state, no run
  deadlocks or goes on forever, and what is on disk when it ends. With one compute thread
  everything that was received has been written. With two or more, a compute thread that ends
  seals the writers' queue while another one still works, and a parity block can be lost.
\<close>

section \<open>Reachable states\<close>

definition server_inv :: "server_env \<Rightarrow> nat \<Rightarrow> nat list \<Rightarrow> server \<Rightarrow> bool" where
  "server_inv e m addrs s \<longleftrightarrow> inv_own addrs s \<and> inv_task e m s \<and> inv_phase s \<and> \<not> down s"

text \<open>The handlers as \<open>wait_for_connection\<close> starts them, on streams of complete tasks.\<close>

definition started :: "server_env \<Rightarrow> nat \<Rightarrow> handler list \<Rightarrow> bool" where
  "started e m hs \<longleftrightarrow> (\<forall>h \<in> set hs. good_handler e m h \<and> h_task h = {#})"

text \<open>The files the tasks of all connections stand for.\<close>

definition expected :: "server_env \<Rightarrow> nat \<Rightarrow> handler list \<Rightarrow> (string \<times> byte list) multiset" where
  "expected e k hs = sum_list (map (h_out e k) hs)"

lemma no_h_tasks: "started e m hs \<Longrightarrow> sum_list (map h_task hs) = {#}"
  by (induction hs) (auto simp: started_def)

lemma no_tasks: "sum_list (replicate n ({#} :: 'a multiset)) = {#}"
  by (induction n) simp_all

lemma new_server_inv:
  assumes "started e m hs" and "distinct addrs"
  shows "server_inv e m addrs (new_server addrs n (chunk_size e) hs)"
    and "outputs e k (new_server addrs n (chunk_size e) hs) = expected e k hs"
  using assms no_h_tasks [OF assms(1)]
  by (auto simp: server_inv_def inv_own_def inv_task_def inv_phase_def flight_defs new_server_def
      new_pool_wf new_pool_def no_tasks started_def outputs_def expected_def)

lemma step_not_down:
  assumes "inv_task e m s" and "env_ok e k m" and "server_step e s s'"
  shows "\<not> down s'"
  using assms(3)
proof cases
  case step_receive
  from step_receive(2,1) show ?thesis by cases simp_all
next
  case step_master
  from step_master(2,1) show ?thesis by cases simp_all
next
  case step_compute
  from step_compute(2,1) show ?thesis
  proof cases
    case (compute_exit cs t buf cs' b st)
    then have "t \<in># in_flight s" "t \<in># uncoded s" by (simp_all add: flight_defs)
    with assms(1) have "task_ok e m t" "coefficient t \<noteq> Some 0"
      "length (mem s b) = chunk_size e" "length buf = chunk_size e"
      using compute_exit(2) by (auto simp: inv_task_def)
    from compute_ok [OF assms(2) this] compute_exit(4) show ?thesis by auto
  qed simp_all
next
  case step_write
  from step_write(2,1) show ?thesis
  proof cases
    case (write_exit ws t ws' fn)
    then have "t \<in># in_flight s" by (simp add: flight_defs)
    with assms(1) have "task_ok e m t" by (simp add: inv_task_def)
    with write_exit show ?thesis by (auto simp: task_ok_def)
  qed simp_all
next
  case step_serve
  from step_serve(2,1) show ?thesis by cases simp_all
qed

lemma threads_step:
  assumes "server_step e s s'"
  shows "length (computers s') = length (computers s)" "length (writers s') = length (writers s)"
  using assms
  by (auto elim!: step_elims)

lemma inv_step:
  assumes "server_inv e m addrs s" and "distinct addrs" and "env_ok e k m"
    and "server_step e s s'"
  shows "server_inv e m addrs s'" "outputs e k s' = outputs e k s"
proof -
  from assms(1) have i: "inv_own addrs s" "inv_task e m s" "inv_phase s"
    by (simp_all add: server_inv_def)
  show "server_inv e m addrs s'"
    unfolding server_inv_def
    using own_step [OF i(1) assms(4)] task_step [OF i(2,1) assms(3,4)]
      phase_step [OF i(3,2,1) assms(4)] step_not_down [OF i(2) assms(3,4)] by simp
  show "outputs e k s' = outputs e k s" by (rule outputs_step [OF i(1) assms(2) i(2) assms(3,4)])
qed

lemma inv_run:
  assumes "server_run e s0 s" and "server_inv e m addrs s0" and "distinct addrs" and "env_ok e k m"
  shows "server_inv e m addrs s \<and> outputs e k s = outputs e k s0 \<and>
    length (computers s) = length (computers s0) \<and> length (writers s) = length (writers s0)"
  using assms(1)
proof (induction rule: rtranclp_induct)
  case base
  then show ?case using assms(2) by simp
next
  case (step s s')
  with inv_step [OF _ assms(3,4) step.hyps(2)] threads_step [OF step.hyps(2)] show ?case by simp
qed

lemma inv_reachable:
  assumes "server_run e (new_server addrs n (chunk_size e) hs) s" and "started e m hs"
    and "distinct addrs" and "env_ok e k m"
  shows "server_inv e m addrs s" "outputs e k s = expected e k hs"
    "length (computers s) = n" "length (writers s) = n"
  using inv_run [OF assms(1) new_server_inv(1) [OF assms(2,3)] assms(3,4)]
    new_server_inv(2) [OF assms(2,3), of k] by (simp_all add: new_server_def)

section \<open>Progress\<close>

fun h_weight :: "nat \<Rightarrow> handler \<Rightarrow> nat" where
  "h_weight n (Reading str) = 6 * length (frames n str) + 1"
| "h_weight n (Filling t str) = 6 * length (frames n (drop n str)) + 6"
| "h_weight n (Master str) = length str + 1"
| "h_weight n Closed = 0"

fun c_weight :: "computer \<Rightarrow> nat" where
  "c_weight (C_idle buf) = 1"
| "c_weight (C_busy t buf) = 4"
| "c_weight C_done = 0"

fun w_weight :: "writer \<Rightarrow> nat" where
  "w_weight W_idle = 1"
| "w_weight (W_busy t) = 2"
| "w_weight W_done = 0"

definition weight :: "nat \<Rightarrow> server \<Rightarrow> nat" where
  "weight n s = sum_list (map (h_weight n) (handlers s)) + 4 * length (task_queue (c_worker s)) +
     sum_list (map c_weight (computers s)) + 2 * length (task_queue (w_worker s)) +
     sum_list (map w_weight (writers s)) +
     (case serving s of Joining \<Rightarrow> 2 | Waiting \<Rightarrow> 1 | Finished \<Rightarrow> 0)"

lemma weight_step:
  assumes "server_inv e m addrs s" and "env_ok e k m" and "server_step e s s'"
  shows "weight (chunk_size e) s' < weight (chunk_size e) s"
proof -
  from assms(1) have i: "inv_own addrs s" "inv_task e m s" by (simp_all add: server_inv_def)
  have ptr: "\<forall>t \<in> set (task_queue (c_worker s)). mem_ptr t \<noteq> None"
    "\<forall>t \<in> set (task_queue (w_worker s)). mem_ptr t \<noteq> None"
    using i(1) by (simp_all add: inv_own_def flight_defs)
  have rd: "sock_read (env_lib e) n x = (take n x, drop n x)" for n x
    using assms(2) by (simp add: env_ok_def reads_fully_def)
  from assms(3) show ?thesis
  proof cases
    case step_receive
    from step_receive(2) show ?thesis
    proof cases
      case (recv_header hs str hs' h str' b mp)
      from recv_header rd have h: "h = take header_size str" "str' = drop header_size str"
        "header_size \<le> length str" by auto
      note f = frames_Cons [OF h(3) refl, folded h(1), OF recv_header(5)]
      show ?thesis using recv_header(1,2) by (simp add: weight_def f h(2))
    next
      case (recv_end hs str hs' h str')
      then show ?thesis by (simp add: weight_def)
    next
      case (recv_chunk hs t str hs' b c buf str')
      have g: "chunk_size e \<le> length str" "length (mem s b) = chunk_size e"
        using i(2) recv_chunk(2) by (simp_all add: inv_task_def)
      from recv_chunk(5) g recv_loop_eq [of "sock_read (env_lib e)" 0 "chunk_size e" "mem s b" str]
      have "str' = drop (chunk_size e) str"
        using assms(2) by (simp add: env_ok_def reads_fully_stream)
      with recv_chunk(1,2) show ?thesis by (simp add: weight_def add_task_def)
    qed
  next
    case step_master
    from step_master(2) show ?thesis by cases (auto simp: weight_def rd)
  next
    case step_compute
    from step_compute(2) show ?thesis
    proof cases
      case (compute_get cs buf cs' t cp)
      with get_message [OF compute_get(3,4)] show ?thesis by (simp add: weight_def)
    next
      case (compute_stop cs buf cs' t cp)
      with get_stop [OF compute_stop(3,4) ptr(1)] show ?thesis
        by (simp add: weight_def set_finished_def)
    next
      case (compute_do cs t buf cs' b block' buf')
      then show ?thesis by (simp add: weight_def add_task_def)
    next
      case (compute_exit cs t buf cs' b st)
      with step_not_down [OF i(2) assms(2,3)] show ?thesis by simp
    qed
  next
    case step_write
    from step_write(2) show ?thesis
    proof cases
      case (write_get ws ws' t wp)
      with get_message [OF write_get(3,4)] show ?thesis by (simp add: weight_def)
    next
      case (write_stop ws ws' t wp)
      with get_stop [OF write_stop(3,4) ptr(2)] show ?thesis by (simp add: weight_def)
    next
      case (write_do ws t ws' b fn)
      then show ?thesis by (simp add: weight_def)
    next
      case (write_exit ws t ws' fn)
      with step_not_down [OF i(2) assms(2,3)] show ?thesis by simp
    qed
  next
    case step_serve
    from step_serve(2) show ?thesis by cases (simp_all add: weight_def set_finished_def)
  qed
qed

lemma receive_enabled:
  assumes "inv_task e m s" and "env_ok e k m" and "h \<in> set (handlers s)" and "h \<noteq> Closed"
    and "free_blocks (mem_pool s) \<noteq> [] \<or> h_task h \<noteq> {#}" and "inv_own addrs s"
  shows "\<exists>s'. receive_step e s s' \<or> master_step e s s'"
proof -
  have rd: "sock_read (env_lib e) n x = (take n x, drop n x)" for n x
    using assms(2) by (simp add: env_ok_def reads_fully_def)
  obtain hs hs' where hs: "handlers s = hs @ h # hs'" using assms(3) by (meson split_list)
  have good: "good_handler e m h" using assms(1,3) by (simp add: inv_task_def)
  show ?thesis
  proof (cases h)
    case (Reading str)
    let ?t = "decode_migration (take header_size str)"
    from good Reading have "str = [] \<or> header_size \<le> length str"
      by (auto simp: good_stream_def whole.simps split: if_splits)
    then consider "str = [] \<or> header_size \<le> length str \<and> source ?t = target ?t"
      | "header_size \<le> length str" "source ?t \<noteq> target ?t" by blast
    then show ?thesis
    proof cases
      case 1
      with recv_end [OF hs [unfolded Reading] rd] show ?thesis by (metis length_take min_absorb2
        take_Nil)
    next
      case 2
      from assms(5) Reading obtain b bs where "free_blocks (mem_pool s) = b # bs"
        by (cases "free_blocks (mem_pool s)") auto
      with mp.request_first [of "mem_pool s" b bs] assms(6) obtain mp where
        "get_block (mem_pool s) = Some (b, mp)" by (auto simp: inv_own_def)
      from recv_header [OF hs [unfolded Reading] rd _ 2(2) this] 2(1) show ?thesis by auto
    qed
  next
    case (Filling t str)
    then have "t \<in># in_flight s" using hs by (simp add: flight_defs)
    with assms(1,6) have "mem_ptr t \<noteq> None" "task_ok e m t"
      by (simp_all add: inv_task_def inv_own_def)
    then obtain b c where "mem_ptr t = Some b" "coefficient t = Some c"
      by (auto simp: task_ok_def)
    moreover obtain buf str' where
      "recv_loop (sock_read (env_lib e)) 0 (chunk_size e) str (mem s b) = (buf, str')"
      by fastforce
    ultimately show ?thesis using recv_chunk [OF hs [unfolded Filling]] by blast
  next
    case (Master str)
    with good have "str = [] \<or> header_size \<le> length str" by (cases "length str < 88") auto
    then show ?thesis
    proof
      assume "str = []"
      with master_end [OF hs [unfolded Master], of e] rd show ?thesis by auto
    next
      assume "header_size \<le> length str"
      with master_task [OF hs [unfolded Master] rd] show ?thesis by auto
    qed
  qed (use assms(4) in simp)
qed

lemma get_task_some: "task_queue p = t # ts \<Longrightarrow> \<exists>p'. get_task d p = Some (t, p')"
  by (simp add: get_task_def)

lemma compute_enabled:
  assumes "inv_task e m s" and "inv_own addrs s" and "env_ok e k m"
    and "c \<in> set (computers s)" and "c \<noteq> C_done"
    and "task_queue (c_worker s) \<noteq> [] \<or> seal_flag (c_worker s) \<or> c_task c \<noteq> {#}"
  shows "\<exists>s'. compute_step e s s'"
proof -
  obtain cs cs' where cs: "computers s = cs @ c # cs'" using assms(4) by (meson split_list)
  show ?thesis
  proof (cases c)
    case (C_busy t buf)
    then have t: "t \<in># in_flight s" "t \<in># uncoded s" using cs by (simp_all add: flight_defs)
    with assms(2) obtain b where b: "mem_ptr t = Some b" by (auto simp: inv_own_def)
    from t assms(1) have "task_ok e m t" "coefficient t \<noteq> Some 0"
      "length (mem s b) = chunk_size e" "length buf = chunk_size e"
      using cs C_busy by (auto simp: inv_task_def)
    from compute_ok [OF assms(3) this] compute_do [OF cs [unfolded C_busy] b] show ?thesis by blast
  next
    case (C_idle buf)
    show ?thesis
    proof (cases "task_queue (c_worker s)")
      case Nil
      with assms(6) C_idle have "get_task default_migration (c_worker s) = Some (default_migration, c_worker s)"
        using pool.get_sealed by auto
      from compute_stop [OF cs [unfolded C_idle] this] show ?thesis by auto
    next
      case (Cons t ts)
      from get_task_some [OF this] obtain cp where
        g: "get_task default_migration (c_worker s) = Some (t, cp)" by blast
      have "mem_ptr t \<noteq> None" using assms(2) Cons by (simp add: inv_own_def flight_defs)
      from compute_get [OF cs [unfolded C_idle] g this] show ?thesis by blast
    qed
  qed (use assms(5) in simp)
qed

lemma write_enabled:
  assumes "inv_task e m s" and "inv_own addrs s"
    and "w \<in> set (writers s)" and "w \<noteq> W_done"
    and "task_queue (w_worker s) \<noteq> [] \<or> seal_flag (w_worker s) \<or> w_task w \<noteq> {#}"
  shows "\<exists>s'. write_step e s s'"
proof -
  obtain ws ws' where ws: "writers s = ws @ w # ws'" using assms(3) by (meson split_list)
  show ?thesis
  proof (cases w)
    case (W_busy t)
    then have t: "t \<in># in_flight s" using ws by (simp_all add: flight_defs)
    with assms(2) obtain b where b: "mem_ptr t = Some b" by (auto simp: inv_own_def)
    from t assms(1) obtain fn where "store_fn t = Some fn" "writable e fn"
      by (auto simp: inv_task_def task_ok_def)
    from write_do [OF ws [unfolded W_busy] b this] show ?thesis by blast
  next
    case W_idle
    show ?thesis
    proof (cases "task_queue (w_worker s)")
      case Nil
      with assms(5) W_idle have
        "get_task default_migration (w_worker s) = Some (default_migration, w_worker s)"
        using pool.get_sealed by auto
      from write_stop [OF ws [unfolded W_idle] this] show ?thesis by auto
    next
      case (Cons t ts)
      from get_task_some [OF this] obtain wp where
        g: "get_task default_migration (w_worker s) = Some (t, wp)" by blast
      have "mem_ptr t \<noteq> None" using assms(2) Cons by (simp add: inv_own_def flight_defs)
      from write_get [OF ws [unfolded W_idle] g this] show ?thesis by blast
    qed
  qed (use assms(4) in simp)
qed

lemma sum_empty: "\<forall>x \<in> set xs. f x = {#} \<Longrightarrow> sum_list (map f xs) = {#}"
  by (induction xs) auto

lemma serve_enabled:
  assumes "server_inv e m addrs s" and "env_ok e k m" and "addrs \<noteq> []"
    and "computers s \<noteq> []" and "writers s \<noteq> []" and "serving s \<noteq> Finished"
  shows "\<exists>s'. receive_step e s s' \<or> master_step e s s' \<or> compute_step e s s' \<or> write_step e s s' \<or>
    serve_step s s'"
proof (rule ccontr)
  assume stuck: "\<not> ?thesis"
  from assms(1) have i: "inv_own addrs s" "inv_task e m s" "inv_phase s"
    by (simp_all add: server_inv_def)
  have c: "c = C_done \<or> task_queue (c_worker s) = [] \<and> \<not> seal_flag (c_worker s) \<and> c_task c = {#}"
    if "c \<in> set (computers s)" for c
    using compute_enabled [OF i(2,1) assms(2) that] stuck by blast
  have w: "w = W_done \<or> task_queue (w_worker s) = [] \<and> \<not> seal_flag (w_worker s) \<and> w_task w = {#}"
    if "w \<in> set (writers s)" for w
    using write_enabled [OF i(2,1) that] stuck by blast
  show False
  proof (cases "serving s")
    case Joining
    with i(3) have unsealed: "\<not> seal_flag (c_worker s)" "C_done \<notin> set (computers s)"
      "\<not> seal_flag (w_worker s)" "W_done \<notin> set (writers s)" by (auto simp: inv_phase_def)
    have "task_queue (c_worker s) = []" "\<forall>x \<in> set (computers s). c_task x = {#}"
      using c unsealed(2) assms(4) hd_in_set by metis+
    moreover have "task_queue (w_worker s) = []" "\<forall>x \<in> set (writers s). w_task x = {#}"
      using w unsealed(4) assms(5) hd_in_set by metis+
    ultimately have fl: "in_flight s = filling s" by (simp add: flight_defs sum_empty)
    obtain h where h: "h \<in> set (handlers s)" "h \<noteq> Closed"
      using serve_join [OF Joining] stuck by blast
    have "free_blocks (mem_pool s) \<noteq> [] \<or> (\<exists>h \<in> set (handlers s). h_task h \<noteq> {#})"
    proof (rule ccontr)
      assume "\<not> ?thesis"
      then have "free_blocks (mem_pool s) = []" "filling s = {#}"
        by (simp_all add: filling_def sum_empty)
      with i(1) fl assms(3) show False by (simp add: inv_own_def)
    qed
    then obtain h' where "h' \<in> set (handlers s)" "h' \<noteq> Closed"
      "free_blocks (mem_pool s) \<noteq> [] \<or> h_task h' \<noteq> {#}" using h by fastforce
    from receive_enabled [OF i(2) assms(2) this i(1)] stuck show False by blast
  next
    case Waiting
    with i(3) have "seal_flag (c_worker s)" by (simp add: inv_phase_def)
    with c have cd: "\<forall>c \<in> set (computers s). c = C_done" by blast
    with i(3) assms(4) have "seal_flag (w_worker s)"
      unfolding inv_phase_def by (metis hd_in_set)
    with w have "\<forall>w \<in> set (writers s). w = W_done" by blast
    from serve_finish [OF Waiting cd this] stuck show False by blast
  qed (use assms(6) in simp)
qed

lemma progress:
  assumes "server_inv e m addrs s" and "env_ok e k m" and "addrs \<noteq> []"
    and "computers s \<noteq> []" and "writers s \<noteq> []" and "serving s \<noteq> Finished"
  shows "\<exists>s'. server_step e s s'"
  using serve_enabled [OF assms] assms(1)
  by (auto simp: server_inv_def intro: server_step.intros)

lemma finished_stops:
  assumes "inv_phase s" and "serving s = Finished"
  shows "\<not> server_step e s s'"
proof
  assume "server_step e s s'"
  then show False
    using assms by (auto simp: inv_phase_def serve_step_iff elim!: step_elims)
qed

text \<open>A server is a system that ends; its constants are the environment, \<open>k\<close>, \<open>m\<close> and the buffers.\<close>

type_synonym server_consts = "server_env \<times> nat \<times> nat \<times> nat list"

definition server_ready :: "server_consts \<Rightarrow> server \<Rightarrow> bool" where
  "server_ready = (\<lambda>(e, k, m, addrs) s. server_inv e m addrs s \<and> distinct addrs \<and> env_ok e k m \<and>
     addrs \<noteq> [] \<and> computers s \<noteq> [] \<and> writers s \<noteq> [])"

interpretation srv: measured_system "\<lambda>(e, k, m, addrs). server_step e" server_ready
  "\<lambda>(e, k, m, addrs). weight (chunk_size e)" "\<lambda>_ s. serving s = Finished"
proof (unfold_locales, goal_cases)
  case (1 c s s')
  obtain e k m addrs where c: "c = (e, k, m, addrs)" by (cases c) auto
  with 1 inv_step(1) [of e m addrs s k s'] threads_step [of e s s'] show ?case
    by (auto simp: server_ready_def)
next
  case (2 c s s')
  then show ?case by (auto simp: server_ready_def intro: weight_step split: prod.splits)
next
  case (3 c s)
  obtain e k m addrs where c: "c = (e, k, m, addrs)" by (cases c) auto
  with 3 progress [of e m addrs s k] show ?case by (auto simp: server_ready_def)
next
  case (4 c s s')
  then show ?case
    by (auto simp: server_ready_def server_inv_def dest: finished_stops split: prod.splits)
qed

lemma new_server_ready:
  assumes "started e m hs" and "distinct addrs" and "env_ok e k m" and "addrs \<noteq> []" and "0 < n"
  shows "server_ready (e, k, m, addrs) (new_server addrs n (chunk_size e) hs)"
  using new_server_inv(1) [OF assms(1,2)] assms by (simp add: server_ready_def) (simp add: new_server_def)

text \<open>The blocks a finished server has left unwritten.\<close>

definition unwritten :: "server \<Rightarrow> (string \<times> byte list) multiset" where
  "unwritten s = image_mset (\<lambda>t. (the (store_fn t), mem s (block_of t)))
     (mset (task_queue (w_worker s)))"

lemma finished_outputs:
  assumes "inv_phase s" and "serving s = Finished" and "computers s \<noteq> []" and "writers s \<noteq> []"
  shows "outputs e k s = mset (stored s) + unwritten s"
    "\<forall>t \<in> set (task_queue (w_worker s)). coefficient t \<noteq> Some 0"
proof -
  from assms(1,2) have h: "\<forall>h \<in> set (handlers s). h = Closed"
    "\<forall>c \<in> set (computers s). c = C_done" "\<forall>w \<in> set (writers s). w = W_done"
    by (simp_all add: inv_phase_def)
  with assms(3,4) have "C_done \<in> set (computers s)" "W_done \<in> set (writers s)"
    by (metis hd_in_set)+
  with assms(1) have c: "task_queue (c_worker s) = []"
    and w: "\<forall>t \<in> set (task_queue (w_worker s)). coefficient t \<noteq> Some 0"
    by (auto simp: inv_phase_def)
  have z: "sum_list (map (h_out e k) (handlers s)) = {#}"
    "sum_list (map c_task (computers s)) = {#}" "sum_list (map w_task (writers s)) = {#}"
    by (rule sum_empty; use h in fastforce)+
  show "outputs e k s = mset (stored s) + unwritten s"
    by (simp add: outputs_def unwritten_def uncoded_def coded_def c z)
  show "\<forall>t \<in> set (task_queue (w_worker s)). coefficient t \<noteq> Some 0" by (rule w)
qed

section \<open>A single compute thread\<close>

text \<open>With one compute thread nothing comes into the writers' queue once it is sealed.\<close>

definition inv_single :: "server \<Rightarrow> bool" where
  "inv_single s \<longleftrightarrow> (W_done \<in> set (writers s) \<longrightarrow> task_queue (w_worker s) = [])"

lemma single_step:
  assumes "inv_single s" and "inv_phase s" and "inv_own addrs s" and "length (computers s) = 1"
    and "server_step e s s'"
  shows "inv_single s'"
proof -
  from assms(4) obtain c where c: "computers s = [c]" by (auto simp: length_Suc_conv)
  have ptr: "\<forall>t \<in> set (task_queue (w_worker s)). mem_ptr t \<noteq> None"
    using assms(3) by (simp add: inv_own_def flight_defs)
  have one: "W_done \<in> set (writers s) \<Longrightarrow> c = C_done \<and> (\<forall>h \<in> set (handlers s). h = Closed)"
    using assms(2) c by (auto simp: inv_phase_def)
  from assms(5) show ?thesis
  proof cases
    case step_receive
    from step_receive(2) show ?thesis
      by cases (use assms(1) one in \<open>auto simp: inv_single_def\<close>)
  next
    case step_master
    from step_master(2) show ?thesis
      by cases (use assms(1) in \<open>auto simp: inv_single_def\<close>)
  next
    case step_compute
    from step_compute(2) show ?thesis
      by cases (use assms(1) one c in \<open>auto simp: inv_single_def set_finished_def
        Cons_eq_append_conv\<close>)
  next
    case step_write
    from step_write(2) show ?thesis
    proof cases
      case (write_get ws ws' t wp)
      with assms(1) get_message [OF write_get(3,4)] show ?thesis by (auto simp: inv_single_def)
    next
      case (write_stop ws ws' t wp)
      with get_stop [OF write_stop(3,4) ptr] show ?thesis by (simp add: inv_single_def)
    qed (use assms(1) in \<open>auto simp: inv_single_def\<close>)
  next
    case step_serve
    from step_serve(2) show ?thesis
      by cases (use assms(1) in \<open>auto simp: inv_single_def\<close>)
  qed
qed

lemma single_run:
  assumes "server_run e (new_server addrs 1 (chunk_size e) hs) s" and "started e m hs"
    and "distinct addrs" and "env_ok e k m"
  shows "inv_single s"
  using assms(1)
proof (induction rule: rtranclp_induct)
  case base
  then show ?case by (simp add: inv_single_def new_server_def)
next
  case (step s s')
  from inv_reachable [OF step.hyps(1) assms(2-4)] single_step [OF step.IH _ _ _ step.hyps(2)]
  show ?case by (auto simp: server_inv_def)
qed

section \<open>Streams of whole tasks\<close>

lemma frames_send:
  assumes "fits t" and "length raw = header_size" and "length d = chunk"
    and "source t \<noteq> target t"
  shows "frames chunk (encode_migration raw t @ d @ rest) =
      (decode_migration (encode_migration raw t), d) # frames chunk rest"
    and "whole chunk (encode_migration raw t @ d @ rest) = whole chunk rest"
proof -
  let ?h = "encode_migration raw t"
  have len: "length ?h = header_size" by (rule encode_fields [OF assms(1,2)])
  have "source (decode_migration ?h) \<noteq> target (decode_migration ?h)"
    using decode_encode [OF assms(1,2)] assms(4) by (simp add: received_as_def)
  with len assms(3) frames_Cons [of "?h @ d @ rest" "decode_migration ?h" chunk]
    whole_Cons [of "?h @ d @ rest" "decode_migration ?h" chunk]
  show "frames chunk (?h @ d @ rest) = (decode_migration ?h, d) # frames chunk rest"
    "whole chunk (?h @ d @ rest) = whole chunk rest" by simp_all
qed

lemma frames_signal:
  assumes "fits t" and "length raw = header_size" and "source t = target t"
  shows "frames chunk (encode_migration raw t @ rest) = []"
    and "whole chunk (encode_migration raw t @ rest)"
proof -
  let ?h = "encode_migration raw t"
  have len: "length ?h = header_size" by (rule encode_fields [OF assms(1,2)])
  have s: "source (decode_migration ?h) = target (decode_migration ?h)"
    using decode_encode [OF assms(1,2)] assms(3) by (simp add: received_as_def)
  with len show "frames chunk (?h @ rest) = []" by (intro frames_stop) simp
  from s len show "whole chunk (?h @ rest)" by (subst whole.simps) (simp add: Let_def)
qed

lemma frames_Nil [simp]: "frames chunk [] = []" "whole chunk []"
  by (simp_all add: frames.simps whole.simps)

lemma task_ok_received:
  assumes "received_as t t'" and "task_ok e m t"
  shows "task_ok e m t'"
  using assms by (auto simp: received_as_def task_ok_def)

section \<open>Runs to the end\<close>

lemma new_can_finish:
  assumes "started e m hs" and "distinct addrs" and "env_ok e k m" and "addrs \<noteq> []" and "0 < n"
  shows "\<exists>s. server_run e (new_server addrs n (chunk_size e) hs) s \<and> serving s = Finished"
  using srv.can_finish [OF new_server_ready [OF assms]] by simp

section \<open>An example\<close>

definition demo_task :: "nat \<Rightarrow> migration" where
  "demo_task c = \<lparr>mi_index = Some 0, source = 1, target = 2, mem_ptr = None,
     coefficient = Some c, target_fn = Some ''f'', store_fn = Some ''g''\<rparr>"

definition demo_env :: server_env where
  "demo_env = \<lparr>env_lib = demo_library, chunk_size = 1, gftbl = init_ec_table demo_library 2 3,
     files = [''f'' \<mapsto> [9]], writable = (\<lambda>_. True)\<rparr>"

definition demo_stream :: "nat \<Rightarrow> byte list" where
  "demo_stream c = encode_migration (replicate 88 0) (demo_task c) @ [7] @
     encode_migration (replicate 88 0) default_migration"

text \<open>The task as it is received.\<close>

definition demo_received :: "nat \<Rightarrow> migration" where
  "demo_received c = decode_migration (encode_migration (replicate 88 0) (demo_task c))"

lemma demo_fits: "c < 256 \<Longrightarrow> fits (demo_task c)" "fits default_migration"
  by (simp_all add: fits_def demo_task_def default_migration_def null_free_def)

lemma demo_received_as: "c < 256 \<Longrightarrow> received_as (demo_task c) (demo_received c)"
  unfolding demo_received_def by (rule decode_encode [OF demo_fits(1)]) simp_all

lemma demo_frames:
  assumes "c < 256"
  shows "frames 1 (demo_stream c) = [(demo_received c, [7])]" and "whole 1 (demo_stream c)"
proof -
  have d: "source (demo_task c) \<noteq> target (demo_task c)" by (simp add: demo_task_def)
  have s: "source default_migration = target default_migration"
    by (simp add: default_migration_def)
  note f = frames_send [OF demo_fits(1) [OF assms], of "replicate 88 0" "[7]" 1, OF _ _ d]
    frames_signal [OF demo_fits(2), of "replicate 88 0" 1 "[]", OF _ s]
  show "frames 1 (demo_stream c) = [(demo_received c, [7])]" "whole 1 (demo_stream c)"
    unfolding demo_stream_def demo_received_def using f by simp_all
qed

lemma demo_env_ok: "env_ok demo_env 2 3"
proof -
  have "reads_fully (sock_read demo_library)" by (simp add: reads_fully_def demo_library_def)
  then show ?thesis by (simp add: env_ok_def demo_env_def demo_laws)
qed

lemma demo_chunk [simp]: "chunk_size demo_env = 1"
  by (simp add: demo_env_def)

lemma demo_good:
  assumes "c \<le> 3"
  shows "good_stream demo_env 3 (demo_stream c)"
proof -
  have c: "c < 256" using assms by simp
  have "task_ok demo_env 3 (demo_task c)"
    using assms by (simp add: task_ok_def demo_task_def demo_env_def)
  from task_ok_received [OF demo_received_as [OF c] this] demo_frames [OF c]
  show ?thesis unfolding good_stream_def demo_chunk by simp
qed

lemma demo_started: "c \<le> 3 \<Longrightarrow> started demo_env 3 [Reading (demo_stream c), Master []]"
  by (simp add: started_def demo_good)

lemma demo_expected:
  "expected demo_env k [Reading (demo_stream 0), Master []] = {#(''g'', [7])#}"
proof -
  have "coefficient (demo_received 0) = Some 0" "store_fn (demo_received 0) = Some ''g''"
    using demo_received_as [of 0] by (simp_all add: received_as_def demo_task_def)
  then have "out demo_env k (demo_received 0, [7]) = (''g'', [7])" by (simp add: out_def)
  then show ?thesis using demo_frames(1) [of 0] by (simp add: expected_def)
qed

end
