(* ===== verification/Server_Props.thy ===== *)
theory Server_Props
  imports Server_Run
begin

text \<open>
  The properties of the serving half of a node, and the run in which a parity block is lost.
  Throughout, \<open>hs\<close> are the handler threads of the accepted connections, on streams of complete
  tasks (\<open>started\<close>), and \<open>addrs\<close> the addresses of the chunk buffers.
\<close>

section \<open>Safety\<close>

text \<open>C13. In every state a server can reach, each chunk buffer is either free in the memory pool
  or held by exactly one task in flight (being received, queued for coding, being coded, queued
  for writing, being written).\<close>

theorem buffers_one_owner:
  assumes "started e m hs" and "distinct addrs" and "env_ok e k m"
    and "server_run e (new_server addrs n (chunk_size e) hs) s"
  shows "mset (free_blocks (mem_pool s)) + image_mset block_of (in_flight s) = mset addrs"
  using inv_reachable(1) [OF assms(4,1-3)] by (simp add: server_inv_def inv_own_def)

theorem buffers_one_owner_witness:
  "mset (free_blocks (mem_pool (new_server [64, 128] 2 (chunk_size demo_env)
      [Reading (demo_stream 1), Master []]))) +
    image_mset block_of (in_flight (new_server [64, 128] 2 (chunk_size demo_env)
      [Reading (demo_stream 1), Master []])) = mset [64, 128]"
  by (rule buffers_one_owner [OF demo_started [of 1] _ demo_env_ok, where n = 2])
    (simp_all del: One_nat_def)

text \<open>C8. Nothing is lost, duplicated or altered while a server runs: in every reachable state the
  files written, together with the files that the tasks in flight and the tasks still in the
  sockets stand for, are those that the connections asked for, each with the received chunk or,
  for a parity task, its merge with the local parity block.\<close>

theorem server_conserves_outputs:
  assumes "started e m hs" and "distinct addrs" and "env_ok e k m"
    and "server_run e (new_server addrs n (chunk_size e) hs) s"
  shows "outputs e k s = expected e k hs"
  by (rule inv_reachable(2) [OF assms(4,1-3)])

theorem server_conserves_outputs_witness:
  "outputs demo_env 2 (new_server [64, 128] 2 (chunk_size demo_env)
      [Reading (demo_stream 1), Master []]) =
    expected demo_env 2 [Reading (demo_stream 1), Master []]"
  by (rule server_conserves_outputs [OF demo_started [of 1] _ demo_env_ok, of "[64, 128]" 2])
    simp_all

section \<open>Termination\<close>

text \<open>C9. Every run of a server ends, under every interleaving: the number of its steps is
  bounded, and it can take another step as long as \<open>start_serving\<close> has not returned, so no
  thread waits forever for a buffer or a task. Once \<open>start_serving\<close> has returned, no thread runs.
  The program does not exit on the way.\<close>

theorem server_terminates:
  assumes "started e m hs" and "distinct addrs" and "env_ok e k m" and "addrs \<noteq> []" and "0 < n"
    and "(server_step e ^^ i) (new_server addrs n (chunk_size e) hs) s"
  shows "i \<le> weight (chunk_size e) (new_server addrs n (chunk_size e) hs) \<and>
    (serving s = Finished \<longleftrightarrow> (\<forall>s'. \<not> server_step e s s')) \<and> \<not> down s"
proof -
  note ready = new_server_ready [OF assms(1-5)]
  have run: "((case (e, k, m, addrs) of (e, k, m, addrs) \<Rightarrow> server_step e) ^^ i)
      (new_server addrs n (chunk_size e) hs) s" using assms(6) by simp
  from srv.run_bounded [OF run ready] srv.stuck_iff_final [OF srv.run_bounded(2) [OF run ready]]
  show ?thesis by (auto simp: server_ready_def server_inv_def)
qed

theorem server_terminates_witness:
  "0 \<le> weight (chunk_size demo_env) (new_server [64, 128] 2 (chunk_size demo_env)
      [Reading (demo_stream 1), Master []]) \<and>
    (serving (new_server [64, 128] 2 (chunk_size demo_env) [Reading (demo_stream 1), Master []]) =
      Finished \<longleftrightarrow> (\<forall>s'. \<not> server_step demo_env (new_server [64, 128] 2 (chunk_size demo_env)
        [Reading (demo_stream 1), Master []]) s')) \<and>
    \<not> down (new_server [64, 128] 2 (chunk_size demo_env) [Reading (demo_stream 1), Master []])"
  by (rule server_terminates [OF demo_started [of 1] _ demo_env_ok]) simp_all

section \<open>What has been written at the end\<close>

text \<open>C10. When \<open>start_serving\<close> returns, everything the connections asked for has been written,
  but possibly some parity blocks, whose tasks are still in the writers' queue. A task that
  needs no coding is always written.\<close>

theorem finished_server_wrote:
  assumes "started e m hs" and "distinct addrs" and "env_ok e k m" and "0 < n"
    and "server_run e (new_server addrs n (chunk_size e) hs) s" and "serving s = Finished"
  shows "mset (stored s) + unwritten s = expected e k hs \<and>
    (\<forall>t \<in> set (task_queue (w_worker s)). coefficient t \<noteq> Some 0)"
proof -
  note inv = inv_reachable [OF assms(5,1-3)]
  from inv(1) have "inv_phase s" by (simp add: server_inv_def)
  from finished_outputs [OF this assms(6)] inv(2-4) assms(4) show ?thesis by fastforce
qed

theorem finished_server_wrote_witness:
  "\<exists>s. server_run demo_env (new_server [64, 128] 2 (chunk_size demo_env)
      [Reading (demo_stream 0), Master []]) s \<and>
    mset (stored s) + unwritten s = {#(''g'', [7])#} \<and>
    (\<forall>t \<in> set (task_queue (w_worker s)). coefficient t \<noteq> Some 0)"
proof -
  obtain s where s: "server_run demo_env (new_server [64, 128] 2 (chunk_size demo_env)
      [Reading (demo_stream 0), Master []]) s" "serving s = Finished"
    using new_can_finish [OF demo_started [of 0] _ demo_env_ok, of "[64, 128]" 2] by auto
  from finished_server_wrote [OF demo_started _ demo_env_ok _ this] s(1) show ?thesis
    by (auto simp: demo_expected)
qed

text \<open>C11. With one compute worker (\<open>workers_num = 1\<close>, the default of \<open>TCPServer\<close>) everything
  the connections asked for has been written when \<open>start_serving\<close> returns.\<close>

theorem single_worker_wrote_all:
  assumes "started e m hs" and "distinct addrs" and "env_ok e k m"
    and "server_run e (new_server addrs 1 (chunk_size e) hs) s" and "serving s = Finished"
  shows "mset (stored s) = expected e k hs"
proof -
  note inv = inv_reachable [OF assms(4,1-3)]
  have phase: "inv_phase s" using inv(1) by (simp add: server_inv_def)
  have "W_done \<in> set (writers s)"
    using phase assms(5) inv(4) by (cases "writers s") (simp_all add: inv_phase_def)
  with single_run [OF assms(4,1-3)] have "unwritten s = {#}"
    by (simp add: inv_single_def unwritten_def)
  with finished_outputs(1) [OF phase assms(5), of e k] inv(2-4) show ?thesis by fastforce
qed

theorem single_worker_wrote_all_witness:
  "\<exists>s. server_run demo_env (new_server [64, 128] 1 (chunk_size demo_env)
      [Reading (demo_stream 0), Master []]) s \<and> serving s = Finished \<and>
    mset (stored s) = {#(''g'', [7])#}"
proof -
  obtain s where s: "server_run demo_env (new_server [64, 128] 1 (chunk_size demo_env)
      [Reading (demo_stream 0), Master []]) s" "serving s = Finished"
    using new_can_finish [OF demo_started [of 0] _ demo_env_ok, of "[64, 128]" 1] by auto
  from single_worker_wrote_all [OF demo_started _ demo_env_ok this] s show ?thesis
    by (auto simp: demo_expected)
qed

section \<open>The lost parity block\<close>

text \<open>
  The schedule: the first compute thread takes the only task; the second finds the sealed queue
  empty, seals the writers' queue and ends; the writers end; only then the first compute thread
  hands over the coded block.
\<close>

lemma hand_over_late:
  assumes "computers s8 = [C_busy t' z, C_done]" and "writers s8 = [W_done, W_done]"
    and "task_queue (c_worker s8) = []" and "seal_flag (c_worker s8)" and "serving s8 = Waiting"
    and "\<not> down s8" and "stored s8 = []" and "mem_ptr t' = Some b" and "env_ok e k m"
    and "task_ok e m t'" and "coefficient t' \<noteq> Some 0" and "length (mem s8 b) = chunk_size e"
    and "length z = chunk_size e"
  shows "\<exists>s. server_run e s8 s \<and> serving s = Finished \<and> stored s = []"
proof -
  from compute_ok [OF assms(9-13)] obtain block' buf' where
    cc: "compute_chunk (env_lib e) (chunk_size e) (gftbl e) (files e) t' (mem s8 b) z =
      Some (Inr (block', buf'))" by blast
  define s9 where "s9 = s8\<lparr>mem := (mem s8)(b := block'), w_worker := add_task t' (w_worker s8),
    computers := [C_idle buf', C_done]\<rparr>"
  have r9: "server_step e s8 s9"
    unfolding s9_def using compute_do [of s8 "[]" t' z "[C_done]" b e, OF _ assms(8) cc] assms(1,6)
    by (auto intro!: step_compute)
  define s10 where "s10 = s9\<lparr>w_worker := set_finished (w_worker s9), computers := [C_done, C_done]\<rparr>"
  have r10: "server_step e s9 s10"
    unfolding s10_def
    using compute_stop [of s9 "[]" buf' "[C_done]" default_migration "c_worker s9" e] assms(3,4,6)
    by (auto intro!: step_compute simp: get_task_def s9_def)
  define s11 where "s11 = s10\<lparr>serving := Finished\<rparr>"
  have r11: "server_step e s10 s11"
    unfolding s11_def using assms(2,5,6) by (auto intro!: step_serve serve_finish simp: s9_def s10_def)
  have "server_run e s8 s11"
    using r9 r10 r11 by (meson converse_rtranclp_into_rtranclp rtranclp.rtrancl_refl)
  moreover have "serving s11 = Finished" "stored s11 = []"
    using assms(7) by (simp_all add: s9_def s10_def s11_def)
  ultimately show ?thesis by blast
qed

lemma seal_early:
  assumes "c_worker s4 = \<lparr>thread_num = 2, task_queue = [t'], seal_flag = True\<rparr>"
    and "computers s4 = [C_idle z, C_idle z]" and "w_worker s4 = new_pool 2"
    and "writers s4 = [W_idle, W_idle]" and "\<not> down s4" and "mem_ptr t' \<noteq> None"
  shows "\<exists>s8. server_run e s4 s8 \<and> computers s8 = [C_busy t' z, C_done] \<and>
    writers s8 = [W_done, W_done] \<and> task_queue (c_worker s8) = [] \<and> seal_flag (c_worker s8) \<and>
    serving s8 = serving s4 \<and> \<not> down s8 \<and> stored s8 = stored s4 \<and> mem s8 = mem s4"
proof -
  define s5 where "s5 = s4\<lparr>c_worker := (c_worker s4)\<lparr>task_queue := []\<rparr>,
    computers := [C_busy t' z, C_idle z]\<rparr>"
  have r5: "server_step e s4 s5"
    unfolding s5_def using compute_get [of s4 "[]" z "[C_idle z]" t' _ e] assms
    by (auto intro!: step_compute simp: get_task_def)
  define s6 where "s6 = s5\<lparr>c_worker := c_worker s5, w_worker := set_finished (w_worker s5),
    computers := [C_busy t' z, C_done]\<rparr>"
  have r6: "server_step e s5 s6"
    unfolding s6_def
    using compute_stop [of s5 "[C_busy t' z]" z "[]" default_migration "c_worker s5" e] assms
    by (auto intro!: step_compute simp: get_task_def s5_def)
  have v6: "writers s6 = [W_idle, W_idle]" "\<not> down s6"
    "get_task default_migration (w_worker s6) = Some (default_migration, w_worker s6)"
    using assms by (simp_all add: s5_def s6_def pool_defs)
  define s7 where "s7 = s6\<lparr>w_worker := w_worker s6, writers := [W_done, W_idle]\<rparr>"
  have r7: "server_step e s6 s7"
    using write_stop [of s6 "[]" "[W_idle]" default_migration "w_worker s6" e] v6
    by (auto intro!: step_write simp: s7_def)
  have v7: "writers s7 = [W_done, W_idle]" "\<not> down s7"
    "get_task default_migration (w_worker s7) = Some (default_migration, w_worker s7)"
    using v6 by (simp_all add: s7_def)
  define s8 where "s8 = s7\<lparr>w_worker := w_worker s7, writers := [W_done, W_done]\<rparr>"
  have r8: "server_step e s7 s8"
    using write_stop [of s7 "[W_done]" "[]" default_migration "w_worker s7" e] v7
    by (auto intro!: step_write simp: s8_def)
  have "server_run e s4 s8"
    using r5 r6 r7 r8 by (meson converse_rtranclp_into_rtranclp rtranclp.rtrancl_refl)
  moreover have "computers s8 = [C_busy t' z, C_done]" "writers s8 = [W_done, W_done]"
    "task_queue (c_worker s8) = []" "seal_flag (c_worker s8)" "serving s8 = serving s4"
    "\<not> down s8" "stored s8 = stored s4" "mem s8 = mem s4"
    using assms by (simp_all add: s5_def s6_def s7_def s8_def)
  ultimately show ?thesis by blast
qed

text \<open>From the start until the compute workers' queue is sealed.\<close>

lemma receive_one:
  assumes "started e m [Reading str]" and "distinct addrs" and "addrs \<noteq> []" and "env_ok e k m"
    and "frames (chunk_size e) str = [(t, d)]" and "coefficient t \<noteq> Some 0"
    and z: "z = replicate (chunk_size e) (0 :: byte)"
  shows "\<exists>s4 b. server_run e (new_server addrs 2 (chunk_size e) [Reading str]) s4 \<and>
    c_worker s4 = \<lparr>thread_num = 2, task_queue = [t\<lparr>mem_ptr := Some b\<rparr>], seal_flag = True\<rparr> \<and>
    computers s4 = [C_idle z, C_idle z] \<and> w_worker s4 = new_pool 2 \<and>
    writers s4 = [W_idle, W_idle] \<and> \<not> down s4 \<and> serving s4 = Waiting \<and> stored s4 = [] \<and>
    length (mem s4 b) = chunk_size e \<and> task_ok e m t"
proof -
  let ?n = "chunk_size e"
  define s0 where "s0 = new_server addrs 2 ?n [Reading str]"
  have init: "handlers s0 = [Reading str]" "c_worker s0 = new_pool 2" "w_worker s0 = new_pool 2"
    "computers s0 = [C_idle z, C_idle z]" "writers s0 = [W_idle, W_idle]" "serving s0 = Joining"
    "mem_pool s0 = new_memory_pool addrs ?n" "mem s0 = (\<lambda>_. z)" "stored s0 = []" "\<not> down s0"
    by (simp_all add: s0_def new_server_def z numeral_2_eq_2)
  have rd: "sock_read (env_lib e) i x = (take i x, drop i x)" for i x
    using assms(4) by (simp add: env_ok_def reads_fully_def)
  have g: "good_stream e m str" using assms(1) by (simp add: started_def)
  have h: "header_size \<le> length str" "t = decode_migration (take header_size str)"
    "source t \<noteq> target t"
    using assms(5) by (auto simp: frames.simps [of ?n str] Let_def split: if_splits)
  define str' where "str' = drop header_size str"
  have f: "frames ?n (drop ?n str') = []" "whole ?n (drop ?n str')" "?n \<le> length str'"
    using assms(5) g whole_Cons [OF h, of ?n]
    by (simp_all add: frames_Cons [OF h] good_stream_def str'_def)
  obtain c where c: "coefficient t = Some c" "c \<noteq> 0"
    using g assms(5,6) by (auto simp: good_stream_def task_ok_def)
  obtain b mp where mp: "get_block (mem_pool s0) = Some (b, mp)"
    using mp.request_first [OF new_pool_wf(1) [OF assms(2)], of _ "hd addrs" "tl addrs"]
      new_pool_wf(2) [OF assms(2)] assms(3) unfolding init by force
  define t' where "t' = t\<lparr>mem_ptr := Some b\<rparr>"
  have t': "mem_ptr t' = Some b" "coefficient t' = Some c" "task_ok e m t'"
    using c g assms(5) by (auto simp: t'_def good_stream_def task_ok_def)
  \<comment> \<open>The handler receives the task and ends; the queue is sealed.\<close>
  define s1 where "s1 = s0\<lparr>mem_pool := mp, handlers := [Filling t' str']\<rparr>"
  have r1: "server_step e s0 s1"
    unfolding s1_def using recv_header [of s0 "[]" str "[]" e, OF _ rd _ _ mp] init h
    by (auto intro!: step_receive simp: t'_def str'_def)
  define s2 where "s2 = s1\<lparr>mem := (mem s1)(b := take ?n str'), handlers := [Reading (drop ?n str')],
    c_worker := add_task t' (c_worker s1), w_worker := w_worker s1\<rparr>"
  have v1: "handlers s1 = [Filling t' str']" "\<not> down s1" "mem s1 b = z"
    by (simp_all add: s1_def init)
  have "recv_loop (sock_read (env_lib e)) 0 ?n str' (mem s1 b) = (take ?n str', drop ?n str')"
    using recv_loop_eq [of "sock_read (env_lib e)" 0 ?n z str'] assms(4) f(3)
    by (simp add: v1 z env_ok_def reads_fully_stream overwrite_full)
  from recv_chunk [of s1 "[]" t' str' "[]" b c e, OF _ t'(1,2) this] c(2)
  have r2: "server_step e s1 s2"
    by (auto intro!: step_receive simp: v1 s2_def)
  define s3 where "s3 = s2\<lparr>handlers := [Closed]\<rparr>"
  have "drop ?n str' = [] \<or> header_size \<le> length (drop ?n str') \<and>
      source (decode_migration (take header_size (drop ?n str'))) =
        target (decode_migration (take header_size (drop ?n str')))"
    using f(1,2) by (auto simp: frames.simps [of ?n "drop ?n str'"]
      whole.simps [of ?n "drop ?n str'"] Let_def split: if_splits)
  then have r3: "server_step e s2 s3"
    unfolding s3_def using recv_end [of s2 "[]" "drop ?n str'" "[]" e, OF _ rd] init
    by (auto intro!: step_receive simp: s1_def s2_def)
  define s4 where "s4 = s3\<lparr>c_worker := set_finished (c_worker s3), serving := Waiting\<rparr>"
  have v3: "handlers s3 = [Closed]" "serving s3 = Joining" "\<not> down s3"
    using init by (simp_all add: s1_def s2_def s3_def)
  have r4: "server_step e s3 s4"
    using serve_join [of s3] init by (auto intro!: step_serve simp: v3 s4_def)
  have "server_run e s0 s4"
    using r1 r2 r3 r4 by (meson converse_rtranclp_into_rtranclp rtranclp.rtrancl_refl)
  moreover have "c_worker s4 = \<lparr>thread_num = 2, task_queue = [t'], seal_flag = True\<rparr>"
    "computers s4 = [C_idle z, C_idle z]" "w_worker s4 = new_pool 2" "writers s4 = [W_idle, W_idle]"
    "stored s4 = []" "\<not> down s4" "length (mem s4 b) = ?n" "serving s4 = Waiting"
    using init f(3) by (simp_all add: s1_def s2_def s3_def s4_def pool_defs)
  moreover have "task_ok e m t" using g assms(5) by (simp add: good_stream_def)
  ultimately show ?thesis unfolding s0_def t'_def by blast
qed

text \<open>C12. With two compute threads a parity block can be lost: for every connection that asks for
  one parity block, there is a run in which \<open>start_serving\<close> returns normally and nothing has been
  written, because the compute thread that ends first has sealed the writers' queue.\<close>

theorem parity_block_lost:
  assumes "started e m [Reading str]" and "distinct addrs" and "addrs \<noteq> []" and "env_ok e k m"
    and "frames (chunk_size e) str = [(t, d)]" and "coefficient t \<noteq> Some 0"
  shows "\<exists>s. server_run e (new_server addrs 2 (chunk_size e) [Reading str]) s \<and>
    serving s = Finished \<and> \<not> down s \<and> stored s = [] \<and>
    unwritten s = expected e k [Reading str]"
proof -
  let ?z = "replicate (chunk_size e) (0 :: byte)"
  from receive_one [OF assms refl] obtain s4 b where
    s4: "server_run e (new_server addrs 2 (chunk_size e) [Reading str]) s4"
      "c_worker s4 = \<lparr>thread_num = 2, task_queue = [t\<lparr>mem_ptr := Some b\<rparr>], seal_flag = True\<rparr>"
      "computers s4 = [C_idle ?z, C_idle ?z]" "w_worker s4 = new_pool 2"
      "writers s4 = [W_idle, W_idle]" "\<not> down s4" "serving s4 = Waiting" "stored s4 = []"
      "length (mem s4 b) = chunk_size e" "task_ok e m t" by blast
  from seal_early [OF s4(2-6)] obtain s8 where
    s8: "server_run e s4 s8" "computers s8 = [C_busy (t\<lparr>mem_ptr := Some b\<rparr>) ?z, C_done]"
      "writers s8 = [W_done, W_done]" "task_queue (c_worker s8) = []" "seal_flag (c_worker s8)"
      "serving s8 = Waiting" "\<not> down s8" "stored s8 = []" "mem s8 = mem s4"
    using s4(7,8) by auto
  have t: "task_ok e m (t\<lparr>mem_ptr := Some b\<rparr>)" using s4(10) by (simp add: task_ok_def)
  from hand_over_late [OF s8(2-8) _ assms(4) t] obtain s where
    s: "server_run e s8 s" "serving s = Finished" "stored s = []"
    using assms(6) s4(9) s8(9) by auto
  from s4(1) s8(1) s(1) have r: "server_run e (new_server addrs 2 (chunk_size e) [Reading str]) s"
    by (meson rtranclp_trans)
  note inv = inv_reachable [OF r assms(1,2,4)]
  have c: "computers s \<noteq> []" "writers s \<noteq> []" using inv(3,4) by auto
  from inv(1) have p: "inv_phase s" "\<not> down s" by (simp_all add: server_inv_def)
  from finished_outputs(1) [OF p(1) s(2) c, of e k] inv(2) s(3)
  have "unwritten s = expected e k [Reading str]" by simp
  with r s p(2) show ?thesis by blast
qed

theorem parity_block_lost_witness:
  "\<exists>s. server_run demo_env (new_server [64, 128] 2 (chunk_size demo_env) [Reading (demo_stream 1)]) s \<and>
    serving s = Finished \<and> \<not> down s \<and> stored s = [] \<and>
    unwritten s = expected demo_env 2 [Reading (demo_stream 1)]"
proof (rule parity_block_lost [OF _ _ _ demo_env_ok])
  show "started demo_env 3 [Reading (demo_stream 1)]" by (simp add: started_def demo_good)
  show "frames (chunk_size demo_env) (demo_stream 1) = [(demo_received 1, [7])]"
    using demo_frames(1) [of 1] by simp
  show "coefficient (demo_received 1) \<noteq> Some 0"
    using demo_received_as [of 1] by (simp add: received_as_def demo_task_def)
qed simp_all

end
