(* ===== verification/Streams.thy ===== *)
theory Streams
  imports Bytes
begin

text \<open>
  What the two ends of a connection rely on: the locale \<open>header_codec\<close> is the contract between
  the client that writes headers and the server that reads them back, and its lemmas say what
  a reader finds in a stream of several headers. It is interpreted on the object representation
  of \<open>MigrationInfo\<close>.
\<close>

text \<open>The headers a reader takes from a stream of headers only; a cut-off rest is ignored.\<close>

function chop :: "nat \<Rightarrow> ('b list \<Rightarrow> 't) \<Rightarrow> 'b list \<Rightarrow> 't list" where
  "chop n dec str =
     (if n = 0 \<or> length str < n then [] else dec (take n str) # chop n dec (drop n str))"
  by auto
termination
  by (relation "measure (\<lambda>(n, dec, str). length str)") auto

declare chop.simps [simp del]

lemma chop_short: "length str < n \<Longrightarrow> chop n dec str = []"
  by (simp add: chop.simps)

locale header_codec =
  fixes enc :: "'r \<Rightarrow> 't \<Rightarrow> 'b list"
    and dec :: "'b list \<Rightarrow> 't"
    and size :: nat
    and raw_ok :: "'r \<Rightarrow> bool"
    and ok :: "'t \<Rightarrow> bool"
    and agree :: "'t \<Rightarrow> 't \<Rightarrow> bool"
  assumes size_pos: "0 < size"
    and enc_length: "ok t \<Longrightarrow> raw_ok r \<Longrightarrow> length (enc r t) = size"
    and dec_enc: "ok t \<Longrightarrow> raw_ok r \<Longrightarrow> agree t (dec (enc r t))"
    and dec_ok: "ok (dec bs)"
    and agree_trans: "agree t u \<Longrightarrow> agree u v \<Longrightarrow> agree t v"
begin

lemma chop_Cons:
  "ok t \<Longrightarrow> raw_ok r \<Longrightarrow> chop size dec (enc r t @ rest) = dec (enc r t) # chop size dec rest"
  using size_pos by (subst chop.simps) (simp add: enc_length)

lemma chop_concat:
  "\<forall>t \<in> set ts. ok t \<and> raw_ok (r t) \<Longrightarrow>
    chop size dec (concat (map (\<lambda>t. enc (r t) t) ts)) = map (\<lambda>t. dec (enc (r t) t)) ts"
  by (induction ts) (simp_all add: chop_Cons chop_short size_pos)

text \<open>A header that is read, sent on and read again still agrees with the first.\<close>

lemma relay:
  assumes "ok t" and "raw_ok r" and "raw_ok r'"
  shows "agree t (dec (enc r' (dec (enc r t))))"
  using agree_trans [OF dec_enc [OF assms(1,2)] dec_enc [OF dec_ok assms(3)]] .

end

interpretation wire: header_codec encode_migration decode_migration header_size
  "\<lambda>raw. length raw = header_size" fits received_as
  by unfold_locales (auto intro: encode_fields(1) decode_encode decode_fits received_as_trans)

end
