(* ===== verification/Server_Queue.thy ===== *)
theory Server_Queue
  imports Server_Run Streams
begin

text \<open>
  The server's own queue: the tasks a data node gets from the master. Its handler is the only
  producer, so the queue and the headers still in the master's socket are together always the
  headers the master sent. Also what \<open>wait_for_connection\<close> makes of the accepted connections.
\<close>

abbreviation headers :: "byte list \<Rightarrow> migration list" where
  "headers \<equiv> chop header_size decode_migration"

fun h_headers :: "handler \<Rightarrow> migration list" where
  "h_headers (Master str) = headers str"
| "h_headers h = []"

fun is_master :: "handler \<Rightarrow> bool" where
  "is_master (Master str) = True"
| "is_master h = False"

definition own_total :: "server \<Rightarrow> migration list" where
  "own_total s = task_queue (own_pool s) @ concat (map h_headers (handlers s))"

definition inv_queue :: "server \<Rightarrow> bool" where
  "inv_queue s \<longleftrightarrow>
     length (filter is_master (handlers s)) = (if seal_flag (own_pool s) then 0 else 1)"

lemma no_headers: "filter is_master hs = [] \<Longrightarrow> concat (map h_headers hs) = []"
proof (induction hs)
  case (Cons h hs)
  then show ?case by (cases h) simp_all
qed simp

lemma headers_of_masters: "concat (map h_headers hs) = concat (map h_headers (filter is_master hs))"
proof (induction hs)
  case (Cons h hs)
  then show ?case by (cases h) simp_all
qed simp

lemma queue_step:
  assumes "inv_queue s" and "inv_task e m s" and "env_ok e k m" and "server_step e s s'"
  shows "inv_queue s' \<and> own_total s' = own_total s"
  using assms(4)
proof cases
  case step_receive
  from step_receive(2) show ?thesis
    by cases (use assms(1) in \<open>auto simp: inv_queue_def own_total_def\<close>)
next
  case step_master
  have rd: "sock_read (env_lib e) n x = (take n x, drop n x)" for n x
    using assms(3) by (simp add: env_ok_def reads_fully_def)
  from step_master(2) show ?thesis
  proof cases
    case (master_task hs str hs' h str')
    then have h: "h = take header_size str" "str' = drop header_size str" "header_size \<le> length str"
      by (auto simp: rd)
    then have "headers str = decode_migration h # headers str'" by (subst chop.simps) simp
    have "concat (map h_headers hs) = []"
      using assms(1) master_task(2) by (intro no_headers) (simp add: inv_queue_def split: if_splits)
    note c = this
    from \<open>headers str = _\<close> show ?thesis
      using assms(1) master_task(1,2)
      by (simp add: inv_queue_def own_total_def add_task_def c split: if_splits)
  next
    case (master_end hs str hs' str')
    then have "headers str = []" by (simp add: rd chop_short)
    moreover have "concat (map h_headers hs) = []"
      using assms(1) master_end(2) by (intro no_headers) (simp add: inv_queue_def split: if_splits)
    ultimately show ?thesis
      using assms(1) master_end(1,2)
      by (simp add: inv_queue_def own_total_def set_finished_def split: if_splits)
  qed
next
  case step_compute
  from step_compute(2) show ?thesis
    by cases (use assms(1) in \<open>auto simp: inv_queue_def own_total_def\<close>)
next
  case step_write
  from step_write(2) show ?thesis
    by cases (use assms(1) in \<open>auto simp: inv_queue_def own_total_def\<close>)
next
  case step_serve
  from step_serve(2) show ?thesis
    by cases (use assms(1) in \<open>auto simp: inv_queue_def own_total_def\<close>)
qed

section \<open>Connections\<close>

text \<open>The handler of a connection whose first two bytes are the client's index \<open>i\<close>.\<close>

lemma wait_for_connections:
  assumes "reads_fully (sock_read lib)" and "\<forall>i \<in> set is. i < 65536"
  shows "wait_for_connection lib (length is) (map (\<lambda>i. Some (le_bytes 2 i @ str i)) is) =
    Some (map (\<lambda>i. if i \<noteq> 0 then Reading (str i) else Master (str i)) is)"
  using assms(2)
proof (induction "is")
  case (Cons i "is")
  have "le_val (le_bytes 2 i) = i" using Cons.prems by (simp add: le_val_bytes)
  with Cons assms(1) show ?case by (simp add: reads_fully_def)
qed simp

end
