(* ===== verification/Cluster.thy ===== *)
theory Cluster
  imports Node_Props Server_Props Server_Queue
begin

text \<open>
  The whole cluster: the master's client, the data nodes that relay the master's tasks to their
  own clients, and the servers that receive, code and write the blocks. The lemmas follow a
  task from the master's queue to the file it is written to.

  Every node has its own \<open>test/stdfile\<close> (\<open>std\<close>) and its own memory for the headers it sends
  (\<open>raw\<close>).
\<close>

section \<open>Parameters\<close>

definition node_env :: "nat \<Rightarrow> (nat \<Rightarrow> migration \<Rightarrow> byte list) \<Rightarrow> (nat \<Rightarrow> byte list) \<Rightarrow> nat \<Rightarrow> client_env"
  where "node_env chunk raw std i = \<lparr>c_chunk = chunk, c_files = [''test/stdfile'' \<mapsto> std i],
     conn_up = (\<lambda>_. True), raw_mem = raw i\<rparr>"

text \<open>What the server of node \<open>x\<close> relies on: its tables, its file and its directories.\<close>

definition node_server_ok :: "server_env \<Rightarrow> nat \<Rightarrow> nat \<Rightarrow> nat \<Rightarrow> nat \<Rightarrow> (nat \<Rightarrow> byte list) \<Rightarrow> bool" where
  "node_server_ok e k m n x std \<longleftrightarrow> env_ok e k m \<and> files e ''test/stdfile'' = Some (std x) \<and>
     (\<forall>d \<in> set (init_dirs x n). \<forall>i. writable e (d @ ''/f_'' @ dec i))"

definition memory_ok :: "nat \<Rightarrow> (nat \<Rightarrow> migration \<Rightarrow> byte list) \<Rightarrow> (nat \<Rightarrow> byte list) \<Rightarrow> bool" where
  "memory_ok chunk raw std \<longleftrightarrow> (\<forall>i t. length (raw i t) = header_size) \<and> (\<forall>i. chunk \<le> length (std i))"

text \<open>The file that a task stands for, with its content, and the files of a node.\<close>

definition delivered :: "server_env \<Rightarrow> nat \<Rightarrow> (nat \<Rightarrow> byte list) \<Rightarrow> nat \<Rightarrow> migration \<Rightarrow> string \<times> byte list"
  where "delivered e k std x t = (the (store_fn t),
     let d = take (chunk_size e) (std (nat (source t)))
     in if coefficient t = Some 0 then d
       else merge_blocks (env_lib e) (the (coefficient t)) k d (take (chunk_size e) (std x)))"

definition deliveries ::
  "server_env \<Rightarrow> nat \<Rightarrow> (nat \<Rightarrow> byte list) \<Rightarrow> nat \<Rightarrow> migration list \<Rightarrow> (string \<times> byte list) multiset" where
  "deliveries e k std x ts =
     image_mset (delivered e k std x) (filter_mset (\<lambda>t. target t = int x) (mset ts))"

text \<open>A task as its source node gets it from the master.\<close>

definition relayed :: "(nat \<Rightarrow> migration \<Rightarrow> byte list) \<Rightarrow> nat \<Rightarrow> migration list \<Rightarrow> migration list" where
  "relayed raw y ts = map (\<lambda>t. decode_migration (encode_migration (raw 0 t) t))
     (filter (\<lambda>t. source t = int y) ts)"

section \<open>The streams\<close>

lemma default_fits: "fits default_migration"
  by (simp add: fits_def default_migration_def)

lemma stop_is_stop: "length r = header_size \<Longrightarrow>
    is_stop (decode_migration (encode_migration r default_migration))"
  using decode_encode [OF default_fits, of r] by (simp add: received_as_def default_migration_def)

text \<open>What a server reads from a node's client.\<close>

lemma frames_concat:
  assumes "\<forall>t \<in> set ts. fits t \<and> source t \<noteq> target t" and "\<And>t. length (r t) = header_size"
    and "length d = chunk"
  shows "frames chunk (concat (map (\<lambda>t. encode_migration (r t) t @ d) ts) @
      encode_migration (r default_migration) default_migration) =
      map (\<lambda>t. (decode_migration (encode_migration (r t) t), d)) ts"
    and "whole chunk (concat (map (\<lambda>t. encode_migration (r t) t @ d) ts) @
      encode_migration (r default_migration) default_migration)"
proof -
  have stop: "frames chunk (encode_migration (r default_migration) default_migration) = []"
    "whole chunk (encode_migration (r default_migration) default_migration)"
    using frames_signal [where chunk = chunk and rest = "[]",
      OF default_fits assms(2) [of default_migration]]
    by (simp_all add: default_migration_def)
  show "frames chunk (concat (map (\<lambda>t. encode_migration (r t) t @ d) ts) @
      encode_migration (r default_migration) default_migration) =
      map (\<lambda>t. (decode_migration (encode_migration (r t) t), d)) ts"
    "whole chunk (concat (map (\<lambda>t. encode_migration (r t) t @ d) ts) @
      encode_migration (r default_migration) default_migration)"
    using assms(1) by (induction ts) (simp_all add: stop frames_send [OF _ assms(2,3)])
qed

text \<open>What a node reads from the master.\<close>

lemma headers_concat:
  assumes "\<forall>t \<in> set ts. fits t" and "\<And>t. length (r t) = header_size"
  shows "headers (concat (map (\<lambda>t. encode_migration (r t) t) ts) @
      encode_migration (r default_migration) default_migration) =
    map (\<lambda>t. decode_migration (encode_migration (r t) t)) ts @
      [decode_migration (encode_migration (r default_migration) default_migration)]"
  using wire.chop_concat [of "ts @ [default_migration]" r] assms default_fits by simp

lemma headers_length:
  assumes "\<forall>t \<in> set ts. fits t" and "\<And>t. length (r t) = header_size"
  shows "length (concat (map (\<lambda>t. encode_migration (r t) t) ts) @
      encode_migration (r default_migration) default_migration) mod header_size = 0"
proof -
  have "length (encode_migration (r t) t) = header_size" if "fits t" for t
    by (rule encode_fields(1) [OF that assms(2)])
  then have "length (concat (map (\<lambda>t. encode_migration (r t) t) ts)) = header_size * length ts"
    using assms(1) by (induction ts) auto
  then show ?thesis using encode_fields(1) [OF default_fits assms(2)] by simp
qed

text \<open>A relayed task still is what the master prepared.\<close>

lemma relayed_task:
  assumes "u \<in> set (relayed raw y ts)" and "\<forall>t \<in> set ts. \<exists>i. prepared n m i t"
    and "memory_ok chunk raw std"
  shows "\<exists>t i. t \<in> set ts \<and> source t = int y \<and> prepared n m i t \<and> received_as t u \<and> fits u"
proof -
  from assms(1) obtain t where t: "t \<in> set ts" "source t = int y"
    "u = decode_migration (encode_migration (raw 0 t) t)" by (auto simp: relayed_def)
  from assms(2) t(1) obtain i where "prepared n m i t" by blast
  moreover from this assms(3) have "received_as t u"
    unfolding t(3) by (intro decode_encode) (simp_all add: prepared_def memory_ok_def)
  ultimately show ?thesis using t decode_fits by blast
qed

lemma proper_int16: "proper_task n m t \<Longrightarrow> n < 32768 \<Longrightarrow>
    from_int16 (source t) = nat (source t) \<and> from_int16 (target t) = nat (target t)"
  by (simp add: proper_task_def from_int16_def)

lemma received_proper: "proper_task n m t \<Longrightarrow> received_as t u \<Longrightarrow> proper_task n m u"
  by (auto simp: proper_task_def received_as_def)

section \<open>The master and the relays\<close>

text \<open>A client of node \<open>i\<close> that is given the tasks \<open>us\<close>, and the bytes it writes to node \<open>j\<close>.\<close>

definition node_client :: "nat \<Rightarrow> nat \<Rightarrow> (nat \<Rightarrow> address) \<Rightarrow> migration list \<Rightarrow> client" where
  "node_client n i addr us = (new_client i (map addr (filter (\<lambda>j. j \<noteq> i) [1..<Suc n])) 1)\<lparr>tasks :=
     \<lparr>thread_num = 1, task_queue = us, seal_flag = True\<rparr>\<rparr>"

lemma node_client_ready: "n < 65535 \<Longrightarrow> i \<le> n \<Longrightarrow> ready_client i n (node_client n i addr us)"
  using new_client_ready [of n i addr 1] by (simp add: node_client_def ready_tasks)

lemma node_client_sends:
  assumes "n < 1000" and "i \<le> n" and "\<forall>t \<in> set us. proper_task n m t"
    and "i \<noteq> 0 \<longrightarrow> (\<forall>t \<in> set us. source t = int i)"
  shows "\<exists>c. start_client (node_env chunk raw std i) (node_client n i addr us) = Some (Inr c) \<and>
    (\<forall>j. 1 \<le> j \<and> j \<le> n \<and> j \<noteq> i \<longrightarrow> outgoing c j = le_bytes 2 i @
      concat (map (\<lambda>t. encode_migration (raw i t) t @ (if i \<noteq> 0 then take chunk (std i) else []))
        (filter (\<lambda>t. (if i \<noteq> 0 then target t else source t) = int j) us)) @
      encode_migration (raw i default_migration) default_migration)"
proof -
  let ?c = "node_client n i addr us" and ?e = "node_env chunk raw std i"
  have r: "ready_client i n ?c" using assms(1,2) by (intro node_client_ready) simp_all
  have q: "seal_flag (tasks ?c)" "task_queue (tasks ?c) = us" by (simp_all add: node_client_def)
  have ni: "node_index ?c = i" using r by (simp add: ready_client_def)
  have h: "host_of ?c t = nat (if i \<noteq> 0 then target t else source t)" if "t \<in> set us" for t
    using proper_int16 [of n m t] assms(1,3) that by (simp add: host_of_def ni)
  have "\<not> is_stop t \<and> routable n ?e ?c t" if "t \<in> set us" for t
    using assms(3,4) that h [OF that] by (auto simp: routable_def ni proper_task_def)
  then have nostop: "us = takeWhile (\<lambda>t. \<not> is_stop t) us" "\<forall>t \<in> set us. routable n ?e ?c t"
    by (simp_all add: takeWhile_eq_all_conv [THEN iffD2, symmetric])
  have f: "filter (\<lambda>t. host_of ?c t = j) us =
      filter (\<lambda>t. (if i \<noteq> 0 then target t else source t) = int j) us" for j
    using h assms(3) by (intro filter_cong) (auto simp: proper_task_def)
  have e: "c_files ?e ''test/stdfile'' = Some (std i)" "\<forall>j \<in> set (connections ?c). conn_up ?e j"
    "task_bytes ?e i (std i) = (\<lambda>t. encode_migration (raw i t) t @
      (if i \<noteq> 0 then take chunk (std i) else []))" "raw_mem ?e = raw i"
    by (simp_all add: node_env_def task_bytes_def fun_eq_iff)
  from start_client_eq [OF r q(1), of us ?e "std i"] nostop e q(2) show ?thesis
    by (simp add: f)
qed

lemma relayed_proper:
  assumes "\<forall>t \<in> set ts. \<exists>i. prepared n m i t" and "memory_ok chunk raw std"
    and "u \<in> set (relayed raw y ts)"
  shows "proper_task n m u \<and> source u = int y"
proof -
  from relayed_task [OF assms(3,1,2)] obtain t i where
    "source t = int y" "prepared n m i t" "received_as t u" by blast
  then show ?thesis
    using received_proper [of n m t u] by (simp add: prepared_def received_as_def)
qed

text \<open>What node \<open>y\<close> finds in its own queue, and what it passes on.\<close>

lemma node_tasks:
  assumes "n < 1000" and "1 \<le> y" and "y \<le> n" and "\<forall>t \<in> set ts. \<exists>i. prepared n m i t"
    and "memory_ok chunk raw std"
    and "start_client (node_env chunk raw std 0) (node_client n 0 addr ts) = Some (Inr c)"
  shows "takeWhile (\<lambda>t. \<not> is_stop t) (headers (drop 2 (outgoing c y))) = relayed raw y ts"
proof -
  have p: "\<forall>t \<in> set ts. proper_task n m t" "\<forall>t \<in> set ts. fits t"
    using assms(4) by (auto simp: prepared_def)
  have raw: "length (raw 0 t) = header_size" for t using assms(5) by (simp add: memory_ok_def)
  from node_client_sends [OF assms(1) _ p(1), of 0 chunk raw std addr] assms(2,3,6)
  have "drop 2 (outgoing c y) =
      concat (map (\<lambda>t. encode_migration (raw 0 t) t) (filter (\<lambda>t. source t = int y) ts)) @
      encode_migration (raw 0 default_migration) default_migration" by simp
  then have h: "headers (drop 2 (outgoing c y)) = relayed raw y ts @
      [decode_migration (encode_migration (raw 0 default_migration) default_migration)]"
    using headers_concat [of "filter (\<lambda>t. source t = int y) ts" "raw 0"] p(2) raw
    by (simp add: relayed_def)
  have "\<forall>u \<in> set (relayed raw y ts). \<not> is_stop u"
    using relayed_proper [OF assms(4,5)] assms(2) by fastforce
  then show ?thesis
    using stop_is_stop [OF raw, of default_migration] by (simp add: h takeWhile_append2)
qed

section \<open>The server of a node\<close>

text \<open>The stream from node \<open>y\<close> to node \<open>x\<close> behind the index.\<close>

definition block_stream ::
  "nat \<Rightarrow> (nat \<Rightarrow> migration \<Rightarrow> byte list) \<Rightarrow> (nat \<Rightarrow> byte list) \<Rightarrow> migration list \<Rightarrow> nat \<Rightarrow> nat \<Rightarrow> byte list"
  where "block_stream chunk raw std ts y x =
     concat (map (\<lambda>t. encode_migration (raw y t) t @ take chunk (std y))
       (filter (\<lambda>t. target t = int x) (relayed raw y ts))) @
     encode_migration (raw y default_migration) default_migration"

text \<open>A task as the target node gets it.\<close>

definition arrived :: "(nat \<Rightarrow> migration \<Rightarrow> byte list) \<Rightarrow> nat \<Rightarrow> migration \<Rightarrow> migration" where
  "arrived raw y t = (let u = decode_migration (encode_migration (raw 0 t) t)
     in decode_migration (encode_migration (raw y u) u))"

lemma arrived_as:
  assumes "prepared n m i t" and "memory_ok chunk raw std"
  shows "received_as t (arrived raw y t)"
  unfolding arrived_def Let_def
  by (rule wire.relay) (use assms in \<open>simp_all add: prepared_def memory_ok_def\<close>)

lemma block_stream_frames:
  assumes "n < 1000" and "\<forall>t \<in> set ts. \<exists>i. prepared n m i t" and "memory_ok chunk raw std"
  shows "frames chunk (block_stream chunk raw std ts y x) =
      map (\<lambda>t. (arrived raw y t, take chunk (std y)))
        (filter (\<lambda>t. source t = int y \<and> target t = int x) ts)"
    and "whole chunk (block_stream chunk raw std ts y x)"
proof -
  let ?us = "filter (\<lambda>t. target t = int x) (relayed raw y ts)"
  have raw: "length (raw y t) = header_size" "length (take chunk (std y)) = chunk" for t
    using assms(3) by (simp_all add: memory_ok_def)
  have us: "\<forall>u \<in> set ?us. fits u \<and> source u \<noteq> target u"
  proof
    fix u assume "u \<in> set ?us"
    then have u: "u \<in> set (relayed raw y ts)" by simp
    then have "fits u" by (auto simp: relayed_def decode_fits)
    with relayed_proper [OF assms(2,3) u] show "fits u \<and> source u \<noteq> target u"
      by (simp add: proper_task_def)
  qed
  have tg: "target (decode_migration (encode_migration (raw 0 t) t)) = target t" if "t \<in> set ts" for t
  proof -
    from assms(2) that have "fits t" by (auto simp: prepared_def)
    from decode_encode [OF this, of "raw 0 t"] assms(3) show ?thesis
      by (simp add: received_as_def memory_ok_def)
  qed
  have "filter ((\<lambda>t. target t = int x) \<circ> (\<lambda>t. decode_migration (encode_migration (raw 0 t) t)))
      (filter (\<lambda>t. source t = int y) ts) = filter (\<lambda>t. source t = int y \<and> target t = int x) ts"
    unfolding filter_filter by (rule filter_cong) (auto simp: tg)
  then have eq: "?us = map (\<lambda>t. decode_migration (encode_migration (raw 0 t) t))
      (filter (\<lambda>t. source t = int y \<and> target t = int x) ts)"
    by (simp add: relayed_def filter_map)
  note f = frames_concat [OF us raw(1) raw(2)]
  have "frames chunk (block_stream chunk raw std ts y x) =
      map (\<lambda>u. (decode_migration (encode_migration (raw y u) u), take chunk (std y))) ?us"
    unfolding block_stream_def by (rule f(1))
  also have "\<dots> = map (\<lambda>t. (arrived raw y t, take chunk (std y)))
        (filter (\<lambda>t. source t = int y \<and> target t = int x) ts)"
    unfolding eq by (simp add: arrived_def Let_def comp_def)
  finally show "frames chunk (block_stream chunk raw std ts y x) =
      map (\<lambda>t. (arrived raw y t, take chunk (std y)))
        (filter (\<lambda>t. source t = int y \<and> target t = int x) ts)" .
  show "whole chunk (block_stream chunk raw std ts y x)"
    unfolding block_stream_def by (rule f(2))
qed

lemma prepared_task_ok:
  assumes "prepared n m i t" and "target t = int x" and "n < 1000" and "node_server_ok e k m n x std"
    and "memory_ok (chunk_size e) raw std"
  shows "task_ok e m t"
proof -
  have p: "proper_task n m t" "store_fn t = Some (store_name t i)"
    "coefficient t \<noteq> Some 0 \<Longrightarrow> target_fn t = Some ''test/stdfile''"
    using assms(1) by (simp_all add: prepared_def)
  from store_name_dir [OF p(1), of i] assms(2-4) have "writable e (store_name t i)"
    by (auto simp: node_server_ok_def)
  with p assms(4,5) show ?thesis
    by (auto simp: task_ok_def proper_task_def node_server_ok_def memory_ok_def)
qed

lemma out_delivered:
  assumes "received_as t u" and "prepared n m i t" and "source t = int y"
    and "node_server_ok e k m n x std"
  shows "out e k (u, take (chunk_size e) (std y)) = delivered e k std x t"
proof -
  from assms(2) obtain c where t: "coefficient t = Some c" "store_fn t \<noteq> None"
    "c \<noteq> 0 \<Longrightarrow> target_fn t = Some ''test/stdfile''"
    by (auto simp: prepared_def proper_task_def)
  with assms(1) have "coefficient u = Some c" "store_fn u = store_fn t"
    "c \<noteq> 0 \<Longrightarrow> target_fn u = Some ''test/stdfile''" by (simp_all add: received_as_def)
  with t(1) assms(3,4) show ?thesis
    by (auto simp: out_def delivered_def node_server_ok_def Let_def)
qed

lemma block_stream_good:
  assumes "n < 1000" and "\<forall>t \<in> set ts. \<exists>i. prepared n m i t" and "memory_ok (chunk_size e) raw std"
    and "node_server_ok e k m n x std"
  shows "good_stream e m (block_stream (chunk_size e) raw std ts y x)"
    and "h_out e k (Reading (block_stream (chunk_size e) raw std ts y x)) =
      image_mset (delivered e k std x)
        (filter_mset (\<lambda>t. source t = int y \<and> target t = int x) (mset ts))"
proof -
  note f = block_stream_frames [OF assms(1-3)]
  have "task_ok e m (arrived raw y t)" if "t \<in> set ts" "target t = int x" for t
  proof -
    from assms(2) that obtain i where p: "prepared n m i t" by blast
    show ?thesis
      by (rule task_ok_received [OF arrived_as [OF p assms(3)]
        prepared_task_ok [OF p that(2) assms(1,4,3)]])
  qed
  then show "good_stream e m (block_stream (chunk_size e) raw std ts y x)"
    by (auto simp: good_stream_def f)
  have "out e k (arrived raw y t, take (chunk_size e) (std y)) = delivered e k std x t"
    if "t \<in># filter_mset (\<lambda>t. source t = int y \<and> target t = int x) (mset ts)" for t
  proof -
    from that assms(2) obtain i where p: "prepared n m i t" by auto
    show ?thesis
      by (rule out_delivered [OF arrived_as [OF p assms(3)] p _ assms(4)]) (use that in simp)
  qed
  then have "image_mset (\<lambda>t. out e k (arrived raw y t, take (chunk_size e) (std y)))
      (filter_mset (\<lambda>t. source t = int y \<and> target t = int x) (mset ts)) =
    image_mset (delivered e k std x) (filter_mset (\<lambda>t. source t = int y \<and> target t = int x) (mset ts))"
    by (rule image_mset_cong)
  then show "h_out e k (Reading (block_stream (chunk_size e) raw std ts y x)) =
      image_mset (delivered e k std x)
        (filter_mset (\<lambda>t. source t = int y \<and> target t = int x) (mset ts))"
    by (simp add: f image_mset.compositionality comp_def)
qed

text \<open>All sources together.\<close>

lemma sum_sources:
  assumes "distinct is"
  shows "sum_list (map (\<lambda>y. image_mset f (filter_mset (\<lambda>t. source t = int y \<and> P t) M)) is) =
    image_mset f (filter_mset (\<lambda>t. source t \<in> int ` set is \<and> P t) M)"
  using assms
proof (induction "is")
  case (Cons y "is")
  have "filter_mset (\<lambda>t. source t \<in> int ` set (y # is) \<and> P t) M =
      filter_mset (\<lambda>t. source t = int y \<and> P t) M +
      filter_mset (\<lambda>t. source t \<in> int ` set is \<and> P t) M"
    using Cons.prems by (induction M) auto
  with Cons show ?case by simp
qed simp

section \<open>The handlers of a node\<close>

text \<open>The connections of node \<open>x\<close>, in the order \<open>is\<close> in which they were accepted.\<close>

definition node_handlers ::
  "nat \<Rightarrow> (nat \<Rightarrow> migration \<Rightarrow> byte list) \<Rightarrow> (nat \<Rightarrow> byte list) \<Rightarrow> migration list \<Rightarrow> nat \<Rightarrow> nat list \<Rightarrow>
    byte list \<Rightarrow> handler list" where
  "node_handlers chunk raw std ts x is master =
     map (\<lambda>y. if y \<noteq> 0 then Reading (block_stream chunk raw std ts y x) else Master master) is"

lemma node_handlers_started:
  assumes "n < 1000" and "\<forall>t \<in> set ts. \<exists>i. prepared n m i t" and "memory_ok (chunk_size e) raw std"
    and "node_server_ok e k m n x std" and "length master mod header_size = 0"
  shows "started e m (node_handlers (chunk_size e) raw std ts x is master)"
  using block_stream_good(1) [OF assms(1-4)] assms(5)
  by (auto simp: started_def node_handlers_def)

lemma node_handlers_expected:
  assumes "n < 1000" and "\<forall>t \<in> set ts. \<exists>i. prepared n m i t" and "memory_ok (chunk_size e) raw std"
    and "node_server_ok e k m n x std" and "distinct is" and "set is = {0..n} - {x}" and "1 \<le> x"
  shows "expected e k (node_handlers (chunk_size e) raw std ts x is master) = deliveries e k std x ts"
proof -
  have none: "filter_mset (\<lambda>t. source t = 0 \<and> target t = int x) (mset ts) = {#}"
  proof -
    have "filter_mset (\<lambda>t. source t = 0 \<and> target t = int x) (mset ts) = filter_mset (\<lambda>_. False) (mset ts)"
      using assms(2) by (intro filter_mset_cong) (auto simp: prepared_def proper_task_def)
    then show ?thesis by simp
  qed
  have "h_out e k (if y \<noteq> 0 then Reading (block_stream (chunk_size e) raw std ts y x) else Master master) =
      image_mset (delivered e k std x) (filter_mset (\<lambda>t. source t = int y \<and> target t = int x) (mset ts))"
    for y
    using block_stream_good(2) [OF assms(1-4), of y] none by (cases "y = 0") simp_all
  then have "expected e k (node_handlers (chunk_size e) raw std ts x is master) =
      sum_list (map (\<lambda>y. image_mset (delivered e k std x)
        (filter_mset (\<lambda>t. source t = int y \<and> target t = int x) (mset ts))) is)"
    by (simp add: expected_def node_handlers_def comp_def)
  also have "\<dots> = image_mset (delivered e k std x)
      (filter_mset (\<lambda>t. source t \<in> int ` set is \<and> target t = int x) (mset ts))"
    by (rule sum_sources [OF assms(5)])
  also have "filter_mset (\<lambda>t. source t \<in> int ` set is \<and> target t = int x) (mset ts) =
      filter_mset (\<lambda>t. target t = int x) (mset ts)"
  proof (rule filter_mset_cong [OF refl])
    fix t assume "t \<in># mset ts"
    with assms(2) have "proper_task n m t" by (auto simp: prepared_def)
    then have "target t = int x \<Longrightarrow> source t = int (nat (source t)) \<and> nat (source t) \<in> {0..n} - {x}"
      by (auto simp: proper_task_def)
    then show "(source t \<in> int ` set is \<and> target t = int x) = (target t = int x)"
      unfolding assms(6) by blast
  qed
  finally show ?thesis by (simp add: deliveries_def)
qed

text \<open>What the accepted connections become.\<close>

lemma cluster_handlers:
  assumes "n < 1000" and "1 \<le> x" and "x \<le> n" and "\<forall>t \<in> set ts. \<exists>i. prepared n m i t"
    and "memory_ok chunk raw std" and "reads_fully (sock_read lib)"
    and "start_client (node_env chunk raw std 0) (node_client n 0 addr ts) = Some (Inr (c 0))"
    and "\<forall>y. 1 \<le> y \<and> y \<le> n \<longrightarrow> start_client (node_env chunk raw std y)
      (node_client n y addr (relayed raw y ts)) = Some (Inr (c y))"
    and "set is \<subseteq> {0..n} - {x}"
  shows "wait_for_connection lib (length is) (map (\<lambda>y. Some (outgoing (c y) x)) is) =
    Some (node_handlers chunk raw std ts x is (drop 2 (outgoing (c 0) x)))"
proof -
  let ?str = "\<lambda>y. drop 2 (outgoing (c y) x)"
  have p: "\<forall>t \<in> set ts. proper_task n m t" using assms(4) by (auto simp: prepared_def)
  have c0: "outgoing (c 0) x = le_bytes 2 0 @ ?str 0"
    using node_client_sends [OF assms(1) _ p, of 0 chunk raw std addr] assms(2,3,7) by auto
  have cy: "outgoing (c y) x = le_bytes 2 y @ block_stream chunk raw std ts y x"
    if "1 \<le> y" "y \<le> n" "y \<noteq> x" for y
    using node_client_sends [OF assms(1) that(2), of "relayed raw y ts" m chunk raw std addr]
      relayed_proper [OF assms(4,5)] assms(2,3,8) that by (auto simp: block_stream_def)
  have "outgoing (c y) x = le_bytes 2 y @ ?str y" if "y \<in> set is" for y
  proof (cases "y = 0")
    case False
    have "y \<le> n" "y \<noteq> x" using assms(9) that by auto
    with cy [of y] False show ?thesis by simp
  qed (use c0 in simp)
  then have eq: "map (\<lambda>y. Some (outgoing (c y) x)) is = map (\<lambda>y. Some (le_bytes 2 y @ ?str y)) is"
    by (intro map_cong) auto
  have lt: "\<forall>i \<in> set is. i < 65536" using assms(1,9) by auto
  have "wait_for_connection lib (length is) (map (\<lambda>y. Some (outgoing (c y) x)) is) =
      Some (map (\<lambda>y. if y \<noteq> 0 then Reading (?str y) else Master (?str y)) is)"
    unfolding eq by (rule wait_for_connections [OF assms(6) lt])
  moreover have "map (\<lambda>y. if y \<noteq> 0 then Reading (?str y) else Master (?str y)) is =
      node_handlers chunk raw std ts x is (drop 2 (outgoing (c 0) x))"
    unfolding node_handlers_def
  proof (rule map_cong [OF refl])
    fix y assume "y \<in> set is"
    then have "y \<le> n" "y \<noteq> x" using assms(9) by auto
    with cy [of y] show "(if y \<noteq> 0 then Reading (?str y) else Master (?str y)) =
        (if y \<noteq> 0 then Reading (block_stream chunk raw std ts y x) else Master (?str 0))"
      by simp
  qed
  ultimately show ?thesis by simp
qed

lemma cluster_started:
  assumes "n < 1000" and "1 \<le> x" and "x \<le> n" and "\<forall>t \<in> set ts. \<exists>i. prepared n m i t"
    and "memory_ok (chunk_size e) raw std" and "node_server_ok e k m n x std"
    and "start_client (node_env (chunk_size e) raw std 0) (node_client n 0 addr ts) = Some (Inr (c 0))"
    and "\<forall>y. 1 \<le> y \<and> y \<le> n \<longrightarrow> start_client (node_env (chunk_size e) raw std y) (node_client n y addr
      (takeWhile (\<lambda>t. \<not> is_stop t) (headers (drop 2 (outgoing (c 0) y))))) = Some (Inr (c y))"
    and "distinct is" and "set is = {0..n} - {x}"
  shows "\<exists>hs. wait_for_connection (env_lib e) (length is) (map (\<lambda>y. Some (outgoing (c y) x)) is) = Some hs \<and>
    started e m hs \<and> expected e k hs = deliveries e k std x ts"
proof -
  have cy: "\<forall>y. 1 \<le> y \<and> y \<le> n \<longrightarrow> start_client (node_env (chunk_size e) raw std y)
      (node_client n y addr (relayed raw y ts)) = Some (Inr (c y))"
    using assms(8) node_tasks [OF assms(1) _ _ assms(4,5,7)] by simp
  have env: "env_ok e k m" using assms(6) by (simp add: node_server_ok_def)
  then have rd: "reads_fully (sock_read (env_lib e))" by (simp add: env_ok_def)
  let ?m = "drop 2 (outgoing (c 0) x)"
  let ?hs = "node_handlers (chunk_size e) raw std ts x is ?m"
  have hs: "wait_for_connection (env_lib e) (length is) (map (\<lambda>y. Some (outgoing (c y) x)) is) = Some ?hs"
    by (rule cluster_handlers [where c = c, OF assms(1-5) rd assms(7) cy]) (simp add: assms(10))
  have p: "\<forall>t \<in> set ts. proper_task n m t \<and> fits t" using assms(4) by (auto simp: prepared_def)
  from node_client_sends [OF assms(1), of 0 ts m "chunk_size e" raw std addr] p assms(2,3,7)
  have "?m = concat (map (\<lambda>t. encode_migration (raw 0 t) t) (filter (\<lambda>t. source t = int x) ts)) @
      encode_migration (raw 0 default_migration) default_migration" by auto
  then have "length ?m mod header_size = 0"
    using headers_length [of "filter (\<lambda>t. source t = int x) ts" "raw 0"] p assms(5)
    by (simp add: memory_ok_def)
  from node_handlers_started [OF assms(1,4-6) this] have "started e m ?hs" .
  moreover have "expected e k ?hs = deliveries e k std x ts"
    by (rule node_handlers_expected [OF assms(1,4-6,9,10,2)])
  ultimately show ?thesis using hs by blast
qed

section \<open>From the configuration on\<close>

text \<open>
  What the nodes do after they have read their configurations \<open>cf y\<close>: the master's client \<open>cl\<close>
  sends its tasks; every data node passes on what the master has sent it, once its own queue
  is complete, and its client sends the blocks. \<open>c y\<close> is the client of node \<open>y\<close> in the end.
\<close>

definition clients_run ::
  "nat \<Rightarrow> (nat \<Rightarrow> migration \<Rightarrow> byte list) \<Rightarrow> (nat \<Rightarrow> byte list) \<Rightarrow> nat \<Rightarrow> (nat \<Rightarrow> config) \<Rightarrow> client \<Rightarrow>
    (nat \<Rightarrow> client) \<Rightarrow> bool" where
  "clients_run chunk raw std n cf cl c \<longleftrightarrow>
     start_client (node_env chunk raw std 0) cl = Some (Inr (c 0)) \<and>
     (\<forall>y. 1 \<le> y \<and> y \<le> n \<longrightarrow> (\<exists>cl' own'.
       forward_tasks \<lparr>thread_num = 1, task_queue = headers (drop 2 (outgoing (c 0) y)), seal_flag = True\<rparr>
         (new_client y (targets (cf y)) 1) = Some (Inr (cl', own')) \<and>
       start_client (node_env chunk raw std y) cl' = Some (Inr (c y))))"

text \<open>All nodes have read the same file.\<close>

definition configured :: "nat \<Rightarrow> nat \<Rightarrow> address list \<Rightarrow> (nat \<Rightarrow> config) \<Rightarrow> bool" where
  "configured k m nodes cf \<longleftrightarrow> (\<forall>a \<in> set nodes. proper_address a) \<and>
     (\<forall>y \<le> length nodes. parse_config y (Some (render_config k m nodes)) = Some (Inr (cf y)))"

abbreviation nth_node :: "address list \<Rightarrow> nat \<Rightarrow> address" where
  "nth_node nodes \<equiv> \<lambda>j. nodes ! (j - 1)"

lemma configured_targets:
  assumes "configured k m nodes cf" and "k < 2 ^ 32" and "m < 2 ^ 32" and "nodes \<noteq> []"
    and "length nodes < 65535" and "y \<le> length nodes"
  shows "targets (cf y) = map (nth_node nodes) (filter (\<lambda>j. j \<noteq> y) [1..<Suc (length nodes)])"
  using parse_render [OF assms(2,3) _ assms(4,5), of y] assms(1,6)
  by (auto simp: configured_def simp del: upt_Suc)

lemma cluster_clients:
  assumes "configured k m nodes cf" and "k < 2 ^ 32" and "m < 2 ^ 32" and "1 \<le> length nodes"
    and "length nodes < 1000" and "n = length nodes"
  shows "(new_client 0 (targets (cf 0)) 1)\<lparr>tasks := \<lparr>thread_num = 1, task_queue = ts, seal_flag = True\<rparr>\<rparr> =
      node_client n 0 (nth_node nodes) ts"
    and "clients_run chunk raw std n cf cl c \<longleftrightarrow>
      start_client (node_env chunk raw std 0) cl = Some (Inr (c 0)) \<and>
      (\<forall>y. 1 \<le> y \<and> y \<le> n \<longrightarrow> start_client (node_env chunk raw std y) (node_client n y (nth_node nodes)
        (takeWhile (\<lambda>t. \<not> is_stop t) (headers (drop 2 (outgoing (c 0) y))))) = Some (Inr (c y)))"
proof -
  have t: "targets (cf y) = map (nth_node nodes) (filter (\<lambda>j. j \<noteq> y) [1..<Suc n])" if "y \<le> n" for y
    using configured_targets [OF assms(1-3), of y] assms(4-6) that by fastforce
  then show "(new_client 0 (targets (cf 0)) 1)\<lparr>tasks := \<lparr>thread_num = 1, task_queue = ts, seal_flag = True\<rparr>\<rparr> =
      node_client n 0 (nth_node nodes) ts"
    by (simp add: node_client_def)
  have "\<exists>own'. forward_tasks \<lparr>thread_num = 1, task_queue = us, seal_flag = True\<rparr>
      (new_client y (targets (cf y)) 1) =
      Some (Inr (node_client n y (nth_node nodes) (takeWhile (\<lambda>t. \<not> is_stop t) us), own'))"
    if "y \<le> n" for y us
    using forward_tasks_eq [of "\<lparr>thread_num = 1, task_queue = us, seal_flag = True\<rparr>"
        "new_client y (targets (cf y)) 1"] t [OF that]
    by (auto simp: finish_client_def node_client_def new_client_tasks set_finished_def new_pool_def)
  then show "clients_run chunk raw std n cf cl c \<longleftrightarrow>
      start_client (node_env chunk raw std 0) cl = Some (Inr (c 0)) \<and>
      (\<forall>y. 1 \<le> y \<and> y \<le> n \<longrightarrow> start_client (node_env chunk raw std y) (node_client n y (nth_node nodes)
        (takeWhile (\<lambda>t. \<not> is_stop t) (headers (drop 2 (outgoing (c 0) y))))) = Some (Inr (c y)))"
    unfolding clients_run_def by (metis (no_types, lifting) Inr_inject Pair_inject option.inject)
qed

lemma cluster_tasks:
  assumes "supported k m num (cf 0)" and "n = 2 * k + m" and "n < 1000"
    and "length nodes = n" and "configured k m nodes cf"
    and "\<And>i xs. mset (shufd i xs) = mset xs" and "\<And>i xs. mset (shufs i xs) = mset xs"
    and "\<And>ts. mset (shuffle ts) = mset ts"
  shows "\<exists>ts. start_master shufd shufs shuffle (cf 0) num ty =
    Some (Inr (node_client n 0 (nth_node nodes) ts)) \<and> (\<forall>t \<in> set ts. \<exists>i. prepared n m i t)"
proof -
  have b: "k < 2 ^ 32" "m < 2 ^ 32" "1 \<le> length nodes" using assms(1,2,4) by (simp_all add: supported_def)
  have n: "length nodes < 1000" "2 * k + m < 1000" using assms(2-4) by simp_all
  from start_master_total [where shufd = shufd and shufs = shufs and shuffle = shuffle and ty = ty,
      OF assms(1) n(2) assms(6-8)] obtain ts where
    "start_master shufd shufs shuffle (cf 0) num ty = Some (Inr ((new_client 0 (targets (cf 0)) 1)\<lparr>tasks :=
      \<lparr>thread_num = 1, task_queue = ts, seal_flag = True\<rparr>\<rparr>))"
    "\<forall>i < length ts. prepared (2 * k + m) m i (ts ! i)" by blast
  with cluster_clients(1) [OF assms(5) b n(1) assms(4) [symmetric], of ts] show ?thesis
    unfolding assms(2) by (metis in_set_conv_nth)
qed

lemma clients_can_run:
  assumes "configured k m nodes cf" and "k < 2 ^ 32" and "m < 2 ^ 32" and "1 \<le> n" and "n < 1000"
    and "length nodes = n" and "\<forall>t \<in> set ts. \<exists>i. prepared n m i t" and "memory_ok chunk raw std"
  shows "\<exists>c. clients_run chunk raw std n cf (node_client n 0 (nth_node nodes) ts) c"
proof -
  let ?addr = "nth_node nodes"
  have pt: "\<forall>t \<in> set ts. proper_task n m t" using assms(7) by (auto simp: prepared_def)
  obtain c0 where c0: "start_client (node_env chunk raw std 0) (node_client n 0 ?addr ts) = Some (Inr c0)"
    using node_client_sends [of n 0 ts m chunk raw std ?addr, OF assms(5) _ pt] by auto
  have "\<exists>c. start_client (node_env chunk raw std y) (node_client n y ?addr (relayed raw y ts)) =
      Some (Inr c)" if "1 \<le> y" "y \<le> n" for y
    using node_client_sends [of n y "relayed raw y ts" m chunk raw std ?addr]
      relayed_proper [OF assms(7,8)] assms(5) that by auto
  then obtain c where c: "\<forall>y. 1 \<le> y \<and> y \<le> n \<longrightarrow> start_client (node_env chunk raw std y)
      (node_client n y ?addr (relayed raw y ts)) = Some (Inr (c y))" by metis
  have "clients_run chunk raw std n cf (node_client n 0 ?addr ts) (c(0 := c0))"
    using c0 c node_tasks [OF assms(5) _ _ assms(7,8) c0] assms(4-6)
    by (simp add: cluster_clients(2) [OF assms(1-3) _ _ assms(6) [symmetric]])
  then show ?thesis by blast
qed

text \<open>What is on disk when a server with any number of workers has finished.\<close>

lemma finished_stored:
  assumes "started e m hs" and "distinct addrs" and "env_ok e k m" and "0 < w"
    and "server_run e (new_server addrs w (chunk_size e) hs) s" and "serving s = Finished"
  shows "mset (stored s) + unwritten s = expected e k hs \<and>
    (\<forall>t \<in> set (task_queue (w_worker s)). coefficient t \<noteq> Some 0) \<and>
    (w = 1 \<longrightarrow> mset (stored s) = expected e k hs)"
proof -
  note inv = inv_reachable [OF assms(5,1,2,3)]
  have phase: "inv_phase s" using inv(1) by (simp add: server_inv_def)
  have c: "computers s \<noteq> []" "writers s \<noteq> []" using inv(3,4) assms(4) by auto
  have "unwritten s = {#}" if "w = 1"
  proof -
    have "W_done \<in> set (writers s)"
      using phase assms(6) c(2) by (cases "writers s") (simp_all add: inv_phase_def)
    with single_run [OF _ assms(1-3)] assms(5) that show ?thesis
      by (simp add: inv_single_def unwritten_def)
  qed
  with finished_outputs(1) [OF phase assms(6) c, of e k] finished_outputs(2) [OF phase assms(6) c]
    inv(2) show ?thesis by simp
qed

section \<open>Properties\<close>

text \<open>The same work, one node after the other. All nodes of a cluster of \<open>2 k + m\<close> nodes read the
  same configuration; the master computes and prepares a scheme of any of the three types and its
  client sends the tasks; every data node passes on what it finds in its own queue to its client,
  which sends the blocks; the server of node \<open>x\<close> accepts the connections of all other nodes in
  any order and runs to the end, in any interleaving of its threads. Then the files written at \<open>x\<close>,
  together with the parity blocks that were lost, are exactly the files of the master's tasks with
  target \<open>x\<close>, each with its content: the source's chunk, or for a parity task its merge with the
  local one. With one worker thread nothing is lost.\<close>

theorem cluster_delivers:
  assumes "supported k m num (cf 0)" and "n = 2 * k + m" and "n < 1000"
    and "length nodes = n" and "configured k m nodes cf"
    and "\<And>i xs. mset (shufd i xs) = mset xs" and "\<And>i xs. mset (shufs i xs) = mset xs"
    and "\<And>ts. mset (shuffle ts) = mset ts"
    and "start_master shufd shufs shuffle (cf 0) num ty = Some (Inr cl)"
    and "clients_run (chunk_size e) raw std n cf cl c"
    and "memory_ok (chunk_size e) raw std" and "node_server_ok e k m n x std"
    and "1 \<le> x" and "x \<le> n" and "distinct is" and "set is = {0..n} - {x}"
    and "wait_for_connection (env_lib e) (length is) (map (\<lambda>y. Some (outgoing (c y) x)) is) = Some hs"
    and "distinct addrs" and "0 < w"
    and "server_run e (new_server addrs w (chunk_size e) hs) s" and "serving s = Finished"
  shows "mset (stored s) + unwritten s = deliveries e k std x (task_queue (tasks cl)) \<and>
    (\<forall>t \<in> set (task_queue (w_worker s)). coefficient t \<noteq> Some 0) \<and>
    (w = 1 \<longrightarrow> mset (stored s) = deliveries e k std x (task_queue (tasks cl)))"
proof -
  from cluster_tasks [where shufd = shufd and shufs = shufs and shuffle = shuffle and ty = ty,
      OF assms(1-8)] assms(9) obtain ts where
    ts: "cl = node_client n 0 (nth_node nodes) ts" "\<forall>t \<in> set ts. \<exists>i. prepared n m i t" by auto
  have q: "task_queue (tasks cl) = ts" by (simp add: ts(1) node_client_def)
  have run: "start_client (node_env (chunk_size e) raw std 0) (node_client n 0 (nth_node nodes) ts) =
      Some (Inr (c 0))"
    "\<forall>y. 1 \<le> y \<and> y \<le> n \<longrightarrow> start_client (node_env (chunk_size e) raw std y)
      (node_client n y (nth_node nodes) (takeWhile (\<lambda>t. \<not> is_stop t)
        (headers (drop 2 (outgoing (c 0) y))))) = Some (Inr (c y))"
    using assms(10) cluster_clients(2) [OF assms(5) _ _ _ _ assms(4) [symmetric]] assms(1,3,4,13,14)
    by (auto simp: ts(1) supported_def)
  from cluster_started [where c = c, OF assms(3,13,14) ts(2) assms(11,12) run assms(15,16)] assms(17)
  have "started e m hs" "expected e k hs = deliveries e k std x ts" by auto
  from finished_stored [OF this(1) assms(18) _ assms(19-21), of k] this(2) assms(12) q
  show ?thesis by (auto simp: node_server_ok_def)
qed

text \<open>The witness: five data nodes and the master, with chunks of one byte.\<close>

definition five_env :: server_env where
  "five_env = demo_env\<lparr>gftbl := init_ec_table demo_library 2 1, files := [''test/stdfile'' \<mapsto> [9]]\<rparr>"

abbreviation five_nodes :: "address list" where
  "five_nodes \<equiv> replicate 5 (''host'', 15000)"

abbreviation five_cf :: "nat \<Rightarrow> config" where
  "five_cf \<equiv> \<lambda>y. projr (the (parse_config y (Some (render_config 2 1 five_nodes))))"

lemma five_ok:
  "configured 2 1 five_nodes five_cf" "supported 2 1 600 (five_cf 0)"
  "memory_ok (chunk_size five_env) (\<lambda>_ _. replicate 88 0) (\<lambda>_. [9])"
  "node_server_ok five_env 2 1 5 1 (\<lambda>_. [9])"
proof -
  have a: "\<forall>a \<in> set five_nodes. proper_address a" by (simp add: proper_address_def is_space_def)
  have r: "parse_config y (Some (render_config 2 1 five_nodes)) = Some (Inr (five_cf y))"
    "cf_k (five_cf y) = 2" "cf_m (five_cf y) = 1" "cf_N (five_cf y) = wrap32 (2 * 2 + 1)" for y
    using parse_render [OF _ _ a, of 2 1 y] by (simp_all del: One_nat_def upt_Suc)
  show "configured 2 1 five_nodes five_cf" using a r(1) unfolding configured_def by blast
  show "supported 2 1 600 (five_cf 0)" unfolding supported_def r(2-4)
    by (simp add: wrap32_small)
  show "memory_ok (chunk_size five_env) (\<lambda>_ _. replicate 88 0) (\<lambda>_. [9])"
    by (simp add: memory_ok_def five_env_def)
  show "node_server_ok five_env 2 1 5 1 (\<lambda>_. [9])"
    using demo_env_ok by (simp add: node_server_ok_def five_env_def env_ok_def) (simp add: demo_env_def)
qed

theorem cluster_delivers_witness:
  "\<exists>cl hs s. start_master (\<lambda>_. rev) (\<lambda>_. rev) rev (five_cf 0) 600 0 = Some (Inr cl) \<and>
    server_run five_env (new_server [64, 128] 1 (chunk_size five_env) hs) s \<and> serving s = Finished \<and>
    mset (stored s) = deliveries five_env 2 (\<lambda>_. [9]) 1 (task_queue (tasks cl))"
proof -
  let ?raw = "\<lambda>_ _. replicate 88 0 :: byte list" and ?std = "\<lambda>_. [9] :: byte list"
  have len: "length five_nodes = 5" by simp
  obtain ts where m: "start_master (\<lambda>_. rev) (\<lambda>_. rev) rev (five_cf 0) 600 0 =
      Some (Inr (node_client 5 0 (nth_node five_nodes) ts))" "\<forall>t \<in> set ts. \<exists>i. prepared 5 1 i t"
    using cluster_tasks [where shufd = "\<lambda>_. rev" and shufs = "\<lambda>_. rev" and shuffle = rev and ty = 0,
      OF five_ok(2) _ _ len five_ok(1)] by auto
  let ?cl = "node_client 5 0 (nth_node five_nodes) ts"
  from clients_can_run [OF five_ok(1) _ _ _ _ len m(2) five_ok(3)] obtain c where
    c: "clients_run (chunk_size five_env) ?raw ?std 5 five_cf ?cl c" by auto
  have eq: "set [0, 2, 3, 4, 5] = {0..5} - {1 :: nat}" by auto
  have run: "start_client (node_env (chunk_size five_env) ?raw ?std 0) ?cl = Some (Inr (c 0))"
    "\<forall>y. 1 \<le> y \<and> y \<le> 5 \<longrightarrow> start_client (node_env (chunk_size five_env) ?raw ?std y)
      (node_client 5 y (nth_node five_nodes) (takeWhile (\<lambda>t. \<not> is_stop t)
        (headers (drop 2 (outgoing (c 0) y))))) = Some (Inr (c y))"
    using c cluster_clients(2) [OF five_ok(1) _ _ _ _ len [symmetric]] by auto
  from cluster_started [where c = c, OF _ _ _ m(2) five_ok(3,4) run _ eq] obtain hs where
    hs: "wait_for_connection (env_lib five_env) (length [0 :: nat, 2, 3, 4, 5])
      (map (\<lambda>y. Some (outgoing (c y) 1)) [0, 2, 3, 4, 5]) = Some hs" "started five_env 1 hs" by auto
  have env: "env_ok five_env 2 1" using five_ok(4) by (simp add: node_server_ok_def)
  obtain s where s: "server_run five_env (new_server [64, 128] 1 (chunk_size five_env) hs) s"
    "serving s = Finished"
    using new_can_finish [OF hs(2) _ env, of "[64, 128]" 1] by auto
  from cluster_delivers [where shufd = "\<lambda>_. rev" and shufs = "\<lambda>_. rev" and shuffle = rev,
      OF five_ok(2) _ _ len five_ok(1) _ _ _ m(1) c five_ok(3,4) _ _ _ eq hs(1) _ _ s]
  show ?thesis using m(1) s by auto
qed

end
