(* ===== verification/Network.thy ===== *)
theory Network
  imports Cluster
begin

text \<open>
  All threads of all nodes at the same time. The state holds, for every node, the program points
  of its main thread (\<open>TCPNode::start\<close>, src/tcp_node.cc) and of its client thread
  (src/tcp_client.cc), the client, and the state of its server with the program points of the server's
  threads; for every server the connections that have been made to it and those it has accepted; for
  every connection, whether the server has sent the start flag and whether the client
  has closed it. Node 0 is the master, which has no server.

  A connection delivers what was written to it at once and in order: the handler of the connection
  holds the bytes that have arrived and have not been read. A thread that wants to read more than
  has arrived waits, unless the peer has closed the connection.
\<close>

section \<open>State\<close>

text \<open>The constants: the number of data nodes, the environments of their servers and clients, the
  configurations they have read, the addresses of the chunk buffers, the number of worker threads, and
  the tasks that the master computes.\<close>

record cluster =
  c_nodes :: nat
  c_server :: "nat \<Rightarrow> server_env"
  c_client :: "nat \<Rightarrow> client_env"
  c_config :: "nat \<Rightarrow> config"
  c_addrs :: "nat \<Rightarrow> nat list"
  c_workers :: nat
  c_tasks :: "migration list"

text \<open>
  The main thread: a data node makes its server, connects its client, waits until its server has accepted
  all connections, starts serving and relays the tasks of its server's queue; the master connects its
  client and adds its tasks. Both then wait for their other threads.
\<close>

datatype main_pc = M_new | M_connect | M_accept | M_submit "migration list" | M_serve | M_relay | M_join | M_end

text \<open>The client thread: it is started when the client has connected, waits for the start flags, then
  runs with its buffer, then shuts its connections down.\<close>

datatype client_pc = K_none | K_wait | K_idle "byte list" | K_busy migration "byte list" | K_signal "nat list" | K_end

text \<open>\<open>linked i j\<close>: the client of node \<open>i\<close> is connected to the server of node \<open>j\<close>. The connections of a
  server are given by the nodes they come from, in the order in which they were made and accepted.\<close>

record network =
  main :: "nat \<Rightarrow> main_pc"
  cpc :: "nat \<Rightarrow> client_pc"
  cli :: "nat \<Rightarrow> client"
  srv :: "nat \<Rightarrow> server"
  linked :: "nat \<Rightarrow> nat \<Rightarrow> bool"
  backlog :: "nat \<Rightarrow> nat list"
  accepted :: "nat \<Rightarrow> nat list"
  flagged :: "nat \<Rightarrow> nat \<Rightarrow> bool"
  shut :: "nat \<Rightarrow> nat \<Rightarrow> bool"
  exited :: "nat \<Rightarrow> bool"

section \<open>Connections\<close>

text \<open>Bytes arrive at a handler; a connection that the handler has closed drops them.\<close>

fun feed :: "byte list \<Rightarrow> handler \<Rightarrow> handler" where
  "feed bs (Reading str) = Reading (str @ bs)"
| "feed bs (Filling t str) = Filling t (str @ bs)"
| "feed bs (Master str) = Master (str @ bs)"
| "feed bs Closed = Closed"

text \<open>The client of node \<open>i\<close> is now \<open>c\<close>, and what it has written since arrives at the servers.\<close>

definition arrive :: "(nat \<Rightarrow> byte list) \<Rightarrow> nat list \<Rightarrow> server \<Rightarrow> server" where
  "arrive new ps s = s\<lparr>handlers := map2 (\<lambda>y h. feed (new y) h) ps (handlers s)\<rparr>"

definition publish :: "nat \<Rightarrow> client \<Rightarrow> network \<Rightarrow> network" where
  "publish i c net = net\<lparr>cli := (cli net)(i := c),
     srv := (\<lambda>j. arrive (\<lambda>y. if y = i then drop (length (outgoing (cli net i) j)) (outgoing c j) else [])
       (accepted net j) (srv net j))\<rparr>"

text \<open>Whether a handler's next read returns: it has what it asks for, or the connection has ended.\<close>

fun can_read :: "nat \<Rightarrow> bool \<Rightarrow> handler \<Rightarrow> bool" where
  "can_read chunk eof (Reading str) \<longleftrightarrow> eof \<or> header_size \<le> length str"
| "can_read chunk eof (Filling t str) \<longleftrightarrow> eof \<or> chunk \<le> length str"
| "can_read chunk eof (Master str) \<longleftrightarrow> eof \<or> header_size \<le> length str"
| "can_read chunk eof Closed \<longleftrightarrow> False"

text \<open>The handlers that move in a step are able to: they have sent the start flag and can read.\<close>

definition reads_arrived :: "cluster \<Rightarrow> network \<Rightarrow> nat \<Rightarrow> server \<Rightarrow> bool" where
  "reads_arrived P net j s' \<longleftrightarrow> (\<forall>p < length (handlers (srv net j)).
     handlers s' ! p \<noteq> handlers (srv net j) ! p \<longrightarrow>
       flagged net (accepted net j ! p) j \<and>
       can_read (chunk_size (c_server P j)) (shut net (accepted net j ! p) j) (handlers (srv net j) ! p))"

section \<open>Steps\<close>

text \<open>
  Making the connections. The constructor of the client runs one thread for every connection, each of
  which tries until the other server exists; the constructor ends when all are connected. The thread of
  \<open>wait_for_connection\<close> accepts the connections in the order in which they were made, until there is one
  from every other node; the handlers are then as \<open>wait_for_connection\<close> makes them. A connection is made
  together with the writing of the index that the server reads first.
\<close>

definition links :: "cluster \<Rightarrow> nat \<Rightarrow> nat list" where
  "links P i = map fst (connect_all i 1 (targets (c_config P i)))"

inductive launch_step :: "cluster \<Rightarrow> nat \<Rightarrow> network \<Rightarrow> network \<Rightarrow> bool" for P i where
  create_server: "main net i = M_new \<Longrightarrow>
    launch_step P i net (net\<lparr>main := (main net)(i := M_connect)\<rparr>)"
| connect: "main net i = M_connect \<Longrightarrow> j \<in> set (links P i) \<Longrightarrow> \<not> linked net i j \<Longrightarrow> main net j \<noteq> M_new \<Longrightarrow>
    launch_step P i net (net\<lparr>cli := (cli net)(i := connect_one j (cli net i)),
      linked := (linked net)(i := (linked net i)(j := True)),
      backlog := (backlog net)(j := backlog net j @ [i])\<rparr>)"
| connected: "main net i = M_connect \<Longrightarrow> \<forall>j \<in> set (links P i). linked net i j \<Longrightarrow>
    launch_step P i net (net\<lparr>main := (main net)(i := if i = 0 then M_submit (c_tasks P) else M_accept),
      cpc := (cpc net)(i := K_wait)\<rparr>)"
| accept: "i \<noteq> 0 \<Longrightarrow> main net i \<noteq> M_new \<Longrightarrow> length (accepted net i) < c_nodes P \<Longrightarrow> backlog net i = x # xs \<Longrightarrow>
    launch_step P i net (net\<lparr>accepted := (accepted net)(i := accepted net i @ [x]),
      backlog := (backlog net)(i := xs)\<rparr>)"
| all_accepted: "main net i = M_accept \<Longrightarrow>
    wait_for_connection (env_lib (c_server P i)) (c_nodes P)
      (map (\<lambda>x. Some (outgoing (cli net x) i)) (accepted net i)) = Some hs \<Longrightarrow>
    launch_step P i net (net\<lparr>main := (main net)(i := M_serve),
      srv := (srv net)(i := new_server (c_addrs P i) (c_workers P) (chunk_size (c_server P i)) hs)\<rparr>)"

text \<open>The master's main thread, once it has the tasks of the scheme.\<close>

inductive master_main :: "network \<Rightarrow> network \<Rightarrow> bool" where
  submit_task: "main net 0 = M_submit (t # ts) \<Longrightarrow> add_to_client (cli net 0) t = Some (Inr c) \<Longrightarrow>
    master_main net (net\<lparr>main := (main net)(0 := M_submit ts), cli := (cli net)(0 := c)\<rparr>)"
| submit_exit: "main net 0 = M_submit (t # ts) \<Longrightarrow> add_to_client (cli net 0) t = Some (Inl x) \<Longrightarrow>
    master_main net (net\<lparr>exited := (exited net)(0 := True)\<rparr>)"
| submit_end: "main net 0 = M_submit [] \<Longrightarrow>
    master_main net (net\<lparr>main := (main net)(0 := M_join),
      cli := (cli net)(0 := finish_client (cli net 0))\<rparr>)"
| join_client: "main net 0 = M_join \<Longrightarrow> cpc net 0 = K_end \<Longrightarrow>
    master_main net (net\<lparr>main := (main net)(0 := M_end)\<rparr>)"

text \<open>The main thread of a data node.\<close>

inductive relay_main :: "nat \<Rightarrow> network \<Rightarrow> network \<Rightarrow> bool" for i where
  start_serving: "main net i = M_serve \<Longrightarrow>
    relay_main i net (net\<lparr>main := (main net)(i := M_relay)\<rparr>)"
| relay_task: "main net i = M_relay \<Longrightarrow>
    get_task default_migration (own_pool (srv net i)) = Some (t, p) \<Longrightarrow> \<not> is_stop t \<Longrightarrow>
    relay_main i net (net\<lparr>srv := (srv net)(i := (srv net i)\<lparr>own_pool := p\<rparr>),
      cli := (cli net)(i := (cli net i)\<lparr>tasks := add_task t (tasks (cli net i))\<rparr>)\<rparr>)"
| relay_end: "main net i = M_relay \<Longrightarrow>
    get_task default_migration (own_pool (srv net i)) = Some (t, p) \<Longrightarrow> is_stop t \<Longrightarrow>
    relay_main i net (net\<lparr>main := (main net)(i := M_join),
      srv := (srv net)(i := (srv net i)\<lparr>own_pool := p\<rparr>),
      cli := (cli net)(i := finish_client (cli net i))\<rparr>)"
| join_threads: "main net i = M_join \<Longrightarrow> cpc net i = K_end \<Longrightarrow> serving (srv net i) = Finished \<Longrightarrow>
    relay_main i net (net\<lparr>main := (main net)(i := M_end)\<rparr>)"

text \<open>The client threads: \<open>start_client\<close> with one thread in \<open>run\<close>.\<close>

inductive client_step :: "cluster \<Rightarrow> nat \<Rightarrow> network \<Rightarrow> network \<Rightarrow> bool" for P i where
  all_flags: "cpc net i = K_wait \<Longrightarrow> \<forall>j \<in> set (connections (cli net i)). flagged net i j \<Longrightarrow>
    client_step P i net (net\<lparr>cpc := (cpc net)(i := K_idle (replicate (c_chunk (c_client P i)) 0))\<rparr>)"
| take_task: "cpc net i = K_idle buf \<Longrightarrow>
    get_task default_migration (tasks (cli net i)) = Some (t, p) \<Longrightarrow> \<not> is_stop t \<Longrightarrow>
    client_step P i net (net\<lparr>cpc := (cpc net)(i := K_busy t buf),
      cli := (cli net)(i := (cli net i)\<lparr>tasks := p\<rparr>)\<rparr>)"
| take_stop: "cpc net i = K_idle buf \<Longrightarrow>
    get_task default_migration (tasks (cli net i)) = Some (t, p) \<Longrightarrow> is_stop t \<Longrightarrow>
    client_step P i net (net\<lparr>cpc := (cpc net)(i := K_signal (connections (cli net i))),
      cli := (cli net)(i := (cli net i)\<lparr>tasks := p\<rparr>)\<rparr>)"
| send: "cpc net i = K_busy t buf \<Longrightarrow>
    send_task (c_client P i) (cli net i, buf) t = Some (Inr (c, buf')) \<Longrightarrow>
    client_step P i net ((publish i c net)\<lparr>cpc := (cpc net)(i := K_idle buf')\<rparr>)"
| send_exit: "cpc net i = K_busy t buf \<Longrightarrow>
    send_task (c_client P i) (cli net i, buf) t = Some (Inl x) \<Longrightarrow>
    client_step P i net (net\<lparr>exited := (exited net)(i := True)\<rparr>)"
| signal: "cpc net i = K_signal (j # js) \<Longrightarrow> conn_up (c_client P i) j \<Longrightarrow>
    client_step P i net ((publish i (write_conn j (encode_migration
        (raw_mem (c_client P i) default_migration) default_migration) (cli net i)) net)
      \<lparr>cpc := (cpc net)(i := K_signal js), shut := (shut net)(i := (shut net i)(j := True))\<rparr>)"
| signal_exit: "cpc net i = K_signal (j # js) \<Longrightarrow> \<not> conn_up (c_client P i) j \<Longrightarrow>
    client_step P i net (net\<lparr>exited := (exited net)(i := True)\<rparr>)"
| signal_end: "cpc net i = K_signal [] \<Longrightarrow>
    client_step P i net (net\<lparr>cpc := (cpc net)(i := K_end)\<rparr>)"

text \<open>
  The threads of the servers. After \<open>start_serving\<close> a handler first sends the start flag. The exit of
  the server's program is the flag \<open>down\<close> of its state.
\<close>

definition serving_started :: "network \<Rightarrow> nat \<Rightarrow> bool" where
  "serving_started net j \<longleftrightarrow> main net j \<in> {M_relay, M_join, M_end}"

inductive serve_net :: "cluster \<Rightarrow> nat \<Rightarrow> network \<Rightarrow> network \<Rightarrow> bool" for P j where
  send_flag: "serving_started net j \<Longrightarrow> i \<in> set (accepted net j) \<Longrightarrow> \<not> flagged net i j \<Longrightarrow>
    serve_net P j net (net\<lparr>flagged := (flagged net)(i := (flagged net i)(j := True))\<rparr>)"
| serve: "serving_started net j \<Longrightarrow> server_step (c_server P j) (srv net j) s' \<Longrightarrow>
    reads_arrived P net j s' \<Longrightarrow>
    serve_net P j net (net\<lparr>srv := (srv net)(j := s')\<rparr>)"

text \<open>The interleaving; the threads of a node that has exited do not move.\<close>

inductive net_step :: "cluster \<Rightarrow> network \<Rightarrow> network \<Rightarrow> bool" for P where
  by_launch: "i \<le> c_nodes P \<Longrightarrow> \<not> exited net i \<Longrightarrow> launch_step P i net net' \<Longrightarrow> net_step P net net'"
| by_master: "\<not> exited net 0 \<Longrightarrow> master_main net net' \<Longrightarrow> net_step P net net'"
| by_relay: "1 \<le> i \<Longrightarrow> i \<le> c_nodes P \<Longrightarrow> \<not> exited net i \<Longrightarrow> relay_main i net net' \<Longrightarrow> net_step P net net'"
| by_client: "i \<le> c_nodes P \<Longrightarrow> \<not> exited net i \<Longrightarrow> client_step P i net net' \<Longrightarrow> net_step P net net'"
| by_server: "1 \<le> j \<Longrightarrow> j \<le> c_nodes P \<Longrightarrow> \<not> exited net j \<Longrightarrow> serve_net P j net net' \<Longrightarrow>
    net_step P net net'"

inductive_cases launch_stepE: "launch_step P i net net'"
inductive_cases master_mainE: "master_main net net'"
inductive_cases relay_mainE: "relay_main i net net'"
inductive_cases client_stepE: "client_step P i net net'"
inductive_cases serve_netE: "serve_net P j net net'"
inductive_cases net_stepE: "net_step P net net'"

section \<open>The start\<close>

text \<open>All programs have read their configurations and nothing else has happened.\<close>

definition net_start :: "cluster \<Rightarrow> network \<Rightarrow> bool" where
  "net_start P net \<longleftrightarrow>
     (\<forall>i. main net i = (if i = 0 then M_connect else M_new)) \<and> (\<forall>i. cpc net i = K_none) \<and>
     (\<forall>i. cli net i = blank_client i (targets (c_config P i)) 1) \<and>
     (\<forall>j. backlog net j = [] \<and> accepted net j = []) \<and>
     (\<forall>i j. \<not> linked net i j \<and> \<not> flagged net i j \<and> \<not> shut net i j) \<and> (\<forall>i. \<not> exited net i)"

end
