(* ===== verification/Network_Server.thy ===== *)
theory Network_Server
  imports Network
begin

text \<open>
  The servers of the network. A server whose handlers already hold all bytes that will arrive takes
  the same steps as one that gets them in time, because a thread reads only what has arrived: what is
  known of the runs of a server on complete streams holds for the servers of a running network.
\<close>

section \<open>Bytes that arrive\<close>

lemma feed_append [simp]: "feed b (feed a h) = feed (a @ b) h"
  by (cases h) simp_all

lemma feed_Nil [simp]: "feed [] h = h"
  by (cases h) simp_all

lemma feed_closed [simp]: "feed bs h = Closed \<longleftrightarrow> h = Closed"
  by (cases h) simp_all

lemma feed_master [simp]: "is_master (feed bs h) = is_master h"
  by (cases h) simp_all

abbreviation fed :: "(nat \<Rightarrow> byte list) \<Rightarrow> nat list \<Rightarrow> handler list \<Rightarrow> handler list" where
  "fed new \<equiv> map2 (\<lambda>y h. feed (new y) h)"

lemma arrive_simps [simp]:
  "handlers (arrive new ps s) = fed new ps (handlers s)"
  "mem (arrive new ps s) = mem s" "mem_pool (arrive new ps s) = mem_pool s"
  "c_worker (arrive new ps s) = c_worker s" "w_worker (arrive new ps s) = w_worker s"
  "own_pool (arrive new ps s) = own_pool s" "computers (arrive new ps s) = computers s"
  "writers (arrive new ps s) = writers s" "serving (arrive new ps s) = serving s"
  "stored (arrive new ps s) = stored s" "down (arrive new ps s) = down s"
  by (simp_all add: arrive_def)

lemma arrive_arrive:
  "length ps = length (handlers s) \<Longrightarrow>
    arrive b ps (arrive a ps s) = arrive (\<lambda>y. a y @ b y) ps s"
proof -
  assume l: "length ps = length (handlers s)"
  have "fed b ps (fed a ps (handlers s)) = fed (\<lambda>y. a y @ b y) ps (handlers s)"
    using l by (intro nth_equalityI) simp_all
  then show ?thesis by (simp add: arrive_def)
qed

lemma arrive_cong:
  "(\<And>y. y \<in> set ps \<Longrightarrow> a y = b y) \<Longrightarrow> arrive a ps s = arrive b ps s"
proof -
  assume "\<And>y. y \<in> set ps \<Longrightarrow> a y = b y"
  then have "fed a ps (handlers s) = fed b ps (handlers s)"
    by (intro nth_equalityI) simp_all
  then show ?thesis by (simp add: arrive_def)
qed

lemma arrive_nothing:
  assumes "length ps = length (handlers s)" and "\<And>y. y \<in> set ps \<Longrightarrow> new y = []"
  shows "arrive new ps s = s"
proof -
  have "fed new ps (handlers s) = handlers s"
    using assms by (intro nth_equalityI) simp_all
  then show ?thesis by (simp add: arrive_def)
qed

section \<open>The steps of a server that gets its bytes in time\<close>

text \<open>The connections around a handler.\<close>

lemma fed_split:
  assumes "length ps = length (hs @ h # hs')"
  shows "fed new ps (hs @ h2 # hs') = fed new (take (length hs) ps) hs @
    feed (new (ps ! length hs)) h2 # fed new (drop (Suc (length hs)) ps) hs'"
proof -
  let ?n = "length hs"
  have "ps = take ?n ps @ ps ! ?n # drop (Suc ?n) ps" using assms by (simp add: id_take_nth_drop)
  then have "zip ps (hs @ h2 # hs') = zip (take ?n ps @ ps ! ?n # drop (Suc ?n) ps) (hs @ h2 # hs')"
    by simp
  also have "\<dots> = zip (take ?n ps) hs @ (ps ! ?n, h2) # zip (drop (Suc ?n) ps) hs'"
    using assms by (subst zip_append) simp_all
  finally show ?thesis by simp
qed

text \<open>The handlers that move are given their bytes first, or the connection has no more.\<close>

definition in_time :: "nat \<Rightarrow> (nat \<Rightarrow> byte list) \<Rightarrow> nat list \<Rightarrow> server \<Rightarrow> server \<Rightarrow> bool" where
  "in_time chunk new ps s s' \<longleftrightarrow> (\<forall>p < length (handlers s). handlers s' ! p \<noteq> handlers s ! p \<longrightarrow>
     new (ps ! p) = [] \<or> can_read chunk False (handlers s ! p))"

lemma in_time_at:
  "in_time chunk new ps s s' \<Longrightarrow> handlers s = hs @ h # hs' \<Longrightarrow> handlers s' = hs @ h2 # hs' \<Longrightarrow>
    h2 \<noteq> h \<Longrightarrow> new (ps ! length hs) = [] \<or> can_read chunk False h"
  by (drule in_time_def [THEN iffD1, rule_format, of _ _ _ _ _ "length hs"]) (auto simp: nth_append)

lemma arrive_receive:
  assumes "receive_step e s s'" and rd: "\<And>n x. sock_read (env_lib e) n x = (take n x, drop n x)"
    and len: "length ps = length (handlers s)" and mem: "\<And>b. length (mem s b) = chunk_size e"
    and time: "in_time (chunk_size e) new ps s s'"
  shows "receive_step e (arrive new ps s) (arrive new ps s')"
  using assms(1)
proof cases
  case (recv_header hs str hs' h str' b mp)
  let ?as = "take (length hs) ps" and ?y = "ps ! length hs" and ?bs = "drop (Suc (length hs)) ps"
  have sp: "fed new ps (hs @ h # hs') = fed new ?as hs @ feed (new ?y) h # fed new ?bs hs'" for h
    using len recv_header(2) by (intro fed_split) simp
  from recv_header rd have h: "h = take header_size str" "str' = drop header_size str"
    "header_size \<le> length str" by auto
  have "receive_step e (arrive new ps s) ((arrive new ps s)\<lparr>mem_pool := mp, handlers := fed new ?as hs @
      Filling ((decode_migration h)\<lparr>mem_ptr := Some b\<rparr>) (str' @ new ?y) # fed new ?bs hs'\<rparr>)"
    by (rule receive_step.recv_header [where str = "str @ new ?y"])
      (use recv_header h in \<open>simp_all add: sp rd\<close>)
  then show ?thesis using recv_header(1) by (simp add: arrive_def sp)
next
  case (recv_end hs str hs' h str')
  let ?as = "take (length hs) ps" and ?y = "ps ! length hs" and ?bs = "drop (Suc (length hs)) ps"
  have sp: "fed new ps (hs @ h # hs') = fed new ?as hs @ feed (new ?y) h # fed new ?bs hs'" for h
    using len recv_end(2) by (intro fed_split) simp
  have "new ?y = [] \<or> header_size \<le> length str"
    using in_time_at [OF time recv_end(2)] recv_end(1) by simp
  then have "take header_size (str @ new ?y) = h" using recv_end(3) rd by auto
  then have "receive_step e (arrive new ps s) ((arrive new ps s)\<lparr>handlers := fed new ?as hs @ Closed # fed new ?bs hs'\<rparr>)"
    by (intro receive_step.recv_end [where str = "str @ new ?y" and h = h])
      (use recv_end in \<open>simp_all add: sp rd\<close>)
  then show ?thesis using recv_end(1) by (simp add: arrive_def sp)
next
  case (recv_chunk hs t str hs' b c buf str')
  let ?as = "take (length hs) ps" and ?y = "ps ! length hs" and ?bs = "drop (Suc (length hs)) ps"
  have sp: "fed new ps (hs @ h # hs') = fed new ?as hs @ feed (new ?y) h # fed new ?bs hs'" for h
    using len recv_chunk(2) by (intro fed_split) simp
  have enough: "new ?y = [] \<or> chunk_size e \<le> length str"
    using in_time_at [OF time recv_chunk(2)] recv_chunk(1) by simp
  have st: "stream_reader (sock_read (env_lib e))"
    using rd by (intro reads_fully_stream) (simp add: reads_fully_def)
  have "recv_loop (sock_read (env_lib e)) 0 (chunk_size e) (str @ new ?y) (mem s b) = (buf, str' @ new ?y)"
    using recv_loop_eq [OF st, of 0 "chunk_size e" "mem s b"] recv_chunk(5) mem [of b] enough
    by (auto simp: le_diff_conv)
  with receive_step.recv_chunk [of "arrive new ps s" "fed new ?as hs" t "str @ new ?y" "fed new ?bs hs'" b c e]
    recv_chunk(2-4)
  have "receive_step e (arrive new ps s) ((arrive new ps s)\<lparr>mem := (mem s)(b := buf),
      handlers := fed new ?as hs @ Reading (str' @ new ?y) # fed new ?bs hs',
      c_worker := (if c \<noteq> 0 then add_task t (c_worker s) else c_worker s),
      w_worker := (if c \<noteq> 0 then w_worker s else add_task t (w_worker s))\<rparr>)"
    by (simp only: arrive_simps sp feed.simps)
  moreover have "arrive new ps s' = (arrive new ps s)\<lparr>mem := (mem s)(b := buf),
      handlers := fed new ?as hs @ Reading (str' @ new ?y) # fed new ?bs hs',
      c_worker := (if c \<noteq> 0 then add_task t (c_worker s) else c_worker s),
      w_worker := (if c \<noteq> 0 then w_worker s else add_task t (w_worker s))\<rparr>"
    using recv_chunk(1) by (simp add: arrive_def sp)
  ultimately show ?thesis by (simp only:)
qed

lemma arrive_master:
  assumes "master_step e s s'" and rd: "\<And>n x. sock_read (env_lib e) n x = (take n x, drop n x)"
    and len: "length ps = length (handlers s)" and time: "in_time (chunk_size e) new ps s s'"
  shows "master_step e (arrive new ps s) (arrive new ps s')"
  using assms(1)
proof cases
  case (master_task hs str hs' h str')
  let ?as = "take (length hs) ps" and ?y = "ps ! length hs" and ?bs = "drop (Suc (length hs)) ps"
  have sp: "fed new ps (hs @ h # hs') = fed new ?as hs @ feed (new ?y) h # fed new ?bs hs'" for h
    using len master_task(2) by (intro fed_split) simp
  from master_task rd have h: "h = take header_size str" "str' = drop header_size str"
    "header_size \<le> length str" by auto
  have "master_step e (arrive new ps s) ((arrive new ps s)\<lparr>own_pool := add_task (decode_migration h) (own_pool s),
      handlers := fed new ?as hs @ Master (str' @ new ?y) # fed new ?bs hs'\<rparr>)"
    using master_step.master_task [of "arrive new ps s" "fed new ?as hs" "str @ new ?y" "fed new ?bs hs'" e h]
      master_task h by (simp add: sp rd)
  then show ?thesis using master_task(1) by (simp add: arrive_def sp)
next
  case (master_end hs str hs' str')
  let ?as = "take (length hs) ps" and ?y = "ps ! length hs" and ?bs = "drop (Suc (length hs)) ps"
  have sp: "fed new ps (hs @ h # hs') = fed new ?as hs @ feed (new ?y) h # fed new ?bs hs'" for h
    using len master_end(2) by (intro fed_split) simp
  have "str = []" using master_end(3) rd by simp
  moreover have "new ?y = [] \<or> header_size \<le> length str"
    using in_time_at [OF time master_end(2)] master_end(1) by simp
  ultimately have "str @ new ?y = []" by simp
  with master_step.master_end [of "arrive new ps s" "fed new ?as hs" "str @ new ?y" "fed new ?bs hs'" e]
    master_end show ?thesis by (simp add: arrive_def sp rd)
qed

text \<open>The workers and the serving thread do not look into the sockets.\<close>

lemma arrive_update [simp]:
  "arrive new ps (s\<lparr>mem := m\<rparr>) = (arrive new ps s)\<lparr>mem := m\<rparr>"
  "arrive new ps (s\<lparr>mem_pool := mp\<rparr>) = (arrive new ps s)\<lparr>mem_pool := mp\<rparr>"
  "arrive new ps (s\<lparr>c_worker := p\<rparr>) = (arrive new ps s)\<lparr>c_worker := p\<rparr>"
  "arrive new ps (s\<lparr>w_worker := p\<rparr>) = (arrive new ps s)\<lparr>w_worker := p\<rparr>"
  "arrive new ps (s\<lparr>own_pool := p\<rparr>) = (arrive new ps s)\<lparr>own_pool := p\<rparr>"
  "arrive new ps (s\<lparr>computers := cs\<rparr>) = (arrive new ps s)\<lparr>computers := cs\<rparr>"
  "arrive new ps (s\<lparr>writers := ws\<rparr>) = (arrive new ps s)\<lparr>writers := ws\<rparr>"
  "arrive new ps (s\<lparr>serving := x\<rparr>) = (arrive new ps s)\<lparr>serving := x\<rparr>"
  "arrive new ps (s\<lparr>stored := fs\<rparr>) = (arrive new ps s)\<lparr>stored := fs\<rparr>"
  "arrive new ps (s\<lparr>down := d\<rparr>) = (arrive new ps s)\<lparr>down := d\<rparr>"
  by (simp_all add: arrive_def)

lemma arrive_compute:
  "compute_step e s s' \<Longrightarrow> compute_step e (arrive new ps s) (arrive new ps s')"
proof (erule compute_step.cases, goal_cases)
  case (1 s cs buf cs' t cp)
  then show ?case using compute_get [of "arrive new ps s" cs buf cs' t cp e] by simp
next
  case (2 s cs buf cs' t cp)
  then show ?case using compute_stop [of "arrive new ps s" cs buf cs' t cp e] by simp
next
  case (3 s cs t buf cs' b block' buf')
  then show ?case using compute_do [of "arrive new ps s" cs t buf cs' b e block' buf'] by simp
next
  case (4 s cs t buf cs' b st)
  then show ?case using compute_exit [of "arrive new ps s" cs t buf cs' b e st] by simp
qed

lemma arrive_write:
  "write_step e s s' \<Longrightarrow> write_step e (arrive new ps s) (arrive new ps s')"
proof (erule write_step.cases, goal_cases)
  case (1 s ws ws' t wp)
  then show ?case using write_get [of "arrive new ps s" ws ws' t wp e] by simp
next
  case (2 s ws ws' t wp)
  then show ?case using write_stop [of "arrive new ps s" ws ws' t wp e] by simp
next
  case (3 s ws t ws' b fn)
  then show ?case using write_do [of "arrive new ps s" ws t ws' b fn e] by simp
next
  case (4 s ws t ws' fn)
  then show ?case using write_exit [of "arrive new ps s" ws t ws' fn e] by simp
qed

lemma arrive_serve:
  assumes "serve_step s s'" and "length ps = length (handlers s)"
  shows "serve_step (arrive new ps s) (arrive new ps s')"
  using assms(1)
proof cases
  case serve_join
  have "\<forall>h \<in> set (fed new ps (handlers s)). h = Closed"
    using serve_join(3) assms(2) by (auto simp: set_zip)
  with serve_join serve_step.serve_join [of "arrive new ps s"] show ?thesis by simp
next
  case serve_finish
  with serve_step.serve_finish [of "arrive new ps s"] show ?thesis by simp
qed

lemma arrive_step:
  assumes "server_step e s s'" and "reads_fully (sock_read (env_lib e))"
    and "length ps = length (handlers s)" and "\<And>b. length (mem s b) = chunk_size e"
    and "in_time (chunk_size e) new ps s s'"
  shows "server_step e (arrive new ps s) (arrive new ps s')"
proof -
  have rd: "sock_read (env_lib e) n x = (take n x, drop n x)" for n x
    using assms(2) by (simp add: reads_fully_def)
  from assms(1) show ?thesis
  proof cases
    case step_receive
    show ?thesis
      using arrive_receive [OF step_receive(2) rd assms(3-5)] step_receive(1)
      by (intro server_step.step_receive) simp_all
  next
    case step_master
    show ?thesis
      using arrive_master [OF step_master(2) rd assms(3,5)] step_master(1)
      by (intro server_step.step_master) simp_all
  next
    case step_compute
    show ?thesis
      using arrive_compute [OF step_compute(2)] step_compute(1)
      by (intro server_step.step_compute) simp_all
  next
    case step_write
    show ?thesis
      using arrive_write [OF step_write(2)] step_write(1) by (intro server_step.step_write) simp_all
  next
    case step_serve
    show ?thesis
      using arrive_serve [OF step_serve(2) assms(3)] step_serve(1)
      by (intro server_step.step_serve) simp_all
  qed
qed

lemma handlers_step: "server_step e s s' \<Longrightarrow> length (handlers s') = length (handlers s)"
  by (auto elim!: step_elims)

text \<open>A thread whose socket is closed has ended.\<close>

lemma closed_stays:
  "server_step e s s' \<Longrightarrow> p < length (handlers s) \<Longrightarrow> handlers s ! p = Closed \<Longrightarrow> handlers s' ! p = Closed"
  by (auto elim!: step_elims simp: nth_append nth_Cons split: nat.splits if_splits)

text \<open>No handler becomes the handler of the master's connection.\<close>

lemma master_stays:
  "server_step e s s' \<Longrightarrow> p < length (handlers s) \<Longrightarrow> is_master (handlers s' ! p) \<Longrightarrow>
    is_master (handlers s ! p)"
  by (auto elim!: step_elims simp: nth_append nth_Cons split: nat.splits if_splits)

lemma can_read_eof: "can_read chunk True h \<longleftrightarrow> h \<noteq> Closed"
  by (cases h) simp_all

section \<open>The own queue\<close>

text \<open>What is known of a server does not depend on the queue that the main thread reads.\<close>

lemma own_pool_irrelevant [simp]:
  "server_inv e m addrs (s\<lparr>own_pool := p\<rparr>) = server_inv e m addrs s"
  "outputs e k (s\<lparr>own_pool := p\<rparr>) = outputs e k s"
  "inv_single (s\<lparr>own_pool := p\<rparr>) = inv_single s"
  "weight n (s\<lparr>own_pool := p\<rparr>) = weight n s"
  by (simp_all add: server_inv_def inv_own_def inv_task_def inv_phase_def flight_defs outputs_def
      inv_single_def weight_def)

end
