(* ===== verification/Network_Inv.thy ===== *)
theory Network_Inv
  imports Network_Server
begin

text \<open>
  The invariant of a running network. What a client still has to send is known from the start: its
  agenda. \<open>full\<close> is a server whose handlers already hold everything that will arrive; the steps of the
  clients do not change it. For every node the agenda is what it has sent, the task in its client's
  hand, the client's queue, and what the main thread will still add to it.
\<close>

section \<open>A deployment\<close>

text \<open>
  What the nodes rely on: each client has its node's memory and file, each server its tables, file and
  directories, and chunk buffers.
\<close>

definition cluster_ready :: "cluster \<Rightarrow> nat \<Rightarrow> nat \<Rightarrow> nat \<Rightarrow> (nat \<Rightarrow> migration \<Rightarrow> byte list) \<Rightarrow>
    (nat \<Rightarrow> byte list) \<Rightarrow> bool" where
  "cluster_ready P k m chunk raw std \<longleftrightarrow> memory_ok chunk raw std \<and> 0 < c_workers P \<and>
     (\<forall>i \<le> c_nodes P. c_client P i = node_env chunk raw std i) \<and>
     (\<forall>j. 1 \<le> j \<and> j \<le> c_nodes P \<longrightarrow> chunk_size (c_server P j) = chunk \<and>
       node_server_ok (c_server P j) k m (c_nodes P) j std \<and> distinct (c_addrs P j) \<and> c_addrs P j \<noteq> [])"

text \<open>A cluster with what its nodes hold: the parameters of the code, the memory and files of the
  clients.\<close>

record deployment =
  d_cluster :: cluster
  d_k :: nat
  d_m :: nat
  d_chunk :: nat
  d_raw :: "nat \<Rightarrow> migration \<Rightarrow> byte list"
  d_std :: "nat \<Rightarrow> byte list"

abbreviation d_nodes :: "deployment \<Rightarrow> nat" where
  "d_nodes Q \<equiv> c_nodes (d_cluster Q)"

abbreviation d_env :: "deployment \<Rightarrow> nat \<Rightarrow> server_env" where
  "d_env Q \<equiv> c_server (d_cluster Q)"

abbreviation d_tasks :: "deployment \<Rightarrow> migration list" where
  "d_tasks Q \<equiv> c_tasks (d_cluster Q)"

abbreviation d_addrs :: "deployment \<Rightarrow> nat \<Rightarrow> nat list" where
  "d_addrs Q \<equiv> c_addrs (d_cluster Q)"

abbreviation d_workers :: "deployment \<Rightarrow> nat" where
  "d_workers Q \<equiv> c_workers (d_cluster Q)"

text \<open>The nodes that connect to node \<open>j\<close>, and those node \<open>i\<close> connects to.\<close>

definition d_peers :: "deployment \<Rightarrow> nat \<Rightarrow> nat list" where
  "d_peers Q j = filter (\<lambda>i. i \<noteq> j) [0..<Suc (d_nodes Q)]"

definition client_shape :: "nat \<Rightarrow> nat \<Rightarrow> client \<Rightarrow> bool" where
  "client_shape n i c \<longleftrightarrow> node_index c = i \<and> multi c \<and> n < conn_num c + 2 \<and>
     connections c = filter (\<lambda>j. j \<noteq> i) [1..<Suc n]"

definition deployed :: "deployment \<Rightarrow> bool" where
  "deployed Q \<longleftrightarrow> d_nodes Q < 1000 \<and> (\<forall>t \<in> set (d_tasks Q). \<exists>i. prepared (d_nodes Q) (d_m Q) i t) \<and>
     cluster_ready (d_cluster Q) (d_k Q) (d_m Q) (d_chunk Q) (d_raw Q) (d_std Q) \<and>
     (\<forall>i \<le> d_nodes Q. links (d_cluster Q) i = filter (\<lambda>j. j \<noteq> i) [1..<Suc (d_nodes Q)] \<and>
       client_shape (d_nodes Q) i (blank_client i (targets (c_config (d_cluster Q) i)) 1))"

lemmas deployed_defs = deployed_def cluster_ready_def

section \<open>What is still to come\<close>

definition agenda :: "deployment \<Rightarrow> nat \<Rightarrow> migration list" where
  "agenda Q i = (if i = 0 then d_tasks Q else relayed (d_raw Q) i (d_tasks Q))"

definition task_msg :: "deployment \<Rightarrow> nat \<Rightarrow> migration \<Rightarrow> byte list" where
  "task_msg Q i t = encode_migration (d_raw Q i t) t @
     (if i \<noteq> 0 then take (d_chunk Q) (d_std Q i) else [])"

definition stop_msg :: "deployment \<Rightarrow> nat \<Rightarrow> byte list" where
  "stop_msg Q i = encode_migration (d_raw Q i default_migration) default_migration"

definition stream :: "deployment \<Rightarrow> nat \<Rightarrow> nat \<Rightarrow> migration list \<Rightarrow> byte list" where
  "stream Q i j us = concat (map (task_msg Q i)
     (filter (\<lambda>t. (if i \<noteq> 0 then target t else source t) = int j) us))"

definition future :: "deployment \<Rightarrow> network \<Rightarrow> nat \<Rightarrow> nat \<Rightarrow> byte list" where
  "future Q net i j = drop (length (outgoing (cli net i) j) - 2)
     (stream Q i j (agenda Q i) @ stop_msg Q i)"

abbreviation master_stream :: "deployment \<Rightarrow> nat \<Rightarrow> byte list" where
  "master_stream Q j \<equiv> stream Q 0 j (d_tasks Q) @ stop_msg Q 0"

text \<open>A server that has received nothing, on complete streams from the nodes \<open>ps\<close>.\<close>

definition start_server :: "deployment \<Rightarrow> nat \<Rightarrow> nat list \<Rightarrow> server" where
  "start_server Q j ps = new_server (d_addrs Q j) (d_workers Q) (d_chunk Q)
     (node_handlers (d_chunk Q) (d_raw Q) (d_std Q) (d_tasks Q) j ps (master_stream Q j))"

text \<open>Before it serves, a node's server is represented by the one that it is going to be.\<close>

definition early :: "main_pc \<Rightarrow> bool" where
  "early m \<longleftrightarrow> m \<in> {M_new, M_connect, M_accept}"

lemma early_simps [simp]:
  "early M_new" "early M_connect" "early M_accept" "\<not> early (M_submit ts)" "\<not> early M_serve"
  "\<not> early M_relay" "\<not> early M_join" "\<not> early M_end"
  by (simp_all add: early_def)

definition full :: "deployment \<Rightarrow> network \<Rightarrow> nat \<Rightarrow> server" where
  "full Q net j = (if j = 0 \<or> early (main net j) then start_server Q j (d_peers Q j)
     else arrive (\<lambda>i. future Q net i j) (accepted net j) (srv net j))"

section \<open>The invariant of a node\<close>

fun in_hand :: "client_pc \<Rightarrow> migration list" where
  "in_hand (K_busy t buf) = [t]"
| "in_hand k = []"

definition pending :: "server \<Rightarrow> migration list" where
  "pending s = takeWhile (\<lambda>t. \<not> is_stop t) (own_total s)"

fun to_add :: "deployment \<Rightarrow> nat \<Rightarrow> main_pc \<Rightarrow> server \<Rightarrow> migration list" where
  "to_add Q i (M_submit ts) s = ts"
| "to_add Q i M_join s = []"
| "to_add Q i M_end s = []"
| "to_add Q i _ s = (if i = 0 then d_tasks Q else pending s)"

definition stop_to_come :: "server \<Rightarrow> bool" where
  "stop_to_come s \<longleftrightarrow> (\<exists>t \<in> set (own_total s). is_stop t)"

fun main_ok :: "nat \<Rightarrow> main_pc \<Rightarrow> client_pc \<Rightarrow> server \<Rightarrow> bool" where
  "main_ok i (M_submit ts) k s \<longleftrightarrow> i = 0 \<and> k \<noteq> K_none"
| "main_ok i M_new k s \<longleftrightarrow> i \<noteq> 0 \<and> k = K_none \<and> stop_to_come s"
| "main_ok i M_connect k s \<longleftrightarrow> k = K_none \<and> (i \<noteq> 0 \<longrightarrow> stop_to_come s)"
| "main_ok i M_join k s \<longleftrightarrow> k \<noteq> K_none"
| "main_ok i M_end k s \<longleftrightarrow> k = K_end \<and> (i = 0 \<or> serving s = Finished)"
| "main_ok i _ k s \<longleftrightarrow> i \<noteq> 0 \<and> k \<noteq> K_none \<and> stop_to_come s"

text \<open>The phases of a client thread with its connections \<open>js\<close>: which of them it has made and which
  closed, whether
  the servers have sent the start flag, and that nothing is left to send once it closes them.\<close>

fun phase_ok :: "nat list \<Rightarrow> client_pc \<Rightarrow> (nat \<Rightarrow> bool) \<Rightarrow> (nat \<Rightarrow> bool) \<Rightarrow> (nat \<Rightarrow> bool) \<Rightarrow>
    migration list \<Rightarrow> bool" where
  "phase_ok js K_none lk sh fl todo \<longleftrightarrow> (\<forall>j \<in> set js. \<not> sh j)"
| "phase_ok js K_wait lk sh fl todo \<longleftrightarrow> (\<forall>j \<in> set js. lk j \<and> \<not> sh j)"
| "phase_ok js (K_idle buf) lk sh fl todo \<longleftrightarrow> (\<forall>j \<in> set js. lk j \<and> \<not> sh j \<and> fl j)"
| "phase_ok js (K_busy t buf) lk sh fl todo \<longleftrightarrow> (\<forall>j \<in> set js. lk j \<and> \<not> sh j \<and> fl j)"
| "phase_ok js (K_signal is) lk sh fl todo \<longleftrightarrow> todo = [] \<and> distinct is \<and> set is \<subseteq> set js \<and>
     (\<forall>j \<in> set js. lk j \<and> fl j \<and> (sh j \<longleftrightarrow> j \<notin> set is))"
| "phase_ok js K_end lk sh fl todo \<longleftrightarrow> todo = [] \<and> (\<forall>j \<in> set js. lk j \<and> sh j \<and> fl j)"

definition client_ok :: "deployment \<Rightarrow> nat \<Rightarrow> client \<Rightarrow> client_pc \<Rightarrow> (nat \<Rightarrow> bool) \<Rightarrow> (nat \<Rightarrow> bool) \<Rightarrow>
    (nat \<Rightarrow> bool) \<Rightarrow> migration list \<Rightarrow> bool" where
  "client_ok Q i c k lk sh fl todo \<longleftrightarrow> client_shape (d_nodes Q) i c \<and>
     (\<exists>don. agenda Q i = don @ in_hand k @ task_queue (tasks c) @ todo \<and>
       (k = K_none \<or> k = K_wait \<longrightarrow> don = []) \<and>
       (\<forall>j \<in> set (connections c). outgoing c j = (if lk j then le_bytes 2 i else []) @
         stream Q i j don @ (if sh j then stop_msg Q i else []))) \<and>
     phase_ok (connections c) k lk sh fl (task_queue (tasks c) @ todo)"

definition server_ok :: "deployment \<Rightarrow> nat \<Rightarrow> server \<Rightarrow> bool" where
  "server_ok Q j s \<longleftrightarrow> server_inv (d_env Q j) (d_m Q) (d_addrs Q j) s \<and>
     outputs (d_env Q j) (d_k Q) s = deliveries (d_env Q j) (d_k Q) (d_std Q) j (d_tasks Q) \<and>
     inv_queue s \<and> length (computers s) = d_workers Q \<and> length (writers s) = d_workers Q \<and>
     (d_workers Q = 1 \<longrightarrow> inv_single s)"

text \<open>The handlers of a server belong to the connections it has accepted.\<close>

definition handlers_ok :: "nat list \<Rightarrow> server \<Rightarrow> bool" where
  "handlers_ok ps s \<longleftrightarrow> length (handlers s) = length ps \<and>
     (\<forall>p < length ps. is_master (handlers s ! p) \<longrightarrow> ps ! p = 0)"

definition node_ok :: "deployment \<Rightarrow> network \<Rightarrow> nat \<Rightarrow> bool" where
  "node_ok Q net i \<longleftrightarrow>
     client_ok Q i (cli net i) (cpc net i) (linked net i) (shut net i) (flagged net i)
       (to_add Q i (main net i) (full Q net i)) \<and>
     (seal_flag (tasks (cli net i)) \<longleftrightarrow> main net i = M_join \<or> main net i = M_end) \<and>
     main_ok i (main net i) (cpc net i) (full Q net i) \<and>
     (i \<noteq> 0 \<longrightarrow> server_ok Q i (full Q net i)) \<and>
     (i \<noteq> 0 \<longrightarrow> \<not> early (main net i) \<longrightarrow> handlers_ok (accepted net i) (srv net i))"

text \<open>The connections of a server are those that the others have made; a server that serves has
  accepted them all, and one that does not has not sent a start flag.\<close>

definition links_ok :: "nat \<Rightarrow> network \<Rightarrow> nat \<Rightarrow> bool" where
  "links_ok n net j \<longleftrightarrow> distinct (accepted net j @ backlog net j) \<and>
     set (accepted net j @ backlog net j) = {i. i \<le> n \<and> i \<noteq> j \<and> linked net i j} \<and>
     (main net j = M_new \<longrightarrow> (\<forall>i. \<not> linked net i j)) \<and>
     (early (main net j) \<longrightarrow> (\<forall>i. \<not> flagged net i j)) \<and>
     length (accepted net j) \<le> n \<and> (\<not> early (main net j) \<longrightarrow> length (accepted net j) = n)"

definition net_inv :: "deployment \<Rightarrow> network \<Rightarrow> bool" where
  "net_inv Q net \<longleftrightarrow> deployed Q \<and> (\<forall>i \<le> d_nodes Q. \<not> exited net i \<and> node_ok Q net i) \<and>
     (\<forall>j. 1 \<le> j \<and> j \<le> d_nodes Q \<longrightarrow> links_ok (d_nodes Q) net j)"

section \<open>The weight of a network\<close>

fun main_weight :: "deployment \<Rightarrow> main_pc \<Rightarrow> nat" where
  "main_weight Q M_new = 3 * length (d_tasks Q) + 7"
| "main_weight Q M_connect = 3 * length (d_tasks Q) + 6"
| "main_weight Q M_accept = 5"
| "main_weight Q (M_submit ts) = 3 * length ts + 3"
| "main_weight Q M_serve = 4"
| "main_weight Q M_relay = 3"
| "main_weight Q M_join = 1"
| "main_weight Q M_end = 0"

fun client_weight :: "nat \<Rightarrow> client_pc \<Rightarrow> nat" where
  "client_weight n K_none = n + 4"
| "client_weight n K_wait = n + 4"
| "client_weight n (K_idle buf) = n + 3"
| "client_weight n (K_busy t buf) = n + 4"
| "client_weight n (K_signal js) = length js + 1"
| "client_weight n K_end = 0"

text \<open>The connections of node \<open>i\<close> that have not been made, and those that have not been accepted.\<close>

definition link_weight :: "deployment \<Rightarrow> network \<Rightarrow> nat \<Rightarrow> nat" where
  "link_weight Q net i = sum_list (map (\<lambda>j. if \<not> linked net i j then 2
     else if i \<notin> set (accepted net j) then 1 else 0) (links (d_cluster Q) i))"

definition server_weight :: "deployment \<Rightarrow> network \<Rightarrow> nat \<Rightarrow> nat" where
  "server_weight Q net j = (if j = 0 then 0 else 3 * length (own_total (full Q net j)) +
     weight (d_chunk Q) (full Q net j) + length (filter (\<lambda>i. \<not> flagged net i j) (d_peers Q j)))"

definition node_weight :: "deployment \<Rightarrow> network \<Rightarrow> nat \<Rightarrow> nat" where
  "node_weight Q net i = main_weight Q (main net i) + 2 * length (task_queue (tasks (cli net i))) +
     client_weight (d_nodes Q) (cpc net i) + link_weight Q net i + server_weight Q net i"

definition net_weight :: "deployment \<Rightarrow> network \<Rightarrow> nat" where
  "net_weight Q net = (\<Sum>i \<le> d_nodes Q. node_weight Q net i)"

section \<open>Messages\<close>

lemma deployed_server:
  assumes "deployed Q" and "1 \<le> j" and "j \<le> d_nodes Q"
  shows "chunk_size (d_env Q j) = d_chunk Q" "env_ok (d_env Q j) (d_k Q) (d_m Q)"
    "node_server_ok (d_env Q j) (d_k Q) (d_m Q) (d_nodes Q) j (d_std Q)"
    "distinct (d_addrs Q j)" "d_addrs Q j \<noteq> []" "0 < d_workers Q"
    "reads_fully (sock_read (env_lib (d_env Q j)))"
  using assms by (auto simp: deployed_defs node_server_ok_def env_ok_def)

lemma d_peers: "distinct (d_peers Q j)" "set (d_peers Q j) = {0..d_nodes Q} - {j}"
  by (auto simp: d_peers_def)

text \<open>A server that serves has a connection from every other node.\<close>

lemma serving_peers:
  assumes "net_inv Q net" and "1 \<le> j" and "j \<le> d_nodes Q" and "\<not> early (main net j)"
  shows "distinct (accepted net j)" "set (accepted net j) = {0..d_nodes Q} - {j}"
    "mset (accepted net j) = mset (d_peers Q j)"
proof -
  have k: "links_ok (d_nodes Q) net j" using assms by (simp add: net_inv_def)
  have "set (accepted net j) \<subseteq> set (accepted net j @ backlog net j)" by simp
  also have "\<dots> \<subseteq> {0..d_nodes Q} - {j}" using k by (auto simp: links_ok_def)
  finally have l: "distinct (accepted net j)" "set (accepted net j) \<subseteq> {0..d_nodes Q} - {j}"
    "length (accepted net j) = d_nodes Q"
    using k assms(4) by (simp_all add: links_ok_def)
  then have "card (set (accepted net j)) = card ({0..d_nodes Q} - {j})"
    using assms(2,3) distinct_card [OF l(1)] by simp
  then show s: "set (accepted net j) = {0..d_nodes Q} - {j}"
    using l(2) by (intro card_subset_eq) simp_all
  show "distinct (accepted net j)" by (rule l(1))
  then show "mset (accepted net j) = mset (d_peers Q j)"
    using s d_peers [of Q j] set_eq_iff_mset_eq_distinct by metis
qed

lemma agenda_proper:
  assumes "deployed Q" and "t \<in> set (agenda Q i)" and "i \<le> d_nodes Q"
  shows "proper_task (d_nodes Q) (d_m Q) t" "i \<noteq> 0 \<Longrightarrow> source t = int i" "\<not> is_stop t"
    "source t \<noteq> target t"
proof -
  have "proper_task (d_nodes Q) (d_m Q) t \<and> (i \<noteq> 0 \<longrightarrow> source t = int i)"
  proof (cases "i = 0")
    case True
    then show ?thesis using assms by (auto simp: agenda_def deployed_defs prepared_def)
  next
    case False
    then show ?thesis
      using assms relayed_proper [of "d_tasks Q" "d_nodes Q" "d_m Q" "d_chunk Q" "d_raw Q" "d_std Q" t i]
      by (simp add: agenda_def deployed_defs)
  qed
  then show "proper_task (d_nodes Q) (d_m Q) t" "i \<noteq> 0 \<Longrightarrow> source t = int i" "\<not> is_stop t"
    "source t \<noteq> target t" by (auto simp: proper_task_def)
qed

text \<open>A client sends a task of its agenda to the node it belongs to.\<close>

lemma agenda_host:
  assumes "deployed Q" and "t \<in> set (agenda Q i)" and "i \<le> d_nodes Q" and "client_shape (d_nodes Q) i c"
  shows "host_of c t \<in> set (connections c)"
    "int (host_of c t) = (if i \<noteq> 0 then target t else source t)"
proof -
  note p = agenda_proper [OF assms(1-3)]
  have n: "d_nodes Q < 32768" using assms(1) by (simp add: deployed_defs)
  have h: "host_of c t = nat (if i \<noteq> 0 then target t else source t)"
    using proper_int16 [OF p(1) n] assms(4) by (simp add: host_of_def client_shape_def)
  then show "int (host_of c t) = (if i \<noteq> 0 then target t else source t)"
    using p(1) by (simp add: proper_task_def)
  then show "host_of c t \<in> set (connections c)"
    using h p assms(4) by (auto simp: client_shape_def proper_task_def simp del: upt_Suc)
qed

lemma stream_append: "stream Q i j (us @ vs) = stream Q i j us @ stream Q i j vs"
  by (simp add: stream_def)

lemma stream_Nil [simp]: "stream Q i j [] = []"
  by (simp add: stream_def)

lemma length_le_bytes2: "length (le_bytes 2 i) = 2"
  by (simp add: numeral_2_eq_2)

text \<open>What is to come on a connection, from the invariant of the client.\<close>

lemma future_eq:
  assumes "client_ok Q i (cli net i) k lk (shut net i) fl todo" and "j \<in> set (connections (cli net i))"
    and "lk j"
  shows "future Q net i j = stream Q i j (in_hand k @ task_queue (tasks (cli net i)) @ todo) @
    (if shut net i j then [] else stop_msg Q i)"
proof -
  from assms obtain don where d: "agenda Q i = don @ in_hand k @ task_queue (tasks (cli net i)) @ todo"
    "outgoing (cli net i) j = le_bytes 2 i @ stream Q i j don @ (if shut net i j then stop_msg Q i else [])"
    unfolding client_ok_def by auto
  have "in_hand k @ task_queue (tasks (cli net i)) @ todo = []" if "shut net i j"
    using assms that by (cases k) (auto simp: client_ok_def)
  with d show ?thesis
    by (cases "shut net i j") (auto simp: future_def stream_append length_le_bytes2)
qed

lemma full_simps [simp]:
  assumes "j \<noteq> 0" and "\<not> early (main net j)"
  shows "own_pool (full Q net j) = own_pool (srv net j)" "serving (full Q net j) = serving (srv net j)"
    "down (full Q net j) = down (srv net j)" "stored (full Q net j) = stored (srv net j)"
    "mem (full Q net j) = mem (srv net j)" "w_worker (full Q net j) = w_worker (srv net j)"
    "handlers (full Q net j) = fed (\<lambda>i. future Q net i j) (accepted net j) (handlers (srv net j))"
  using assms by (simp_all add: full_def)

lemma full_cong:
  assumes "srv net' j = srv net j" and "accepted net' j = accepted net j"
    and "j \<noteq> 0 \<Longrightarrow> early (main net' j) = early (main net j)"
    and "\<And>i. i \<in> set (accepted net j) \<Longrightarrow> outgoing (cli net' i) j = outgoing (cli net i) j"
  shows "full Q net' j = full Q net j"
proof (cases "j = 0")
  case False
  show ?thesis
    unfolding full_def assms(1,2) assms(3) [OF False]
    by (rule if_cong [OF refl refl], rule arrive_cong) (simp add: future_def assms(4))
qed (simp add: full_def)

text \<open>Sending does not change the complete server.\<close>

lemma full_publish:
  assumes "j \<noteq> 0 \<Longrightarrow> \<not> early (main net j) \<Longrightarrow> length (handlers (srv net j)) = length (accepted net j)"
    and "j \<noteq> 0 \<Longrightarrow> \<not> early (main net j) \<Longrightarrow> i \<in> set (accepted net j) \<Longrightarrow>
      outgoing c j = outgoing (cli net i) j @ new \<and>
      2 \<le> length (outgoing (cli net i) j) \<and> future Q net i j = new @ later"
  shows "full Q (publish i c net) j = full Q net j"
proof (cases "j = 0 \<or> early (main net j)")
  case True
  then show ?thesis by (simp add: full_def publish_def)
next
  case False
  let ?net = "publish i c net"
  let ?new = "\<lambda>y. if y = i then drop (length (outgoing (cli net i) j)) (outgoing c j) else []"
  have "full Q ?net j = arrive (\<lambda>y. ?new y @ future Q ?net y j) (accepted net j) (srv net j)"
    unfolding full_def using False by (simp add: publish_def arrive_arrive assms(1))
  also have "\<dots> = arrive (\<lambda>y. future Q net y j) (accepted net j) (srv net j)"
  proof (rule arrive_cong)
    fix y assume y: "y \<in> set (accepted net j)"
    show "?new y @ future Q ?net y j = future Q net y j"
    proof (cases "y = i")
      case True
      with assms(2) False y have c: "outgoing c j = outgoing (cli net i) j @ new"
        "2 \<le> length (outgoing (cli net i) j)" "future Q net i j = new @ later" by auto
      have "future Q ?net i j = drop (length new) (future Q net i j)"
        using c(1,2) by (simp add: future_def publish_def add.commute del: drop_append)
      with c True show ?thesis by simp
    qed (simp add: future_def publish_def)
  qed
  finally show ?thesis using False by (simp add: full_def)
qed

end
