(* ===== verification/Network_Step.thy ===== *)
theory Network_Step
  imports Network_Inv
begin

text \<open>
  Every step of the network keeps the invariant and lowers the weight: first the main threads, then
  the clients, then the servers.
\<close>

section \<open>A step of one node\<close>

lemma node_ok_other:
  assumes "node_ok Q net j" and "main net' j = main net j" and "cli net' j = cli net j"
    and "cpc net' j = cpc net j" and "shut net' j = shut net j" and "linked net' j = linked net j"
    and "\<And>y. flagged net j y \<Longrightarrow> flagged net' j y" and "full Q net' j = full Q net j"
    and "j \<noteq> 0 \<Longrightarrow> \<not> early (main net j) \<Longrightarrow> handlers_ok (accepted net j) (srv net j) \<Longrightarrow>
      handlers_ok (accepted net' j) (srv net' j)"
  shows "node_ok Q net' j"
proof -
  have "phase_ok js k lk sh (flagged net' j) todo" if "phase_ok js k lk sh (flagged net j) todo" for js k lk sh todo
    using that assms(7) by (cases k) auto
  with assms(1-6,8,9) show ?thesis by (auto simp: node_ok_def client_ok_def)
qed

lemma unflagged_mono:
  "(\<And>x y. flagged net x y \<Longrightarrow> flagged net' x y) \<Longrightarrow>
    length (filter (\<lambda>x. \<not> flagged net' x j) ps) \<le> length (filter (\<lambda>x. \<not> flagged net x j) ps)"
  by (induction ps) (auto simp: le_SucI)

text \<open>The weight of the network falls when that of one node falls and that of no other rises.\<close>

lemma inv_weightI:
  assumes "net_inv Q net" and "\<And>j. j \<le> d_nodes Q \<Longrightarrow> \<not> exited net' j \<and> node_ok Q net' j"
    and "\<And>j. 1 \<le> j \<Longrightarrow> j \<le> d_nodes Q \<Longrightarrow> links_ok (d_nodes Q) net' j"
    and "\<And>j. j \<le> d_nodes Q \<Longrightarrow> j \<noteq> i \<Longrightarrow> node_weight Q net' j \<le> node_weight Q net j"
    and "i \<le> d_nodes Q" and "node_weight Q net' i < node_weight Q net i"
  shows "net_inv Q net' \<and> net_weight Q net' < net_weight Q net"
proof
  show "net_inv Q net'" using assms(1-3) by (simp add: net_inv_def)
  have "node_weight Q net' j \<le> node_weight Q net j" if "j \<le> d_nodes Q" for j
    using assms(4) [OF that] assms(6) by (cases "j = i") auto
  then show "net_weight Q net' < net_weight Q net"
    unfolding net_weight_def using assms(5,6) by (intro sum_strict_mono_ex1) auto
qed

text \<open>A step of one node's threads once its client and server are connected.\<close>

lemma node_step:
  assumes "net_inv Q net" and "i \<le> d_nodes Q"
    and "\<And>j. j \<noteq> i \<Longrightarrow> main net' j = main net j \<and> cli net' j = cli net j \<and>
      cpc net' j = cpc net j \<and> shut net' j = shut net j"
    and "\<And>j. j \<le> d_nodes Q \<Longrightarrow> j \<noteq> i \<Longrightarrow> full Q net' j = full Q net j"
    and "\<And>j. j \<noteq> i \<Longrightarrow> handlers_ok (accepted net j) (srv net j) \<Longrightarrow> handlers_ok (accepted net j) (srv net' j)"
    and "i = 0 \<or> main net' i = main net i \<or> main net' i \<noteq> M_new \<and>
      (early (main net' i) = early (main net i) \<or>
       \<not> early (main net' i) \<and> length (accepted net i) = d_nodes Q)"
    and "accepted net' = accepted net" and "backlog net' = backlog net" and "linked net' = linked net"
    and "\<And>x y. flagged net x y \<Longrightarrow> flagged net' x y" and "exited net' = exited net"
    and "\<And>x y. flagged net' x y \<Longrightarrow> flagged net x y \<or> \<not> early (main net' y)"
    and "node_ok Q net' i" and "node_weight Q net' i < node_weight Q net i"
  shows "net_inv Q net' \<and> net_weight Q net' < net_weight Q net"
proof (rule inv_weightI [OF assms(1) _ _ _ assms(2,14)])
  fix j assume j: "j \<le> d_nodes Q"
  have o: "\<not> exited net j" "node_ok Q net j" using assms(1) j by (simp_all add: net_inv_def)
  show "\<not> exited net' j \<and> node_ok Q net' j"
  proof (cases "j = i")
    case False
    with assms(3) [OF False] assms(4) [OF j] assms(5) [OF False] have "node_ok Q net' j"
      by (intro node_ok_other [OF o(2)] assms(10)) (auto simp: assms(7,9))
    then show ?thesis using o(1) assms(11) by simp
  qed (use assms(13,11) o(1) in simp)
next
  fix j assume j: "1 \<le> j" "j \<le> d_nodes Q"
  then have k: "links_ok (d_nodes Q) net j" using assms(1) by (simp add: net_inv_def)
  have m: "main net' j = main net j \<or> main net' j \<noteq> M_new \<and> (early (main net' j) = early (main net j) \<or>
      \<not> early (main net' j) \<and> length (accepted net j) = d_nodes Q)"
    using assms(3) [of j] assms(6) j(1) by (cases "j = i") auto
  then have "early (main net' j) \<longrightarrow> early (main net j) \<and> (\<forall>x. flagged net' x j \<longrightarrow> flagged net x j)"
    using assms(12) by auto
  with k m show "links_ok (d_nodes Q) net' j"
    unfolding links_ok_def assms(7-9) by auto
next
  fix j assume j: "j \<le> d_nodes Q" "j \<noteq> i"
  have "server_weight Q net' j \<le> server_weight Q net j"
    using assms(4) [OF j] unflagged_mono [of net net' j "d_peers Q j"] assms(10)
    by (auto simp: server_weight_def)
  with assms(3) [OF j(2)] show "node_weight Q net' j \<le> node_weight Q net j"
    by (simp add: node_weight_def link_weight_def assms(7,9) cong: if_cong)
qed

lemma link_weight_simps [simp]:
  "link_weight Q (net\<lparr>main := m\<rparr>) i = link_weight Q net i"
  "link_weight Q (net\<lparr>cpc := k\<rparr>) i = link_weight Q net i"
  "link_weight Q (net\<lparr>cli := c\<rparr>) i = link_weight Q net i"
  "link_weight Q (net\<lparr>srv := s\<rparr>) i = link_weight Q net i"
  "link_weight Q (net\<lparr>flagged := b\<rparr>) i = link_weight Q net i"
  "link_weight Q (net\<lparr>shut := b\<rparr>) i = link_weight Q net i"
  "link_weight Q (publish x d net) i = link_weight Q net i"
  by (simp_all add: link_weight_def publish_def cong: if_cong)

section \<open>The main threads\<close>

lemma client_shape_tasks [simp]:
  "client_shape n i (c\<lparr>tasks := p\<rparr>) = client_shape n i c"
  "connections (c\<lparr>tasks := p\<rparr>) = connections c"
  by (simp_all add: client_shape_def connections_def)

lemma client_ok_tasks:
  "client_ok Q i c k lk sh fl todo \<Longrightarrow> task_queue p @ todo' = task_queue (tasks c) @ todo \<Longrightarrow>
    client_ok Q i (c\<lparr>tasks := p\<rparr>) k lk sh fl todo'"
  by (simp add: client_ok_def)

lemma full_same:
  assumes "srv net' = srv net" and "accepted net' = accepted net"
    and "\<And>j. j \<noteq> 0 \<Longrightarrow> early (main net' j) = early (main net j)"
    and "\<And>i. outgoing (cli net' i) = outgoing (cli net i)"
  shows "full Q net' j = full Q net j"
  by (rule full_cong) (simp_all add: assms)

text \<open>The main thread of a node is the only one that changes its own queue.\<close>

lemma full_own_pool:
  assumes "srv net' = (srv net)(i := (srv net i)\<lparr>own_pool := p\<rparr>)" and "accepted net' = accepted net"
    and "\<And>j. early (main net' j) = early (main net j)"
    and "\<And>i. outgoing (cli net' i) = outgoing (cli net i)" and "i \<noteq> 0" and "\<not> early (main net i)"
  shows "full Q net' i = (full Q net i)\<lparr>own_pool := p\<rparr>"
    "j \<noteq> i \<Longrightarrow> full Q net' j = full Q net j"
proof -
  have "future Q net' x y = future Q net x y" for x y by (simp add: future_def assms(4))
  then show "full Q net' i = (full Q net i)\<lparr>own_pool := p\<rparr>"
    "j \<noteq> i \<Longrightarrow> full Q net' j = full Q net j"
    using assms(5,6) by (simp_all add: full_def assms(1-3))
qed

lemma handlers_ok_own_pool [simp]: "handlers_ok ps (s\<lparr>own_pool := p\<rparr>) = handlers_ok ps s"
  by (simp add: handlers_ok_def)

lemma server_ok_own_pool:
  assumes "server_ok Q j s" and "seal_flag p = seal_flag (own_pool s)"
  shows "server_ok Q j (s\<lparr>own_pool := p\<rparr>)"
  using assms by (simp add: server_ok_def inv_queue_def)

text \<open>What the main thread takes from its queue is the first task that has not been relayed.\<close>

lemma own_get:
  assumes "inv_queue s" and "get_task default_migration (own_pool s) = Some (t, p)"
  shows "seal_flag p = seal_flag (own_pool s)"
    and "own_total s = t # own_total (s\<lparr>own_pool := p\<rparr>) \<or>
      own_total s = [] \<and> is_stop t \<and> own_total (s\<lparr>own_pool := p\<rparr>) = []"
  using assms(2)
proof (atomize(full), cases rule: pool.get_cases)
  case message
  then show "seal_flag p = seal_flag (own_pool s) \<and> (own_total s = t # own_total (s\<lparr>own_pool := p\<rparr>) \<or>
      own_total s = [] \<and> is_stop t \<and> own_total (s\<lparr>own_pool := p\<rparr>) = [])"
    by (simp add: own_total_def)
next
  case stop
  with assms(1) have "filter is_master (handlers s) = []" by (simp add: inv_queue_def)
  from no_headers [OF this] stop show "seal_flag p = seal_flag (own_pool s) \<and>
      (own_total s = t # own_total (s\<lparr>own_pool := p\<rparr>) \<or>
      own_total s = [] \<and> is_stop t \<and> own_total (s\<lparr>own_pool := p\<rparr>) = [])"
    by (simp add: own_total_def default_migration_def)
qed

lemma master_inv:
  assumes "net_inv Q net" and "master_main net net'"
  shows "net_inv Q net' \<and> net_weight Q net' < net_weight Q net"
proof -
  have ok: "deployed Q" "node_ok Q net 0" using assms(1) by (auto simp: net_inv_def)
  note n = ok(2) [unfolded node_ok_def]
  have c: "client_ok Q 0 (cli net 0) (cpc net 0) (linked net 0) (shut net 0) (flagged net 0) (to_add Q 0 (main net 0) (full Q net 0))"
    using n by simp
  from assms(2) show ?thesis
  proof cases
    case (submit_task t ts c')
    then have c': "c' = (cli net 0)\<lparr>tasks := add_task t (tasks (cli net 0))\<rparr>"
      by (auto simp: add_to_client_def split: if_splits)
    have f: "full Q net' j = full Q net j" for j
      by (rule full_same) (use submit_task(2) in \<open>auto simp: submit_task(1) c'\<close>)
    have "client_ok Q 0 c' (cpc net 0) (linked net 0) (shut net 0) (flagged net 0) ts"
      unfolding c' by (rule client_ok_tasks [OF c]) (simp add: submit_task(2) add_task_def)
    with n submit_task(1,2) f have "node_ok Q net' 0"
      by (simp add: node_ok_def c' add_task_def)
    moreover have "node_weight Q net' 0 < node_weight Q net 0"
      using submit_task(1,2) f by (simp add: node_weight_def server_weight_def c' add_task_def)
    ultimately show ?thesis
      by (intro node_step [OF assms(1)]) (simp_all add: submit_task(1,2) f [unfolded submit_task(1)])
  next
    case (submit_exit t ts x)
    then have "source t = target t" by (simp add: add_to_client_def split: if_splits)
    moreover have "t \<in> set (agenda Q 0)" using c submit_exit(2) by (auto simp: client_ok_def)
    ultimately show ?thesis using agenda_proper(4) [OF ok(1)] by blast
  next
    case submit_end
    have f: "full Q net' j = full Q net j" for j
      by (rule full_same) (use submit_end(2) in \<open>auto simp: submit_end(1) finish_client_def\<close>)
    have "client_ok Q 0 (finish_client (cli net 0)) (cpc net 0) (linked net 0) (shut net 0) (flagged net 0) []"
      unfolding finish_client_def
      by (rule client_ok_tasks [OF c]) (simp add: submit_end(2) set_finished_def)
    with n submit_end f have "node_ok Q net' 0"
      by (simp add: node_ok_def) (simp add: finish_client_def set_finished_def)
    moreover have "node_weight Q net' 0 < node_weight Q net 0"
      using submit_end f
      by (simp add: node_weight_def server_weight_def finish_client_def set_finished_def)
    ultimately show ?thesis
      by (intro node_step [OF assms(1)]) (simp_all add: submit_end(1,2) f [unfolded submit_end(1)])
  next
    case join_client
    have f: "full Q net' j = full Q net j" for j
      by (rule full_same) (use join_client(2) in \<open>auto simp: join_client(1)\<close>)
    have "node_ok Q net' 0"
      using n join_client f by (auto simp: node_ok_def)
    moreover have "node_weight Q net' 0 < node_weight Q net 0"
      using join_client f by (simp add: node_weight_def server_weight_def)
    ultimately show ?thesis
      by (intro node_step [OF assms(1)]) (simp_all add: join_client(1,2) f [unfolded join_client(1)])
  qed
qed

lemma relay_inv:
  assumes "net_inv Q net" and "i \<le> d_nodes Q" and "relay_main i net net'" and "1 \<le> i"
  shows "net_inv Q net' \<and> net_weight Q net' < net_weight Q net"
proof -
  have ok: "deployed Q" "node_ok Q net i" using assms(1,2) by (auto simp: net_inv_def)
  note n = ok(2) [unfolded node_ok_def]
  have c: "client_ok Q i (cli net i) (cpc net i) (linked net i) (shut net i) (flagged net i) (to_add Q i (main net i) (full Q net i))"
    using n by simp
  have i: "i \<noteq> 0" using assms(4) by simp
  from assms(3) show ?thesis
  proof cases
    case start_serving
    have f: "full Q net' j = full Q net j" for j
      by (rule full_same) (use start_serving(2) in \<open>auto simp: start_serving(1)\<close>)
    have "node_ok Q net' i"
      using n start_serving f i by (simp add: node_ok_def)
    moreover have "node_weight Q net' i < node_weight Q net i"
      using start_serving f by (simp add: node_weight_def server_weight_def)
    ultimately show ?thesis
      by (intro node_step [OF assms(1,2)]) (simp_all add: start_serving(1,2) f [unfolded start_serving(1)])
  next
    case (relay_task t p)
    let ?s = "full Q net i"
    have f: "full Q net' i = ?s\<lparr>own_pool := p\<rparr>" "j \<noteq> i \<Longrightarrow> full Q net' j = full Q net j" for j
      by (rule full_own_pool [where i = i and p = p]; simp add: relay_task(1,2) i)+
    have s: "server_ok Q i ?s" "stop_to_come ?s"
      using n relay_task(2) i by simp_all
    have "inv_queue ?s" using s(1) by (simp add: server_ok_def)
    from own_get [OF this] relay_task(3,4) have
      p: "seal_flag p = seal_flag (own_pool ?s)" "own_total ?s = t # own_total (?s\<lparr>own_pool := p\<rparr>)"
      by (auto simp: i relay_task(2))
    then have "pending ?s = t # pending (?s\<lparr>own_pool := p\<rparr>)" using relay_task(4) by (simp add: pending_def)
    then have "client_ok Q i ((cli net i)\<lparr>tasks := add_task t (tasks (cli net i))\<rparr>) (cpc net i)
        (linked net i) (shut net i) (flagged net i) (pending (?s\<lparr>own_pool := p\<rparr>))"
      by (intro client_ok_tasks [OF c]) (simp add: relay_task(2) add_task_def i)
    moreover have "stop_to_come (?s\<lparr>own_pool := p\<rparr>)"
      using s(2) p(2) relay_task(4) by (auto simp: stop_to_come_def)
    ultimately have "node_ok Q net' i"
      using n relay_task(1,2) server_ok_own_pool [OF s(1) p(1)] i
      by (simp add: node_ok_def f(1) [unfolded relay_task(1)]) (simp add: add_task_def)
    moreover have "node_weight Q net' i < node_weight Q net i"
      using relay_task(1,2) p(2) f(1) i by (simp add: node_weight_def server_weight_def add_task_def)
    ultimately show ?thesis
      by (intro node_step [OF assms(1,2)]) (simp_all add: relay_task(1,2) f(2) [unfolded relay_task(1)])
  next
    case (relay_end t p)
    let ?s = "full Q net i"
    have f: "full Q net' i = ?s\<lparr>own_pool := p\<rparr>" "j \<noteq> i \<Longrightarrow> full Q net' j = full Q net j" for j
      by (rule full_own_pool [where i = i and p = p]; simp add: relay_end(1,2) finish_client_def i)+
    have s: "server_ok Q i ?s" "stop_to_come ?s"
      using n relay_end(2) i by simp_all
    have "inv_queue ?s" using s(1) by (simp add: server_ok_def)
    from own_get [OF this] relay_end(3) s(2) have
      p: "seal_flag p = seal_flag (own_pool ?s)" "own_total ?s = t # own_total (?s\<lparr>own_pool := p\<rparr>)"
      by (auto simp: i relay_end(2) stop_to_come_def)
    then have "pending ?s = []" using relay_end(4) by (simp add: pending_def)
    then have "client_ok Q i (finish_client (cli net i)) (cpc net i) (linked net i) (shut net i) (flagged net i) []"
      unfolding finish_client_def
      by (intro client_ok_tasks [OF c]) (simp add: relay_end(2) set_finished_def i)
    then have "node_ok Q net' i"
      using n relay_end(1,2) server_ok_own_pool [OF s(1) p(1)] i
      by (simp add: node_ok_def f(1) [unfolded relay_end(1)]) (simp add: finish_client_def set_finished_def)
    moreover have "node_weight Q net' i < node_weight Q net i"
      using relay_end(1,2) p(2) f(1) i
      by (simp add: node_weight_def server_weight_def finish_client_def set_finished_def)
    ultimately show ?thesis
      by (intro node_step [OF assms(1,2)]) (simp_all add: relay_end(1,2) f(2) [unfolded relay_end(1)])
  next
    case join_threads
    have f: "full Q net' j = full Q net j" for j
      by (rule full_same) (use join_threads(2) in \<open>auto simp: join_threads(1)\<close>)
    have "node_ok Q net' i"
      using n join_threads f i by (auto simp: node_ok_def)
    moreover have "node_weight Q net' i < node_weight Q net i"
      using join_threads f by (simp add: node_weight_def server_weight_def)
    ultimately show ?thesis
      by (intro node_step [OF assms(1,2)]) (simp_all add: join_threads(1,2) f [unfolded join_threads(1)])
  qed
qed

section \<open>The clients\<close>

lemma full_pcs [simp]:
  "full Q (net\<lparr>cpc := k\<rparr>) j = full Q net j" "full Q (net\<lparr>shut := b\<rparr>) j = full Q net j"
  "full Q (net\<lparr>flagged := b\<rparr>) j = full Q net j"
  by (simp_all add: full_def future_def)

lemma publish_simps [simp]:
  "main (publish i c net) = main net" "cpc (publish i c net) = cpc net"
  "cli (publish i c net) = (cli net)(i := c)" "flagged (publish i c net) = flagged net"
  "shut (publish i c net) = shut net" "exited (publish i c net) = exited net"
  "linked (publish i c net) = linked net" "backlog (publish i c net) = backlog net"
  "accepted (publish i c net) = accepted net"
  by (simp_all add: publish_def)

lemma publish_handlers:
  "handlers_ok (accepted net j) (srv net j) \<Longrightarrow> handlers_ok (accepted net j) (srv (publish i c net) j)"
  by (simp add: handlers_ok_def publish_def)

lemma main_ok_running: "main_ok i m k s \<Longrightarrow> k \<noteq> K_end \<Longrightarrow> k \<noteq> K_none \<Longrightarrow> k' \<noteq> K_none \<Longrightarrow> main_ok i m k' s"
  by (cases m) simp_all

lemma client_okI:
  "client_shape (d_nodes Q) i c \<Longrightarrow> agenda Q i = don @ in_hand k @ task_queue (tasks c) @ todo \<Longrightarrow>
    (\<And>j. j \<in> set (connections c) \<Longrightarrow>
      outgoing c j = (if lk j then le_bytes 2 i else []) @ stream Q i j don @
        (if sh j then stop_msg Q i else [])) \<Longrightarrow>
    (k = K_none \<or> k = K_wait \<longrightarrow> don = []) \<Longrightarrow>
    phase_ok (connections c) k lk sh fl (task_queue (tasks c) @ todo) \<Longrightarrow> client_ok Q i c k lk sh fl todo"
  unfolding client_ok_def by blast

lemma client_okE:
  assumes "client_ok Q i c k lk sh fl todo"
  obtains don where "client_shape (d_nodes Q) i c"
    "agenda Q i = don @ in_hand k @ task_queue (tasks c) @ todo"
    "\<And>j. j \<in> set (connections c) \<Longrightarrow>
      outgoing c j = (if lk j then le_bytes 2 i else []) @ stream Q i j don @
        (if sh j then stop_msg Q i else [])"
    "k = K_none \<or> k = K_wait \<longrightarrow> don = []"
    "phase_ok (connections c) k lk sh fl (task_queue (tasks c) @ todo)"
  using assms unfolding client_ok_def by blast

lemma client_ok_phase:
  assumes "client_ok Q i c k lk sh fl todo" and "in_hand k' = in_hand k"
    and "k' = K_none \<or> k' = K_wait \<longrightarrow> k = K_none \<or> k = K_wait"
    and "phase_ok (connections c) k' lk sh fl (task_queue (tasks c) @ todo)"
  shows "client_ok Q i c k' lk sh fl todo"
  using assms(1) by (rule client_okE) (rule client_okI, use assms(2-4) in auto)

lemma client_ok_take:
  assumes "client_ok Q i c (K_idle buf) lk sh fl todo" and "task_queue (tasks c) = t # task_queue p"
  shows "client_ok Q i (c\<lparr>tasks := p\<rparr>) (K_busy t buf) lk sh fl todo"
  using assms(1) by (rule client_okE) (rule client_okI, use assms(2) in simp_all)

lemma client_ok_stop:
  "client_ok Q i c (K_idle buf) lk sh fl [] \<Longrightarrow> task_queue (tasks c) = [] \<Longrightarrow> tasks c = p \<Longrightarrow>
    client_ok Q i (c\<lparr>tasks := p\<rparr>) (K_signal (connections c)) lk sh fl []"
  by (auto simp: client_ok_def client_shape_def)

lemma client_ok_sent:
  assumes "client_ok Q i c (K_busy t buf) lk sh fl todo" and "deployed Q" and "i \<le> d_nodes Q"
  shows "client_ok Q i (write_conn (host_of c t) (task_msg Q i t) c) (K_idle buf') lk sh fl todo"
proof -
  let ?h = "host_of c t"
  let ?c = "write_conn ?h (task_msg Q i t) c"
  have t: "t \<in> set (agenda Q i)" "client_shape (d_nodes Q) i c" using assms(1) by (auto simp: client_ok_def)
  note h = agenda_host [OF assms(2) t(1) assms(3) t(2)]
  from assms(1) obtain don where d: "agenda Q i = don @ [t] @ task_queue (tasks c) @ todo"
    "\<And>j. j \<in> set (connections c) \<Longrightarrow> outgoing c j = (if lk j then le_bytes 2 i else []) @
      stream Q i j don @ (if sh j then stop_msg Q i else [])"
    "\<forall>j \<in> set (connections c). lk j \<and> \<not> sh j \<and> fl j" by (auto elim: client_okE)
  have one: "stream Q i j [t] = (if j = ?h then task_msg Q i t else [])" for j
    using h(2) by (auto simp: stream_def)
  have conn: "connections ?c = connections c" by (simp add: connections_def)
  show ?thesis
  proof (rule client_okI [of _ _ _ "don @ [t]"])
    show "client_shape (d_nodes Q) i ?c" using t(2) by (simp add: client_shape_def conn)
    show "agenda Q i = (don @ [t]) @ in_hand (K_idle buf') @ task_queue (tasks ?c) @ todo" using d(1) by simp
    show "outgoing ?c j = (if lk j then le_bytes 2 i else []) @ stream Q i j (don @ [t]) @
        (if sh j then stop_msg Q i else [])" if "j \<in> set (connections ?c)" for j
      using d(2) [of j] d(3) that by (auto simp: conn stream_append one)
    show "phase_ok (connections ?c) (K_idle buf') lk sh fl (task_queue (tasks ?c) @ todo)"
      using d(3) by (simp add: conn)
  qed simp
qed

lemma client_ok_closed:
  assumes "client_ok Q i c (K_signal (j # js)) lk sh fl todo"
  shows "client_ok Q i (write_conn j (stop_msg Q i) c) (K_signal js) lk (sh(j := True)) fl todo"
proof -
  let ?c = "write_conn j (stop_msg Q i) c"
  have conn: "connections ?c = connections c" by (simp add: connections_def)
  from assms obtain don where d: "client_shape (d_nodes Q) i c"
    "agenda Q i = don @ task_queue (tasks c) @ todo"
    "\<And>j. j \<in> set (connections c) \<Longrightarrow> outgoing c j = (if lk j then le_bytes 2 i else []) @
      stream Q i j don @ (if sh j then stop_msg Q i else [])"
    "phase_ok (connections c) (K_signal (j # js)) lk sh fl (task_queue (tasks c) @ todo)"
    by (auto elim: client_okE)
  show ?thesis
  proof (rule client_okI [of _ _ _ don])
    show "client_shape (d_nodes Q) i ?c" using d(1) by (simp add: client_shape_def conn)
    show "agenda Q i = don @ in_hand (K_signal js) @ task_queue (tasks ?c) @ todo" using d(2) by simp
    show "phase_ok (connections ?c) (K_signal js) lk (sh(j := True)) fl (task_queue (tasks ?c) @ todo)"
      unfolding conn using d(4) by auto
    show "outgoing ?c x = (if lk x then le_bytes 2 i else []) @ stream Q i x don @
        (if (sh(j := True)) x then stop_msg Q i else [])" if "x \<in> set (connections ?c)" for x
      using d(3) [of x] d(4) that unfolding conn by auto
  qed simp
qed

lemma client_sends:
  assumes "deployed Q" and "i \<le> d_nodes Q" and "client_ok Q i c (K_busy t buf) lk sh fl todo"
  shows "\<exists>buf'. send_task (c_client (d_cluster Q) i) (c, buf) t =
    Some (Inr (write_conn (host_of c t) (task_msg Q i t) c, buf'))"
proof -
  let ?e = "c_client (d_cluster Q) i"
  have t: "t \<in> set (agenda Q i)" "client_shape (d_nodes Q) i c" using assms(3) by (auto simp: client_ok_def)
  have e: "?e = node_env (d_chunk Q) (d_raw Q) (d_std Q) i" using assms(1,2) by (simp add: deployed_defs)
  have h: "host_of c t < conn_num c + 2"
    using agenda_host(1) [OF assms(1) t(1) assms(2) t(2)] t(2)
    by (auto simp: client_shape_def simp del: upt_Suc)
  have "task_bytes ?e (node_index c) (d_std Q i) t = task_msg Q i t"
    using t(2) by (simp add: task_bytes_def task_msg_def e node_env_def client_shape_def)
  with send_task_eq [of c t ?e "d_std Q i" buf] h t(2) show ?thesis
    by (simp add: e node_env_def client_shape_def)
qed

text \<open>What a client writes while it is running was to come on the connection.\<close>

lemma publish_full:
  assumes "net_inv Q net" and "i \<le> d_nodes Q" and "j \<le> d_nodes Q"
    and "j \<in> set (connections (cli net i)) \<Longrightarrow> outgoing c j = outgoing (cli net i) j @ new \<and>
      future Q net i j = new @ later"
  shows "full Q (publish i c net) j = full Q net j"
proof (rule full_publish)
  from assms(1-3) have ok: "deployed Q" "node_ok Q net i" "node_ok Q net j" by (auto simp: net_inv_def)
  assume j: "j \<noteq> 0" "\<not> early (main net j)"
  then show "length (handlers (srv net j)) = length (accepted net j)"
    using ok(3) by (simp add: node_ok_def handlers_ok_def)
  assume i: "i \<in> set (accepted net j)"
  have "1 \<le> j" using j(1) by simp
  then have "i \<noteq> j" "linked net i j"
    using assms(1,3) i by (auto simp: net_inv_def links_ok_def)
  from ok(2) obtain todo where
    "client_ok Q i (cli net i) (cpc net i) (linked net i) (shut net i) (flagged net i) todo"
    unfolding node_ok_def by blast
  then obtain don where c: "client_shape (d_nodes Q) i (cli net i)"
    "\<And>j. j \<in> set (connections (cli net i)) \<Longrightarrow> outgoing (cli net i) j =
      (if linked net i j then le_bytes 2 i else []) @ stream Q i j don @ (if shut net i j then stop_msg Q i else [])"
    by (rule client_okE) (rule that)
  have "j \<in> set (connections (cli net i))"
    using c(1) \<open>i \<noteq> j\<close> j(1) assms(3) by (auto simp: client_shape_def simp del: upt_Suc)
  with assms(4) c(2) [OF this] \<open>linked net i j\<close> show "outgoing c j = outgoing (cli net i) j @ new \<and>
      2 \<le> length (outgoing (cli net i) j) \<and> future Q net i j = new @ later"
    by (simp add: length_le_bytes2)
qed

lemma phase_running:
  "client_ok Q i c k lk sh fl todo \<Longrightarrow> k = K_busy t buf \<or> k = K_idle buf \<Longrightarrow> j \<in> set (connections c) \<Longrightarrow>
    \<not> sh j \<and> lk j"
  by (auto simp: client_ok_def)

lemma client_inv:
  assumes "net_inv Q net" and "i \<le> d_nodes Q" and "client_step (d_cluster Q) i net net'"
  shows "net_inv Q net' \<and> net_weight Q net' < net_weight Q net"
proof -
  have ok: "deployed Q" "node_ok Q net i" using assms(1,2) by (auto simp: net_inv_def)
  note n = ok(2) [unfolded node_ok_def]
  let ?todo = "to_add Q i (main net i) (full Q net i)" and ?c = "cli net i"
  have c: "client_ok Q i ?c (cpc net i) (linked net i) (shut net i) (flagged net i) ?todo" using n by simp
  have conn: "connections ?c = filter (\<lambda>j. j \<noteq> i) [1..<Suc (d_nodes Q)]"
    using c by (simp add: client_ok_def client_shape_def)
  note running = main_ok_running [of i "main net i" "cpc net i" "full Q net i"]
  from assms(3) show ?thesis
  proof cases
    case all_flags
    have "client_ok Q i ?c (K_idle (replicate (c_chunk (c_client (d_cluster Q) i)) 0)) (linked net i) (shut net i)
        (flagged net i) ?todo" 
      by (rule client_ok_phase [OF c]) (use c all_flags(2,3) in \<open>simp_all add: client_ok_def\<close>)
    with n running all_flags(2) have "node_ok Q net' i"
      by (simp add: node_ok_def all_flags(1))
    moreover have "node_weight Q net' i < node_weight Q net i"
      using all_flags(2) by (simp add: node_weight_def server_weight_def all_flags(1))
    ultimately show ?thesis by (intro node_step [OF assms(1,2)]) (simp_all add: all_flags(1))
  next
    case (take_task buf t p)
    then have q: "task_queue (tasks ?c) = t # task_queue p" "seal_flag p = seal_flag (tasks ?c)"
      by (auto elim!: pool.get_cases simp: default_migration_def)
    have f: "full Q net' j = full Q net j" for j by (rule full_same) (use take_task(2) in \<open>auto simp: take_task(1)\<close>)
    have "client_ok Q i (?c\<lparr>tasks := p\<rparr>) (K_busy t buf) (linked net i) (shut net i) (flagged net i) ?todo"
      using client_ok_take [OF c [unfolded take_task(2)] q(1)] .
    with n running take_task(2) q(2) have "node_ok Q net' i"
      by (simp add: node_ok_def f) (simp add: take_task(1))
    moreover have "node_weight Q net' i < node_weight Q net i"
      using take_task(2) q(1) by (simp add: node_weight_def server_weight_def f) (simp add: take_task(1))
    ultimately show ?thesis
      by (intro node_step [OF assms(1,2)]) (simp_all add: f, simp_all add: take_task(1))
  next
    case (take_stop buf t p)
    have q: "task_queue (tasks ?c) = [] \<and> seal_flag (tasks ?c) \<and> tasks ?c = p"
    proof (rule ccontr)
      assume "\<not> ?thesis"
      with take_stop(3) have "t \<in> set (task_queue (tasks ?c))" by (auto elim!: pool.get_cases)
      then have "t \<in> set (agenda Q i)" using c by (auto simp: client_ok_def)
      with agenda_proper(3) [OF ok(1) this assms(2)] take_stop(4) show False by simp
    qed
    then have todo: "?todo = []" using n by auto
    have f: "full Q net' j = full Q net j" for j by (rule full_same) (use take_stop(2) in \<open>auto simp: take_stop(1)\<close>)
    have "client_ok Q i (?c\<lparr>tasks := p\<rparr>) (K_signal (connections ?c)) (linked net i) (shut net i) (flagged net i) ?todo"
      using c q unfolding todo take_stop(2) by (intro client_ok_stop) auto
    with n running take_stop(2) q have "node_ok Q net' i"
      by (simp add: node_ok_def f) (simp add: take_stop(1))
    moreover have "length (connections ?c) \<le> d_nodes Q"
      using length_filter_le [of "\<lambda>j. j \<noteq> i" "[1..<Suc (d_nodes Q)]"] by (simp add: conn del: upt_Suc)
    then have "node_weight Q net' i < node_weight Q net i"
      using take_stop(2) q by (auto simp: node_weight_def server_weight_def f) (auto simp: take_stop(1))
    ultimately show ?thesis
      by (intro node_step [OF assms(1,2)]) (simp_all add: f, simp_all add: take_stop(1))
  next
    case (send t buf c' buf')
    let ?h = "host_of ?c t"
    note busy = c [unfolded send(2)]
    from client_sends [OF ok(1) assms(2) busy] send(3) have
      c': "c' = write_conn ?h (task_msg Q i t) ?c" by auto
    have t: "t \<in> set (agenda Q i)" "client_shape (d_nodes Q) i ?c" using busy by (auto simp: client_ok_def)
    note h = agenda_host [OF ok(1) t(1) assms(2) t(2)]
    have one: "stream Q i j [t] = (if j = ?h then task_msg Q i t else [])" for j
      using h(2) by (auto simp: stream_def)
    have f: "full Q (publish i c' net) j = full Q net j" if "j \<le> d_nodes Q" for j
    proof (rule publish_full [OF assms(1,2) that])
      assume j: "j \<in> set (connections ?c)"
      have r: "\<not> shut net i j" "linked net i j" using phase_running [OF busy _ j] by auto
      from future_eq [OF busy j r(2)] r(1)
      show "outgoing c' j = outgoing ?c j @ stream Q i j [t] \<and> future Q net i j = stream Q i j [t] @
          stream Q i j (task_queue (tasks ?c) @ ?todo) @ stop_msg Q i"
        using stream_append [of Q i j "[t]" "task_queue (tasks ?c) @ ?todo"] by (simp add: c' one)
    qed
    have "client_ok Q i c' (K_idle buf') (linked net i) (shut net i) (flagged net i) ?todo"
      unfolding c' by (rule client_ok_sent [OF busy ok(1) assms(2)])
    moreover have "tasks c' = tasks ?c" by (simp add: c')
    ultimately have "node_ok Q net' i"
      using n running send(2) f [OF assms(2)] publish_handlers [of net i i c']
      by (simp add: node_ok_def send(1))
    moreover have "node_weight Q net' i < node_weight Q net i"
      using send(2) f [OF assms(2)] by (simp add: node_weight_def server_weight_def send(1) c')
    ultimately show ?thesis
      by (intro node_step [OF assms(1,2)]) (use f in \<open>simp_all add: send(1) publish_handlers\<close>)
  next
    case (send_exit t buf x)
    from client_sends [OF ok(1) assms(2) c [unfolded send_exit(2)]] send_exit(3) show ?thesis by auto
  next
    case (signal j js)
    note closing = c [unfolded signal(2)]
    have e: "encode_migration (raw_mem (c_client (d_cluster Q) i) default_migration) default_migration =
        stop_msg Q i"
      using ok(1) assms(2) by (simp add: deployed_defs node_env_def stop_msg_def)
    let ?c' = "write_conn j (stop_msg Q i) ?c"
    have net': "net' = (publish i ?c' net)
        \<lparr>cpc := (cpc net)(i := K_signal js), shut := (shut net)(i := (shut net i)(j := True))\<rparr>"
      using signal(1) unfolding e .
    have f: "full Q (publish i ?c' net) x = full Q net x" if "x \<le> d_nodes Q" for x
    proof (rule publish_full [OF assms(1,2) that])
      assume x: "x \<in> set (connections ?c)"
      have open_j: "\<not> shut net i j" "task_queue (tasks ?c) @ ?todo = []"
        using closing by (auto simp: client_ok_def)
      show "outgoing ?c' x = outgoing ?c x @ (if x = j then stop_msg Q i else []) \<and>
          future Q net i x = (if x = j then stop_msg Q i else []) @ (if x = j then [] else future Q net i x)"
        using future_eq [OF closing x] closing x open_j by (simp add: client_ok_def)
    qed
    have "client_ok Q i ?c' (K_signal js) (linked net i) ((shut net i)(j := True)) (flagged net i) ?todo"
      by (rule client_ok_closed [OF closing])
    then have "node_ok Q net' i"
      using n running signal(2) f [OF assms(2)] publish_handlers [of net i i ?c']
      by (simp add: node_ok_def net')
    moreover have "node_weight Q net' i < node_weight Q net i"
      using signal(2) f [OF assms(2)] by (simp add: node_weight_def server_weight_def net')
    ultimately show ?thesis
      by (intro node_step [OF assms(1,2)]) (use f in \<open>simp_all add: net' publish_handlers\<close>)
  next
    case (signal_exit j js)
    then show ?thesis using ok(1) assms(2) by (simp add: deployed_defs node_env_def)
  next
    case signal_end
    have "client_ok Q i ?c K_end (linked net i) (shut net i) (flagged net i) ?todo"
      by (rule client_ok_phase [OF c]) (use c signal_end(2) in \<open>simp_all add: client_ok_def\<close>)
    with n running signal_end(2) have "node_ok Q net' i" by (simp add: node_ok_def signal_end(1))
    moreover have "node_weight Q net' i < node_weight Q net i"
      using signal_end(2) by (simp add: node_weight_def server_weight_def signal_end(1))
    ultimately show ?thesis by (intro node_step [OF assms(1,2)]) (simp_all add: signal_end(1))
  qed
qed

section \<open>The servers\<close>

text \<open>Nothing comes on a connection that has been closed.\<close>

lemma future_shut:
  assumes "net_inv Q net" and "i \<le> d_nodes Q" and "1 \<le> j" and "j \<le> d_nodes Q" and "i \<noteq> j"
    and "shut net i j"
  shows "future Q net i j = []"
proof -
  let ?todo = "to_add Q i (main net i) (full Q net i)"
  have c: "client_ok Q i (cli net i) (cpc net i) (linked net i) (shut net i) (flagged net i) ?todo"
    using assms(1,2) by (simp add: net_inv_def node_ok_def)
  then have j: "j \<in> set (connections (cli net i))"
    using assms(3-5) by (auto simp: client_ok_def client_shape_def simp del: upt_Suc)
  have "in_hand (cpc net i) @ task_queue (tasks (cli net i)) @ ?todo = []" "linked net i j"
    using c j assms(6) by (cases "cpc net i"; auto simp: client_ok_def)+
  with future_eq [OF c j] assms(6) show ?thesis by simp
qed

lemma serving_started_early: "serving_started net j \<Longrightarrow> \<not> early (main net j)"
  by (auto simp: serving_started_def early_def)

lemma serving_step:
  assumes "net_inv Q net" and "1 \<le> j" and "j \<le> d_nodes Q" and "server_step (d_env Q j) (srv net j) s'"
    and "reads_arrived (d_cluster Q) net j s'" and "serving_started net j"
  shows "server_step (d_env Q j) (full Q net j) (full Q (net\<lparr>srv := (srv net)(j := s')\<rparr>) j)"
proof -
  have ok: "deployed Q" "node_ok Q net j" using assms(1,3) by (auto simp: net_inv_def)
  note d = deployed_server [OF ok(1) assms(2,3)]
  note e = serving_started_early [OF assms(6)]
  have s: "server_ok Q j (full Q net j)" "length (accepted net j) = length (handlers (srv net j))"
    using ok(2) assms(2) e by (simp_all add: node_ok_def handlers_ok_def)
  then have mem: "length (mem (srv net j) b) = chunk_size (d_env Q j)" for b
    using assms(2) e by (simp add: server_ok_def server_inv_def inv_task_def)
  have "in_time (chunk_size (d_env Q j)) (\<lambda>i. future Q net i j) (accepted net j) (srv net j) s'"
    unfolding in_time_def
  proof (intro allI impI)
    fix p assume p: "p < length (handlers (srv net j))" "handlers s' ! p \<noteq> handlers (srv net j) ! p"
    let ?i = "accepted net j ! p"
    have "?i \<in> set (accepted net j)" using p(1) s(2) by simp
    then have i: "?i \<le> d_nodes Q" "?i \<noteq> j" using serving_peers(2) [OF assms(1-3) e] by auto
    show "future Q net ?i j = [] \<or> can_read (chunk_size (d_env Q j)) False (handlers (srv net j) ! p)"
      using future_shut [OF assms(1) i(1) assms(2,3) i(2)] assms(5) p
      by (cases "shut net ?i j") (auto simp: reads_arrived_def)
  qed
  from arrive_step [OF assms(4) d(7) s(2) mem this] assms(2) e show ?thesis
    by (simp add: full_def future_def)
qed

lemma server_ok_step:
  assumes "server_ok Q j s" and "deployed Q" and "1 \<le> j" and "j \<le> d_nodes Q"
    and "server_step (d_env Q j) s s'"
  shows "server_ok Q j s'" "own_total s' = own_total s" "weight (d_chunk Q) s' < weight (d_chunk Q) s"
    "serving s \<noteq> Finished"
proof -
  note d = deployed_server [OF assms(2-4)]
  have s: "server_inv (d_env Q j) (d_m Q) (d_addrs Q j) s" "inv_queue s" "inv_phase s" "inv_task (d_env Q j) (d_m Q) s"
    "inv_own (d_addrs Q j) s"
    using assms(1) by (simp_all add: server_ok_def server_inv_def)
  from queue_step [OF s(2,4) d(2) assms(5)] have q: "inv_queue s'" "own_total s' = own_total s" by simp_all
  then show "own_total s' = own_total s" by simp
  show "weight (d_chunk Q) s' < weight (d_chunk Q) s"
    using weight_step [OF s(1) d(2) assms(5)] by (simp add: d(1))
  show "serving s \<noteq> Finished" using finished_stops [OF s(3)] assms(5) by blast
  have "inv_single s'" if "d_workers Q = 1"
    using single_step [OF _ s(3,5) _ assms(5)] assms(1) that by (simp add: server_ok_def)
  with assms(1) q(1) inv_step [OF s(1) d(4,2) assms(5)] threads_step [OF assms(5)]
  show "server_ok Q j s'" by (auto simp: server_ok_def)
qed

lemma unflagged_less:
  assumes "i \<in> set ps" and "\<not> flagged net i j" and "flagged net' i j"
    and "\<And>x y. flagged net x y \<Longrightarrow> flagged net' x y"
  shows "length (filter (\<lambda>x. \<not> flagged net' x j) ps) < length (filter (\<lambda>x. \<not> flagged net x j) ps)"
proof -
  from assms(1) obtain as bs where "ps = as @ i # bs" by (meson split_list)
  with unflagged_mono [of net net' j as] unflagged_mono [of net net' j bs] assms(2-4) show ?thesis by simp
qed

lemma main_server_same:
  assumes "pending s' = pending s" and "stop_to_come s' = stop_to_come s"
  shows "to_add Q j m s' = to_add Q j m s" "m \<noteq> M_end \<Longrightarrow> main_ok j m k s \<Longrightarrow> main_ok j m k s'"
  using assms by (cases m; simp)+

lemma serve_inv:
  assumes "net_inv Q net" and "1 \<le> j" and "j \<le> d_nodes Q" and "serve_net (d_cluster Q) j net net'"
  shows "net_inv Q net' \<and> net_weight Q net' < net_weight Q net"
proof -
  have ok: "deployed Q" "node_ok Q net j" using assms(1,3) by (auto simp: net_inv_def)
  from assms(4) show ?thesis
  proof cases
    case (send_flag i)
    have mono: "flagged net' x y" if "flagged net x y" for x y using that by (auto simp: send_flag(1))
    have "i \<in> set (d_peers Q j)"
      using serving_peers(2) [OF assms(1-3) serving_started_early [OF send_flag(2)]] send_flag(3) d_peers(2)
      by blast
    then have "length (filter (\<lambda>x. \<not> flagged net' x j) (d_peers Q j)) <
        length (filter (\<lambda>x. \<not> flagged net x j) (d_peers Q j))"
      by (rule unflagged_less [OF _ send_flag(4) _ mono]) (simp_all add: send_flag(1))
    then have w: "node_weight Q net' j < node_weight Q net j"
      using assms(2) by (simp add: node_weight_def server_weight_def) (simp add: send_flag(1))
    have n: "node_ok Q net' j"
      by (rule node_ok_other [OF ok(2)]) (simp_all add: mono, simp_all add: send_flag(1))
    have flags: "flagged net x y \<or> \<not> early (main net' y)" if "flagged net' x y" for x y
      using that serving_started_early [OF send_flag(2)] by (auto simp: send_flag(1) split: if_splits)
    show ?thesis
      by (rule node_step [OF assms(1,3) _ _ _ _ _ _ _ mono _ flags n w]) (simp_all add: send_flag(1))
  next
    case (serve s')
    let ?s = "full Q net j" and ?s' = "full Q net' j"
    have step: "server_step (d_env Q j) ?s ?s'"
      using serving_step [OF assms(1-3) serve(3,4,2)] by (simp add: serve(1))
    note e = serving_started_early [OF serve(2)]
    have s: "server_ok Q j ?s" using ok(2) assms(2) by (simp add: node_ok_def)
    note s' = server_ok_step [OF s ok(1) assms(2,3) step]
    have same: "pending ?s' = pending ?s" "stop_to_come ?s' = stop_to_come ?s"
      by (simp_all only: pending_def stop_to_come_def s'(2))
    have m: "main net j \<noteq> M_end" using ok(2) s'(4) assms(2) by (auto simp: node_ok_def)
    have "to_add Q j (main net j) ?s' = to_add Q j (main net j) ?s"
      "main_ok j (main net j) (cpc net j) ?s \<Longrightarrow> main_ok j (main net j) (cpc net j) ?s'"
      by (rule main_server_same(1) [OF same], rule main_server_same(2) [OF same m])
    moreover have "handlers_ok (accepted net j) (srv net j) \<Longrightarrow> handlers_ok (accepted net' j) (srv net' j)"
      using handlers_step [OF serve(3)] master_stays [OF serve(3)] by (simp add: serve(1) handlers_ok_def)
    ultimately have "node_ok Q net' j"
      using ok(2) s'(1) by (simp add: node_ok_def serve(1))
    moreover have "node_weight Q net' j < node_weight Q net j"
      using assms(2) s'(2,3) by (simp add: node_weight_def server_weight_def) (simp add: serve(1))
    moreover have "full Q net' x = full Q net x" if "x \<noteq> j" for x
      using that by (simp add: serve(1) full_def future_def)
    ultimately show ?thesis
      by (intro node_step [OF assms(1,3)]) (simp_all add: serve(1))
  qed
qed

end
