(* ===== verification/Network_Launch.thy ===== *)
theory Network_Launch
  imports Network_Step
begin

text \<open>
  The launch of the network: the servers are made, the clients connect, the connections are accepted.
  A server that has accepted its connections holds one handler for every other node, whatever the
  order in which they came.
\<close>

section \<open>The server that a node is going to be\<close>

lemma task_msg_fun: "task_msg Q i = (\<lambda>t. encode_migration (d_raw Q i t) t @
    (if i \<noteq> 0 then take (d_chunk Q) (d_std Q i) else []))"
  by (simp add: task_msg_def fun_eq_iff)

lemma stream_blocks:
  "y \<noteq> 0 \<Longrightarrow> stream Q y j (agenda Q y) @ stop_msg Q y =
    block_stream (d_chunk Q) (d_raw Q) (d_std Q) (d_tasks Q) y j"
  by (simp add: stream_def agenda_def stop_msg_def task_msg_fun block_stream_def)

lemma master_headers:
  assumes "deployed Q" and "1 \<le> j" and "j \<le> d_nodes Q"
  shows "takeWhile (\<lambda>t. \<not> is_stop t) (headers (master_stream Q j)) = agenda Q j"
    "\<exists>t \<in> set (headers (master_stream Q j)). is_stop t"
    "length (master_stream Q j) mod header_size = 0"
proof -
  let ?ts = "filter (\<lambda>t. source t = int j) (d_tasks Q)"
  have raw: "length (d_raw Q 0 t) = header_size" for t using assms(1) by (simp add: deployed_defs memory_ok_def)
  have f: "\<forall>t \<in> set ?ts. fits t" using assms(1) by (auto simp: deployed_defs prepared_def)
  have m: "master_stream Q j = concat (map (\<lambda>t. encode_migration (d_raw Q 0 t) t) ?ts) @
      encode_migration (d_raw Q 0 default_migration) default_migration"
    by (simp add: stream_def task_msg_fun stop_msg_def)
  have h: "headers (master_stream Q j) = agenda Q j @
      [decode_migration (encode_migration (d_raw Q 0 default_migration) default_migration)]"
    unfolding m using headers_concat [OF f raw] assms(2) by (simp add: agenda_def relayed_def)
  have "\<forall>u \<in> set (agenda Q j). \<not> is_stop u" using agenda_proper(3) [OF assms(1) _ assms(3)] by blast
  then show "takeWhile (\<lambda>t. \<not> is_stop t) (headers (master_stream Q j)) = agenda Q j"
    "\<exists>t \<in> set (headers (master_stream Q j)). is_stop t"
    using stop_is_stop [OF raw, of default_migration] by (simp_all add: h takeWhile_append2)
  show "length (master_stream Q j) mod header_size = 0" unfolding m by (rule headers_length [OF f raw])
qed

lemma filter_one: "distinct ps \<Longrightarrow> x \<in> set ps \<Longrightarrow> filter (\<lambda>y. y = x) ps = [x]"
  by (induction ps) (auto simp: filter_empty_conv)

lemma start_server_ok:
  assumes "deployed Q" and "1 \<le> j" and "j \<le> d_nodes Q"
    and "distinct ps" and "set ps = {0..d_nodes Q} - {j}"
  shows "server_ok Q j (start_server Q j ps)" "own_total (start_server Q j ps) = headers (master_stream Q j)"
proof -
  let ?hs = "node_handlers (d_chunk Q) (d_raw Q) (d_std Q) (d_tasks Q) j ps (master_stream Q j)"
  define s where "s = start_server Q j ps"
  note d = deployed_server [OF assms(1-3)]
  have q: "d_nodes Q < 1000" "\<forall>t \<in> set (d_tasks Q). \<exists>i. prepared (d_nodes Q) (d_m Q) i t"
    "memory_ok (chunk_size (d_env Q j)) (d_raw Q) (d_std Q)"
    using assms(1) d(1) by (simp_all add: deployed_defs)
  have st: "started (d_env Q j) (d_m Q) ?hs"
    using node_handlers_started [OF q d(3) master_headers(3) [OF assms(1-3)]] by (simp add: d(1))
  have ex: "expected (d_env Q j) (d_k Q) ?hs = deliveries (d_env Q j) (d_k Q) (d_std Q) j (d_tasks Q)"
    using node_handlers_expected [OF q d(3) assms(4,5,2)] by (simp add: d(1))
  have s: "s = new_server (d_addrs Q j) (d_workers Q) (chunk_size (d_env Q j)) ?hs"
    by (simp add: s_def start_server_def d(1))
  have "filter (\<lambda>y. y = 0) ps = [0]" using assms(2,4,5) by (intro filter_one) simp_all
  moreover have "filter is_master ?hs = map (\<lambda>y. Master (master_stream Q j)) (filter (\<lambda>y. y = 0) ps)"
    by (simp add: node_handlers_def filter_map comp_def)
  ultimately have m: "filter is_master ?hs = [Master (master_stream Q j)]" by simp
  have h: "handlers s = ?hs" "own_pool s = new_pool 1" "computers s = replicate (d_workers Q) (C_idle (replicate (d_chunk Q) 0))"
    "writers s = replicate (d_workers Q) W_idle"
    by (simp_all add: s_def start_server_def new_server_def)
  show "own_total (start_server Q j ps) = headers (master_stream Q j)"
    unfolding s_def [symmetric] using headers_of_masters [of ?hs] m
    by (simp add: own_total_def h new_pool_def)
  show "server_ok Q j (start_server Q j ps)"
    using new_server_inv(1) [OF st d(4), of "d_workers Q"]
      new_server_inv(2) [OF st d(4), of "d_k Q" "d_workers Q"] ex m
    unfolding server_ok_def s [symmetric] s_def [symmetric] h
    by (simp add: inv_queue_def inv_single_def h new_pool_def)
qed

lemma start_server_weight:
  "mset ps = mset ps' \<Longrightarrow> weight n (start_server Q j ps) = weight n (start_server Q j ps')"
proof -
  assume "mset ps = mset ps'"
  then have "sum_list (map f ps) = sum_list (map f ps')" for f :: "nat \<Rightarrow> nat"
    by (metis mset_map sum_mset_sum_list)
  then show ?thesis by (simp add: weight_def start_server_def new_server_def node_handlers_def comp_def)
qed

lemma start_full:
  assumes "deployed Q" and "1 \<le> j" and "j \<le> d_nodes Q" and "set ps \<subseteq> {0..d_nodes Q}"
    and "\<And>i. i \<in> set ps \<Longrightarrow> outgoing (cli net i) j = le_bytes 2 i"
    and "wait_for_connection (env_lib (d_env Q j)) (length ps)
      (map (\<lambda>i. Some (outgoing (cli net i) j)) ps) = Some hs"
  shows "arrive (\<lambda>i. future Q net i j) ps (new_server (d_addrs Q j) (d_workers Q) (d_chunk Q) hs) =
      start_server Q j ps"
    "handlers_ok ps (new_server (d_addrs Q j) (d_workers Q) (d_chunk Q) hs)"
proof -
  note d = deployed_server [OF assms(1-3)]
  have lt: "\<forall>i \<in> set ps. i < 65536" using assms(1,4) by (auto simp: deployed_defs)
  have "map (\<lambda>i. Some (outgoing (cli net i) j)) ps = map (\<lambda>i. Some (le_bytes 2 i @ [])) ps"
    using assms(5) by simp
  with wait_for_connections [OF d(7) lt, of "\<lambda>_. []"] assms(6)
  have hs: "hs = map (\<lambda>i. if i \<noteq> 0 then Reading [] else Master []) ps" by simp
  show "handlers_ok ps (new_server (d_addrs Q j) (d_workers Q) (d_chunk Q) hs)"
    by (auto simp: handlers_ok_def new_server_def hs)
  have fut: "future Q net i j = stream Q i j (agenda Q i) @ stop_msg Q i" if "i \<in> set ps" for i
    using assms(5) [OF that] by (simp add: future_def length_le_bytes2)
  have "fed (\<lambda>i. future Q net i j) ps hs = node_handlers (d_chunk Q) (d_raw Q) (d_std Q)
      (d_tasks Q) j ps (master_stream Q j)"
  proof (rule nth_equalityI)
    fix p assume "p < length (fed (\<lambda>i. future Q net i j) ps hs)"
    then have p: "p < length ps" by (simp add: hs)
    let ?y = "ps ! p"
    have "?y \<in> set ps" using p by simp
    with fut stream_blocks [of ?y Q j] p
    show "fed (\<lambda>i. future Q net i j) ps hs ! p = node_handlers (d_chunk Q) (d_raw Q) (d_std Q)
      (d_tasks Q) j ps (master_stream Q j) ! p"
      by (cases "?y = 0") (simp_all add: hs node_handlers_def agenda_def)
  qed (simp add: hs node_handlers_def)
  then show "arrive (\<lambda>i. future Q net i j) ps (new_server (d_addrs Q j) (d_workers Q) (d_chunk Q) hs) =
      start_server Q j ps"
    by (simp add: arrive_def new_server_def start_server_def)
qed

lemma wait_enough: "wait_for_connection lib n as = Some hs \<Longrightarrow> n \<le> length as"
  by (induction lib n as arbitrary: hs rule: wait_for_connection.induct)
    (auto split: prod.splits if_splits bind_splits)

section \<open>Connecting and accepting\<close>

lemma sum_list_mono_less:
  fixes f g :: "'a \<Rightarrow> nat"
  assumes "\<And>x. x \<in> set xs \<Longrightarrow> f x \<le> g x" and "y \<in> set xs" and "f y < g y"
  shows "sum_list (map f xs) < sum_list (map g xs)"
  using assms
proof (induction xs)
  case (Cons x xs)
  have "sum_list (map f xs) \<le> sum_list (map g xs)" by (intro sum_list_mono) (simp add: Cons.prems)
  with Cons show ?case by (cases "y \<in> set xs") (auto simp: add_le_less_mono add_less_le_mono)
qed simp

text \<open>The weight of a node's connections falls as they are made and accepted.\<close>

lemma link_weight_mono:
  assumes "\<And>j. linked net i j \<Longrightarrow> linked net' i j" and "\<And>j. set (accepted net j) \<subseteq> set (accepted net' j)"
  shows "link_weight Q net' i \<le> link_weight Q net i"
  unfolding link_weight_def using assms by (intro sum_list_mono) auto

lemma link_weight_less:
  assumes "\<And>j. linked net i j \<Longrightarrow> linked net' i j" and "\<And>j. set (accepted net j) \<subseteq> set (accepted net' j)"
    and "j \<in> set (links (d_cluster Q) i)" and "linked net' i j"
    and "\<not> linked net i j \<or> i \<notin> set (accepted net j) \<and> i \<in> set (accepted net' j)"
  shows "link_weight Q net' i < link_weight Q net i"
  unfolding link_weight_def using assms by (intro sum_list_mono_less [of _ _ _ j]) auto

text \<open>While a server waits for its connections, their clients have sent their indices only.\<close>

lemma early_sent:
  assumes "net_inv Q net" and "1 \<le> j" and "j \<le> d_nodes Q" and "early (main net j)"
    and "i \<le> d_nodes Q" and "i \<noteq> j" and "linked net i j"
  shows "outgoing (cli net i) j = le_bytes 2 i"
proof -
  have l: "\<not> flagged net i j" using assms(1-4) by (simp add: net_inv_def links_ok_def)
  have "client_ok Q i (cli net i) (cpc net i) (linked net i) (shut net i) (flagged net i)
      (to_add Q i (main net i) (full Q net i))"
    using assms(1,5) by (simp add: net_inv_def node_ok_def)
  then obtain don where c: "client_shape (d_nodes Q) i (cli net i)"
    "\<And>j. j \<in> set (connections (cli net i)) \<Longrightarrow>
      outgoing (cli net i) j = (if linked net i j then le_bytes 2 i else []) @ stream Q i j don @
        (if shut net i j then stop_msg Q i else [])"
    "cpc net i = K_none \<or> cpc net i = K_wait \<longrightarrow> don = []"
    "phase_ok (connections (cli net i)) (cpc net i) (linked net i) (shut net i) (flagged net i)
      (task_queue (tasks (cli net i)) @ to_add Q i (main net i) (full Q net i))"
    by (rule client_okE) (rule that)
  have j: "j \<in> set (connections (cli net i))"
    using c(1) assms(2,3,6) by (auto simp: client_shape_def simp del: upt_Suc)
  with c(4) l have "cpc net i = K_none \<or> cpc net i = K_wait" "\<not> shut net i j"
    by (cases "cpc net i"; auto)+
  with c(2) [OF j] c(3) assms(7) show ?thesis by simp
qed

section \<open>The steps of the launch\<close>

text \<open>A connection that is made or accepted leaves the servers as they are going to be.\<close>

lemma linking_inv:
  assumes "net_inv Q net" and "i \<le> d_nodes Q"
    and "main net' = main net" and "srv net' = srv net" and "cpc net' = cpc net" and "shut net' = shut net"
    and "flagged net' = flagged net" and "exited net' = exited net"
    and "\<And>j. j \<noteq> i \<Longrightarrow> cli net' j = cli net j \<and> linked net' j = linked net j"
    and "tasks (cli net' i) = tasks (cli net i)"
    and "\<And>j. 1 \<le> j \<Longrightarrow> j \<le> d_nodes Q \<Longrightarrow> \<not> early (main net j) \<Longrightarrow> accepted net' j = accepted net j \<and>
      outgoing (cli net' i) j = outgoing (cli net i) j"
    and "\<And>todo. client_ok Q i (cli net i) (cpc net i) (linked net i) (shut net i) (flagged net i) todo \<Longrightarrow>
      client_ok Q i (cli net' i) (cpc net i) (linked net' i) (shut net i) (flagged net i) todo"
    and "\<And>j. 1 \<le> j \<Longrightarrow> j \<le> d_nodes Q \<Longrightarrow> links_ok (d_nodes Q) net' j"
    and "\<And>j. j \<noteq> i \<Longrightarrow> link_weight Q net' j \<le> link_weight Q net j"
    and "link_weight Q net' i < link_weight Q net i"
  shows "net_inv Q net' \<and> net_weight Q net' < net_weight Q net"
proof -
  have full: "full Q net' j = full Q net j" if j: "j \<le> d_nodes Q" for j
  proof (cases "j = 0 \<or> early (main net j)")
    case True
    then show ?thesis by (auto simp: full_def assms(3))
  next
    case False
    then have o: "accepted net' j = accepted net j" "outgoing (cli net' i) j = outgoing (cli net i) j"
      using assms(11) [of j] j by auto
    show ?thesis
    proof (rule full_cong)
      show "outgoing (cli net' x) j = outgoing (cli net x) j" for x
        using o(2) assms(9) [of x] by (cases "x = i") auto
    qed (simp_all add: o(1) assms(3,4))
  qed
  have same: "main_weight Q (main net' j) = main_weight Q (main net j)"
    "length (task_queue (tasks (cli net' j))) = length (task_queue (tasks (cli net j)))"
    "server_weight Q net' j = server_weight Q net j" if "j \<le> d_nodes Q" for j
    using full [OF that] assms(9) [of j] assms(10)
    by (cases "j = i"; simp add: server_weight_def assms(3,7))+
  have ok: "\<not> exited net j" "node_ok Q net j" if "j \<le> d_nodes Q" for j
    using assms(1) that by (simp_all add: net_inv_def)
  show ?thesis
  proof (rule inv_weightI [OF assms(1) _ assms(13) _ assms(2)])
    fix j assume j: "j \<le> d_nodes Q"
    have "node_ok Q net' j"
    proof (cases "j = i")
      case True
      with ok(2) [OF j] full [OF j] assms(10,12) assms(11) [of i] j show ?thesis
        by (auto simp: node_ok_def assms(3-8))
    next
      case False
      with assms(9) [OF False] full [OF j] assms(11) [of j] j show ?thesis
        by (intro node_ok_other [OF ok(2) [OF j]]) (auto simp: assms(3-8))
    qed
    then show "\<not> exited net' j \<and> node_ok Q net' j" using ok(1) [OF j] by (simp add: assms(8))
  next
    fix j assume "j \<le> d_nodes Q" "j \<noteq> i"
    then show "node_weight Q net' j \<le> node_weight Q net j"
      using same [of j] assms(14) [of j] by (simp add: node_weight_def assms(5))
  next
    show "node_weight Q net' i < node_weight Q net i"
      using same [OF assms(2)] assms(15) by (simp add: node_weight_def assms(5))
  qed
qed

lemma connect_one_simps [simp]:
  "tasks (connect_one j c) = tasks c" "connections (connect_one j c) = connections c"
  "client_shape n i (connect_one j c) = client_shape n i c"
  "outgoing (connect_one j c) = (outgoing c)(j := outgoing c j @ le_bytes 2 (node_index c))"
  by (simp_all add: connect_one_def write_conn_def connections_def client_shape_def)

lemma client_ok_linked:
  assumes "client_ok Q i c K_none lk sh fl todo" and "\<not> lk j"
  shows "client_ok Q i (connect_one j c) K_none (lk(j := True)) sh fl todo"
  using assms(1)
proof (rule client_okE)
  fix don assume c: "client_shape (d_nodes Q) i c" "agenda Q i = don @ in_hand K_none @ task_queue (tasks c) @ todo"
    "\<And>j. j \<in> set (connections c) \<Longrightarrow> outgoing c j = (if lk j then le_bytes 2 i else []) @
      stream Q i j don @ (if sh j then stop_msg Q i else [])"
    "K_none = K_none \<or> K_none = K_wait \<longrightarrow> don = []"
    "phase_ok (connections c) K_none lk sh fl (task_queue (tasks c) @ todo)"
  have "node_index c = i" using c(1) by (simp add: client_shape_def)
  then show ?thesis
    by (intro client_okI [of _ _ _ "[]"]) (use c assms(2) in auto)
qed

text \<open>The links of a node.\<close>

lemma deployed_links:
  assumes "deployed Q" and "i \<le> d_nodes Q"
  shows "set (links (d_cluster Q) i) = {1..d_nodes Q} - {i}"
  using assms by (auto simp: deployed_def simp del: upt_Suc)

lemma connect_inv:
  assumes "net_inv Q net" and "i \<le> d_nodes Q" and "main net i = M_connect"
    and "j \<in> set (links (d_cluster Q) i)" and "\<not> linked net i j" and "main net j \<noteq> M_new"
    and "net' = net\<lparr>cli := (cli net)(i := connect_one j (cli net i)),
      linked := (linked net)(i := (linked net i)(j := True)), backlog := (backlog net)(j := backlog net j @ [i])\<rparr>"
  shows "net_inv Q net' \<and> net_weight Q net' < net_weight Q net"
proof -
  have dep: "deployed Q" and n: "node_ok Q net i" using assms(1,2) by (auto simp: net_inv_def)
  have j: "1 \<le> j" "j \<le> d_nodes Q" "j \<noteq> i" using deployed_links [OF dep assms(2)] assms(4) by auto
  have l: "links_ok (d_nodes Q) net y" if "1 \<le> y" "y \<le> d_nodes Q" for y
    using assms(1) that by (simp add: net_inv_def)
  have k: "cpc net i = K_none" using n assms(3) by (simp add: node_ok_def)
  have e: "early (main net j)"
    using serving_peers(2) [OF assms(1) j(1,2)] l [OF j(1,2)] assms(2,5) j(3)
    by (fastforce simp: links_ok_def)
  show ?thesis
  proof (rule linking_inv [OF assms(1,2)])
    show "accepted net' y = accepted net y \<and> outgoing (cli net' i) y = outgoing (cli net i) y"
      if "\<not> early (main net y)" for y
      using that e by (auto simp: assms(7))
    show "client_ok Q i (cli net' i) (cpc net i) (linked net' i) (shut net i) (flagged net i) todo"
      if "client_ok Q i (cli net i) (cpc net i) (linked net i) (shut net i) (flagged net i) todo" for todo
      using client_ok_linked [OF that [unfolded k] assms(5)] by (simp add: assms(7) k)
    show "links_ok (d_nodes Q) net' y" if y: "1 \<le> y" "y \<le> d_nodes Q" for y
      using l [OF y] j(3) assms(2,5,6) by (auto simp: links_ok_def assms(7))
    show "link_weight Q net' y \<le> link_weight Q net y" for y
      by (rule link_weight_mono) (auto simp: assms(7))
    show "link_weight Q net' i < link_weight Q net i"
      by (rule link_weight_less [of _ _ _ j]) (use assms(4,5) in \<open>simp_all add: assms(7)\<close>)
  qed (simp_all add: assms(7))
qed

lemma accept_inv:
  assumes "net_inv Q net" and "1 \<le> i" and "i \<le> d_nodes Q" and "length (accepted net i) < d_nodes Q"
    and "backlog net i = x # xs"
    and "net' = net\<lparr>accepted := (accepted net)(i := accepted net i @ [x]), backlog := (backlog net)(i := xs)\<rparr>"
  shows "net_inv Q net' \<and> net_weight Q net' < net_weight Q net"
proof -
  have dep: "deployed Q" using assms(1) by (auto simp: net_inv_def)
  have l: "links_ok (d_nodes Q) net y" if "1 \<le> y" "y \<le> d_nodes Q" for y
    using assms(1) that by (simp add: net_inv_def)
  note li = l [OF assms(2,3), unfolded links_ok_def]
  have e: "early (main net i)" using li assms(4) by auto
  have "x \<in> set (accepted net i @ backlog net i)" by (simp add: assms(5))
  with li have x: "x \<le> d_nodes Q" "x \<noteq> i" "linked net x i" by blast+
  have new: "x \<notin> set (accepted net i)" using li assms(5) by auto
  show ?thesis
  proof (rule linking_inv [OF assms(1) x(1)])
    show "accepted net' y = accepted net y \<and> outgoing (cli net' x) y = outgoing (cli net x) y"
      if "\<not> early (main net y)" for y
      using that e by (auto simp: assms(6))
    show "links_ok (d_nodes Q) net' y" if y: "1 \<le> y" "y \<le> d_nodes Q" for y
    proof (cases "y = i")
      case True
      with li e assms(4) show ?thesis by (auto simp: links_ok_def assms(6) assms(5))
    qed (use l [OF y] in \<open>simp add: links_ok_def assms(6)\<close>)
    show "link_weight Q net' y \<le> link_weight Q net y" for y
      by (rule link_weight_mono) (auto simp: assms(6))
    show "link_weight Q net' x < link_weight Q net x"
      using deployed_links [OF dep x(1)] assms(2,3) x new
      by (intro link_weight_less [of _ _ _ i]) (auto simp: assms(6))
  qed (simp_all add: assms(6))
qed

text \<open>The threads that accept have accepted what they waited for.\<close>

lemma accepted_inv:
  assumes "net_inv Q net" and "i \<le> d_nodes Q" and "main net i = M_accept"
    and "wait_for_connection (env_lib (d_env Q i)) (d_nodes Q)
      (map (\<lambda>x. Some (outgoing (cli net x) i)) (accepted net i)) = Some hs"
    and "net' = net\<lparr>main := (main net)(i := M_serve),
      srv := (srv net)(i := new_server (d_addrs Q i) (d_workers Q) (chunk_size (d_env Q i)) hs)\<rparr>"
  shows "net_inv Q net' \<and> net_weight Q net' < net_weight Q net"
proof -
  have dep: "deployed Q" and n: "node_ok Q net i" using assms(1,2) by (auto simp: net_inv_def)
  have i: "1 \<le> i" "i \<noteq> 0" "early (main net i)" using n assms(3) by (auto simp: node_ok_def)
  let ?ps = "accepted net i" and ?s = "full Q net i"
  have l: "links_ok (d_nodes Q) net i" using assms(1,2) i(1) by (simp add: net_inv_def)
  have len: "length ?ps = d_nodes Q" using wait_enough [OF assms(4)] l by (simp add: links_ok_def)
  have sub: "set ?ps \<subseteq> {x. x \<le> d_nodes Q \<and> x \<noteq> i \<and> linked net x i}"
    using l by (auto simp: links_ok_def)
  have dist: "distinct ?ps" using l by (simp add: links_ok_def)
  have "card (set ?ps) = card ({0..d_nodes Q} - {i})"
    using assms(2) i(1) distinct_card [OF dist] len by simp
  then have ps: "set ?ps = {0..d_nodes Q} - {i}" using sub by (intro card_subset_eq) auto
  have "mset ?ps = mset (d_peers Q i)"
    using ps dist d_peers [of Q i] set_eq_iff_mset_eq_distinct by metis
  note w = start_server_weight [OF this, of "d_chunk Q" Q i]
  have out: "outgoing (cli net x) i = le_bytes 2 x" if "x \<in> set ?ps" for x
    using that sub by (intro early_sent [OF assms(1) i(1) assms(2) i(3)]) auto
  have c: "chunk_size (d_env Q i) = d_chunk Q" by (rule deployed_server(1) [OF dep i(1) assms(2)])
  have "set ?ps \<subseteq> {0..d_nodes Q}" using ps by blast
  note st = start_full [OF dep i(1) assms(2) this out assms(4) [folded len]]
  have f: "full Q net' i = start_server Q i ?ps"
    using st(1) i(2) by (simp add: full_def assms(5) c future_def)
  have s: "?s = start_server Q i (d_peers Q i)" using i(3) by (simp add: full_def)
  note o = start_server_ok [OF dep i(1) assms(2)]
  note new = o [OF dist ps] and old = o [OF d_peers(1,2)]
  have p: "pending (full Q net' i) = pending ?s" "stop_to_come (full Q net' i) = stop_to_come ?s"
    by (simp_all only: pending_def stop_to_come_def f s new(2) old(2))
  have "node_ok Q net' i"
    using n new(1) st(2) assms(3) i(2) p
    by (simp add: node_ok_def f) (simp add: assms(5) c)
  moreover have "node_weight Q net' i < node_weight Q net i"
    using w assms(3) new(2) old(2)
    by (simp add: node_weight_def server_weight_def f s) (simp add: assms(5))
  moreover have "full Q net' j = full Q net j" if "j \<noteq> i" for j
    using that by (intro full_cong) (simp_all add: assms(5))
  ultimately show ?thesis
    by (intro node_step [OF assms(1,2)]) (simp_all add: assms(5) len)
qed

lemma launch_inv:
  assumes "net_inv Q net" and "i \<le> d_nodes Q" and "launch_step (d_cluster Q) i net net'"
  shows "net_inv Q net' \<and> net_weight Q net' < net_weight Q net"
proof -
  have dep: "deployed Q" and n: "node_ok Q net i" using assms(1,2) by (auto simp: net_inv_def)
  from assms(3) show ?thesis
  proof cases
    case create_server
    have f: "full Q net' j = full Q net j" for j
      by (rule full_same) (use create_server(2) in \<open>auto simp: create_server(1)\<close>)
    have "node_ok Q net' i" using n create_server(2) f by (simp add: node_ok_def) (auto simp: create_server(1))
    moreover have "node_weight Q net' i < node_weight Q net i"
      using create_server(2) f by (simp add: node_weight_def server_weight_def) (simp add: create_server(1))
    ultimately show ?thesis
      by (intro node_step [OF assms(1,2)]) (simp_all add: f create_server(2), simp_all add: create_server(1))
  next
    case (connect j)
    then show ?thesis by (intro connect_inv [OF assms(1,2)]) simp_all
  next
    case connected
    have f: "full Q net' j = full Q net j" for j
      by (rule full_same) (use connected(2) in \<open>auto simp: connected(1)\<close>)
    have "connections (cli net i) = links (d_cluster Q) i"
      using n dep assms(2) by (auto simp: node_ok_def client_ok_def client_shape_def deployed_def)
    then have lk: "\<forall>j \<in> set (connections (cli net i)). linked net i j" using connected(3) by simp
    have k: "cpc net i = K_none" using n connected(2) by (simp add: node_ok_def)
    have t: "to_add Q i (main net' i) (full Q net i) = to_add Q i (main net i) (full Q net i)"
      using connected(2) by (simp add: connected(1))
    have c: "client_ok Q i (cli net i) K_none (linked net i) (shut net i) (flagged net i)
        (to_add Q i (main net i) (full Q net i))"
      using n k by (simp add: node_ok_def)
    have "client_ok Q i (cli net i) K_wait (linked net i) (shut net i) (flagged net i)
        (to_add Q i (main net i) (full Q net i))"
      by (rule client_ok_phase [OF c]) (use c lk in \<open>auto simp: client_ok_def\<close>)
    then have "node_ok Q net' i"
      using n connected(2) unfolding node_ok_def f t by (simp add: connected(1))
    moreover have "node_weight Q net' i < node_weight Q net i"
      using connected(2) k f by (simp add: node_weight_def server_weight_def) (simp add: connected(1))
    ultimately show ?thesis
      by (intro node_step [OF assms(1,2)]) (simp_all add: f connected(2), simp_all add: connected(1))
  next
    case (accept x xs)
    then show ?thesis using assms(2) by (intro accept_inv [OF assms(1)]) simp_all
  next
    case (all_accepted hs)
    then show ?thesis by (intro accepted_inv [OF assms(1,2)]) simp_all
  qed
qed

lemma net_step_inv:
  assumes "net_inv Q net" and "net_step (d_cluster Q) net net'"
  shows "net_inv Q net'" "net_weight Q net' < net_weight Q net"
  using assms(2) launch_inv [OF assms(1)] master_inv [OF assms(1)] relay_inv [OF assms(1)]
    client_inv [OF assms(1)] serve_inv [OF assms(1)]
  by (auto elim: net_stepE)

end
