(* ===== verification/Network_Run.thy ===== *)
theory Network_Run
  imports Network_Launch
begin

text \<open>
  Runs of the network: no run goes on forever, and none gets stuck before all main threads have ended.
  The order is: all servers are made and connected, all flags arrive, the master's client sends its tasks and ends,
  the servers' own queues are sealed, the data nodes' clients end, the servers end.
\<close>

section \<open>Progress\<close>

lemma client_enabled:
  assumes "net_inv Q net" and "i \<le> d_nodes Q" and "cpc net i \<noteq> K_end" and "cpc net i \<noteq> K_none"
    and "\<forall>j \<in> set (connections (cli net i)). flagged net i j"
    and "seal_flag (tasks (cli net i))"
  shows "\<exists>net'. client_step (d_cluster Q) i net net'"
proof -
  let ?P = "d_cluster Q"
  have ok: "deployed Q" "node_ok Q net i" using assms(1,2) by (auto simp: net_inv_def)
  have c: "client_ok Q i (cli net i) (cpc net i) (linked net i) (shut net i) (flagged net i)
      (to_add Q i (main net i) (full Q net i))" using ok(2) by (simp add: node_ok_def)
  have up: "conn_up (c_client ?P i) j" for j using ok(1) assms(2) by (simp add: deployed_defs node_env_def)
  show ?thesis
  proof (cases "cpc net i")
    case K_wait
    from all_flags [OF this assms(5)] show ?thesis by blast
  next
    case (K_idle buf)
    obtain t p where "get_task default_migration (tasks (cli net i)) = Some (t, p)"
      using assms(6) by (cases "task_queue (tasks (cli net i))") (auto simp: get_task_def)
    with take_task [OF K_idle] take_stop [OF K_idle] show ?thesis by blast
  next
    case (K_busy t buf)
    from client_sends [OF ok(1) assms(2) c [unfolded K_busy]] send [OF K_busy] show ?thesis by blast
  next
    case (K_signal js)
    show ?thesis
    proof (cases js)
      case Nil
      from signal_end [OF K_signal [unfolded Nil]] show ?thesis by blast
    next
      case (Cons j js')
      from signal [OF K_signal [unfolded Cons] up] show ?thesis by blast
    qed
  qed (use assms(3,4) in simp_all)
qed

text \<open>A server on which nothing more is to come goes on until it has finished.\<close>

lemma all_arrived:
  assumes "\<forall>i \<in> set (accepted net j). flagged net i j \<and> shut net i j"
    and "server_step e (srv net j) s'" and "length (handlers (srv net j)) = length (accepted net j)"
  shows "reads_arrived P net j s'"
  unfolding reads_arrived_def
proof (intro allI impI)
  fix p assume p: "p < length (handlers (srv net j))" "handlers s' ! p \<noteq> handlers (srv net j) ! p"
  then have "accepted net j ! p \<in> set (accepted net j)" using assms(3) by simp
  moreover have "handlers (srv net j) ! p \<noteq> Closed"
    using closed_stays [OF assms(2) p(1)] p(2) by auto
  ultimately show "flagged net (accepted net j ! p) j \<and> can_read (chunk_size (c_server P j))
      (shut net (accepted net j ! p) j) (handlers (srv net j) ! p)"
    using assms(1) by (simp add: can_read_eof)
qed

lemma server_enabled:
  assumes "net_inv Q net" and "1 \<le> j" and "j \<le> d_nodes Q" and "serving_started net j"
    and "\<forall>i \<in> set (accepted net j). flagged net i j \<and> shut net i j" and "serving (srv net j) \<noteq> Finished"
  shows "\<exists>net'. serve_net (d_cluster Q) j net net'"
proof -
  have ok: "deployed Q" "node_ok Q net j" using assms(1,3) by (auto simp: net_inv_def)
  note d = deployed_server [OF ok(1) assms(2,3)]
  note e = serving_started_early [OF assms(4)]
  have s: "server_ok Q j (full Q net j)" "length (handlers (srv net j)) = length (accepted net j)"
    using ok(2) assms(2) e by (simp_all add: node_ok_def handlers_ok_def)
  have "future Q net i j = []" if "i \<in> set (accepted net j)" for i
    using that assms(5) serving_peers(2) [OF assms(1-3) e]
    by (intro future_shut [OF assms(1) _ assms(2,3)]) auto
  then have "full Q net j = srv net j"
    using assms(2) e s(2) by (auto simp: full_def intro: arrive_nothing)
  with s(1) d(6) have "server_inv (d_env Q j) (d_m Q) (d_addrs Q j) (srv net j)"
    "computers (srv net j) \<noteq> []" "writers (srv net j) \<noteq> []" by (auto simp: server_ok_def)
  from progress [OF this(1) d(2,5) this(2,3) assms(6)] obtain s' where
    s': "server_step (d_env Q j) (srv net j) s'" by blast
  from serve [OF assms(4) s' all_arrived [OF assms(5) s' s(2)]] show ?thesis by blast
qed

text \<open>When the master's client has ended, the handlers of its connections go on until they have ended.\<close>

lemma master_enabled:
  assumes "net_inv Q net" and "1 \<le> j" and "j \<le> d_nodes Q" and "serving_started net j"
    and "flagged net 0 j" and "shut net 0 j" and "\<not> seal_flag (own_pool (srv net j))"
  shows "\<exists>net'. serve_net (d_cluster Q) j net net'"
proof -
  let ?s = "srv net j"
  have ok: "deployed Q" "node_ok Q net j" using assms(1,3) by (auto simp: net_inv_def)
  note d = deployed_server [OF ok(1) assms(2,3)]
  note e = serving_started_early [OF assms(4)]
  have ho: "handlers_ok (accepted net j) ?s" using ok(2) assms(2) e by (simp add: node_ok_def)
  have s: "server_ok Q j (full Q net j)" "length (accepted net j) = length (handlers ?s)"
    using ok(2) assms(2) ho by (simp_all add: node_ok_def handlers_ok_def)
  have full: "full Q net j = arrive (\<lambda>i. future Q net i j) (accepted net j) ?s"
    using assms(2) e by (simp add: full_def)
  have "filter is_master (handlers (full Q net j)) \<noteq> []"
    using s(1) assms(2,7) e full_simps(1) [of j net Q] unfolding server_ok_def inv_queue_def
    by (auto simp del: full_simps(7))
  then obtain p where p: "p < length (handlers ?s)" "is_master (handlers (full Q net j) ! p)"
    using s(2) by (auto simp: filter_empty_conv in_set_conv_nth full)
  then have p0: "accepted net j ! p = 0" using ho s(2) by (simp add: handlers_ok_def full)
  obtain str where str: "handlers ?s ! p = Master str"
    using p s(2) by (cases "handlers ?s ! p") (simp_all add: full)
  define hs where "hs = take p (handlers ?s)"
  define hs' where "hs' = drop (Suc p) (handlers ?s)"
  have h: "handlers ?s = hs @ Master str # hs'" "length hs = p"
    using p(1) str id_take_nth_drop [OF p(1)] by (simp_all add: hs_def hs'_def)
  have "future Q net 0 j = []"
    using assms(2,6) by (intro future_shut [OF assms(1) _ assms(2,3)]) simp_all
  then have "handlers (full Q net j) ! p = Master str"
    using p(1) s(2) p0 str by (simp add: full)
  moreover have "handlers (full Q net j) ! p \<in> set (handlers (full Q net j))"
    using p(1) s(2) by (intro nth_mem) (simp add: full)
  ultimately have "good_handler (d_env Q j) (d_m Q) (Master str)"
    using s(1) by (auto simp: server_ok_def server_inv_def inv_task_def)
  then consider "str = []" | "header_size \<le> length str" by (cases "length str < 88") auto
  then obtain s' h2 where s': "master_step (d_env Q j) ?s s'" "handlers s' = hs @ h2 # hs'"
  proof cases
    case 1
    with master_end [OF h(1), of "d_env Q j"] d(7) that show thesis by (auto simp: reads_fully_def)
  next
    case 2
    with master_task [OF h(1), of "d_env Q j"] d(7) that show thesis by (auto simp: reads_fully_def)
  qed
  have "\<not> down ?s" using s(1) assms(2) e by (simp add: server_ok_def server_inv_def)
  from step_master [OF this s'(1)] have step: "server_step (d_env Q j) ?s s'" .
  have "reads_arrived (d_cluster Q) net j s'"
    unfolding reads_arrived_def
  proof (intro allI impI)
    fix q assume "q < length (handlers ?s)" "handlers s' ! q \<noteq> handlers ?s ! q"
    then have "q = p" using h s'(2) by (cases "q < p") (auto simp: nth_append nth_Cons split: nat.splits)
    then show "flagged net (accepted net j ! q) j \<and> can_read (chunk_size (d_env Q j))
        (shut net (accepted net j ! q) j) (handlers ?s ! q)"
      using p0 str assms(5,6) by (simp add: can_read_eof)
  qed
  from serve [OF assms(4) step this] show ?thesis by blast
qed

lemma relay_enabled:
  assumes "main net i = M_relay" and "seal_flag (own_pool (srv net i))"
  shows "\<exists>net'. relay_main i net net'"
proof -
  obtain t p where "get_task default_migration (own_pool (srv net i)) = Some (t, p)"
    using assms(2) by (cases "task_queue (own_pool (srv net i))") (auto simp: get_task_def)
  with relay_task [OF assms(1)] relay_end [OF assms(1)] show ?thesis by blast
qed

text \<open>A server that waits for its connections gets them.\<close>

lemma accept_enabled:
  assumes "net_inv Q net" and "1 \<le> j" and "j \<le> d_nodes Q" and "main net j = M_accept"
    and "\<And>x. x \<le> d_nodes Q \<Longrightarrow> x \<noteq> j \<Longrightarrow> linked net x j"
  shows "\<exists>net'. launch_step (d_cluster Q) j net net'"
proof (cases "length (accepted net j) < d_nodes Q")
  case less: True
  have l: "links_ok (d_nodes Q) net j" using assms(1-3) by (simp add: net_inv_def)
  have "set (accepted net j @ backlog net j) = {0..d_nodes Q} - {j}"
    using l assms(5) by (auto simp: links_ok_def)
  moreover have "distinct (accepted net j @ backlog net j)" using l by (simp add: links_ok_def)
  ultimately have "length (accepted net j @ backlog net j) = d_nodes Q"
    using assms(2,3) distinct_card [of "accepted net j @ backlog net j"] by simp
  then obtain x xs where "backlog net j = x # xs" using less by (cases "backlog net j") auto
  from accept [OF _ _ less this] assms(2,4) show ?thesis by fastforce
next
  case False
  let ?ps = "accepted net j"
  have dep: "deployed Q" and l: "links_ok (d_nodes Q) net j" using assms(1-3) by (simp_all add: net_inv_def)
  then have len: "length ?ps = d_nodes Q" using False by (simp add: links_ok_def)
  have sub: "x \<le> d_nodes Q \<and> x \<noteq> j \<and> linked net x j" if "x \<in> set ?ps" for x
    using l that by (auto simp: links_ok_def)
  have "outgoing (cli net x) j = le_bytes 2 x @ []" if "x \<in> set ?ps" for x
    using sub [OF that] early_sent [OF assms(1-3)] assms(4) by simp
  then have "map (\<lambda>x. Some (outgoing (cli net x) j)) ?ps = map (\<lambda>x. Some (le_bytes 2 x @ [])) ?ps" by simp
  moreover have "\<forall>x \<in> set ?ps. x < 65536" using sub dep unfolding deployed_def by fastforce
  note wait_for_connections [OF deployed_server(7) [OF dep assms(2,3)] this, of "\<lambda>_. []"]
  ultimately show ?thesis
    using all_accepted [OF assms(4), of "d_cluster Q"] unfolding len by metis
qed

lemma connect_enabled:
  assumes "net_inv Q net" and "i \<le> d_nodes Q" and "main net i = M_connect"
    and "\<And>j. j \<le> d_nodes Q \<Longrightarrow> main net j \<noteq> M_new"
  shows "\<exists>net'. launch_step (d_cluster Q) i net net'"
proof (cases "\<forall>j \<in> set (links (d_cluster Q) i). linked net i j")
  case True
  from connected [OF assms(3) this] show ?thesis by blast
next
  case False
  then obtain j where j: "j \<in> set (links (d_cluster Q) i)" "\<not> linked net i j" by blast
  have "j \<le> d_nodes Q" using j(1) deployed_links [OF _ assms(2)] assms(1) by (auto simp: net_inv_def)
  from connect [OF assms(3) j assms(4) [OF this]] show ?thesis by blast
qed

lemma net_progress:
  assumes "net_inv Q net" and "i \<le> d_nodes Q" and "main net i \<noteq> M_end"
  shows "\<exists>net'. net_step (d_cluster Q) net net'"
proof (rule ccontr)
  assume "\<not> ?thesis"
  then have stuck: "\<not> net_step (d_cluster Q) net net'" for net' by blast
  have dep: "deployed Q" using assms(1) by (simp add: net_inv_def)
  have ok: "\<not> exited net j" "node_ok Q net j" if "j \<le> d_nodes Q" for j
    using assms(1) that by (auto simp: net_inv_def)
  have sl: "\<not> launch_step (d_cluster Q) j net net'" if "j \<le> d_nodes Q" for j net'
    using stuck by_launch [OF that ok(1) [OF that]] by blast
  have sm: "\<not> client_step (d_cluster Q) j net net'" if "j \<le> d_nodes Q" for j net'
    using stuck by_client [OF that ok(1) [OF that]] by blast
  have sr: "\<not> relay_main j net net'" if "1 \<le> j" "j \<le> d_nodes Q" for j net'
    using stuck by_relay [OF that ok(1) [OF that(2)]] by blast
  have s0: "\<not> master_main net net'" for net'
    using stuck by_master [OF ok(1)] by blast
  have ss: "\<not> serve_net (d_cluster Q) j net net'" if "1 \<le> j" "j \<le> d_nodes Q" for j net'
    using stuck by_server [OF that ok(1) [OF that(2)]] by blast
  \<comment> \<open>All servers have been made, all connections have been made and accepted.\<close>
  have made: "main net j \<noteq> M_new" if "j \<le> d_nodes Q" for j
    using sl [OF that] create_server by blast
  have conn: "main net j \<noteq> M_connect" if "j \<le> d_nodes Q" for j
    using connect_enabled [OF assms(1) that _ made] sl [OF that] by blast
  have up: "cpc net j \<noteq> K_none" if "j \<le> d_nodes Q" for j
    using ok(2) [OF that] made [OF that] conn [OF that] by (cases "main net j") (auto simp: node_ok_def)
  have links: "connections (cli net y) = filter (\<lambda>j. j \<noteq> y) [1..<Suc (d_nodes Q)]" if "y \<le> d_nodes Q" for y
    using ok(2) [OF that] by (simp add: node_ok_def client_ok_def client_shape_def)
  have lk: "linked net y j" if "y \<le> d_nodes Q" "1 \<le> j" "j \<le> d_nodes Q" "y \<noteq> j" for y j
  proof -
    have "j \<in> set (connections (cli net y))" using that by (simp add: links del: upt_Suc)
    with ok(2) [OF that(1)] up [OF that(1)] show ?thesis
      by (cases "cpc net y") (auto simp: node_ok_def client_ok_def)
  qed
  have acc: "main net j \<noteq> M_accept" if "1 \<le> j" "j \<le> d_nodes Q" for j
    using accept_enabled [OF assms(1) that] lk that sl [OF that(2)] by blast
  \<comment> \<open>All servers have been started and all flags have been sent.\<close>
  have started: "serving_started net j" if "1 \<le> j" "j \<le> d_nodes Q" for j
    using sr [OF that] start_serving [of net j] ok(2) [OF that(2)] that made conn acc
    by (cases "main net j") (auto simp: serving_started_def node_ok_def)
  note peers = serving_peers(2) [OF assms(1) _ _ serving_started_early [OF started]]
  have flags: "flagged net y j" if "1 \<le> j" "j \<le> d_nodes Q" "y \<le> d_nodes Q" "y \<noteq> j" for y j
    using ss [OF that(1,2)] send_flag [OF started [OF that(1,2)], of y] peers [of j] that by auto
  have closed: "cpc net y = K_end \<and> (\<forall>j. 1 \<le> j \<and> j \<le> d_nodes Q \<and> y \<noteq> j \<longrightarrow> shut net y j)"
    if "y \<le> d_nodes Q" "seal_flag (tasks (cli net y))" for y
  proof -
    have "\<forall>j \<in> set (connections (cli net y)). flagged net y j"
      using flags that(1) by (auto simp: links simp del: upt_Suc)
    then have "cpc net y = K_end"
      using client_enabled [OF assms(1) that(1) _ up [OF that(1)] _ that(2)] sm [OF that(1)] by blast
    with ok(2) [OF that(1)] have "\<forall>j \<in> set (connections (cli net y)). shut net y j"
      by (simp add: node_ok_def client_ok_def)
    with \<open>cpc net y = K_end\<close> show ?thesis using that(1) by (auto simp: links simp del: upt_Suc)
  qed
  \<comment> \<open>The master has ended its part.\<close>
  have "main net 0 \<noteq> M_submit ts" for ts
  proof
    assume m: "main net 0 = M_submit ts"
    show False
    proof (cases ts)
      case Nil
      with s0 submit_end [of net] m show False by blast
    next
      case (Cons t us)
      have "add_to_client (cli net 0) t \<noteq> None" by (simp add: add_to_client_def)
      then obtain r where "add_to_client (cli net 0) t = Some r" by blast
      with s0 submit_task [OF m [unfolded Cons]] submit_exit [OF m [unfolded Cons]] show False
        by (cases r) blast+
    qed
  qed
  then have "seal_flag (tasks (cli net 0))"
    using ok(2) [of 0] conn [of 0] by (cases "main net 0") (auto simp: node_ok_def)
  note master = closed [OF _ this]
  have sealed: "seal_flag (tasks (cli net j))" if "1 \<le> j" "j \<le> d_nodes Q" for j
  proof -
    have "seal_flag (own_pool (srv net j))"
      using master_enabled [OF assms(1) that started [OF that] flags [OF that, of 0]] master
        ss [OF that] that by auto
    then have "main net j \<noteq> M_relay" using relay_enabled sr [OF that] by blast
    with started [OF that] ok(2) [OF that(2)] show ?thesis by (auto simp: serving_started_def node_ok_def)
  qed
  \<comment> \<open>All clients have ended, so the servers go on.\<close>
  have all: "cpc net y = K_end \<and> (\<forall>j. 1 \<le> j \<and> j \<le> d_nodes Q \<and> y \<noteq> j \<longrightarrow> shut net y j)"
    if "y \<le> d_nodes Q" for y
    using closed [OF that] master sealed [OF _ that] that by (cases "y = 0") auto
  have fin: "serving (srv net j) = Finished" if "1 \<le> j" "j \<le> d_nodes Q" for j
  proof -
    have "\<forall>y \<in> set (accepted net j). flagged net y j \<and> shut net y j"
      using peers [OF that that] flags [OF that] all that by auto
    with server_enabled [OF assms(1) that started [OF that]] ss [OF that] show ?thesis by blast
  qed
  have "main net i = M_join"
    using sealed [of i] \<open>seal_flag (tasks (cli net 0))\<close> ok(2) [OF assms(2)] assms(2,3)
    by (cases "i = 0") (auto simp: node_ok_def)
  with join_client join_threads [OF this] all [OF assms(2)] fin [of i] assms(2) s0 sr [of i] show False
    by (cases "i = 0") auto
qed

section \<open>The start\<close>

lemma start_inv:
  assumes "deployed Q" and "net_start (d_cluster Q) net"
  shows "net_inv Q net"
proof -
  from assms(2) have st: "main net i = (if i = 0 then M_connect else M_new)" "cpc net i = K_none"
    "cli net i = blank_client i (targets (c_config (d_cluster Q) i)) 1" "backlog net i = []" "accepted net i = []"
    "\<not> linked net i j" "\<not> flagged net i j" "\<not> shut net i j" "\<not> exited net i" for i j
    by (simp_all add: net_start_def)
  have f: "full Q net j = start_server Q j (d_peers Q j)" for j by (simp add: full_def st(1))
  note o = start_server_ok [OF assms(1) _ _ d_peers]
  have "node_ok Q net i" if i: "i \<le> d_nodes Q" for i
  proof -
    have c: "client_shape (d_nodes Q) i (cli net i)" using assms(1) i by (simp add: deployed_def st(3))
    have m: "takeWhile (\<lambda>t. \<not> is_stop t) (own_total (full Q net i)) = agenda Q i"
      "stop_to_come (full Q net i)" if "i \<noteq> 0"
      using o(2) [OF _ i] master_headers [OF assms(1) _ i] that by (simp_all add: f stop_to_come_def)
    have add: "to_add Q i (main net i) (full Q net i) = agenda Q i"
      using m(1) by (simp add: st(1) pending_def) (simp add: agenda_def)
    have "client_ok Q i (cli net i) K_none (linked net i) (shut net i) (flagged net i) (agenda Q i)"
      by (rule client_okI [of _ _ _ "[]"]) (use c in \<open>simp_all add: st(3,6,8) blank_client_def new_pool_def\<close>)
    moreover have "main_ok i (main net i) K_none (full Q net i)" using m(2) by (simp add: st(1))
    moreover have "server_ok Q i (full Q net i)" if "i \<noteq> 0" using o(1) [OF _ i] that by (simp add: f)
    moreover have "\<not> seal_flag (tasks (cli net i))" by (simp add: st(3) blank_client_def new_pool_def)
    ultimately show ?thesis unfolding node_ok_def add st(2) by (simp add: st(1))
  qed
  then show ?thesis using assms(1) st by (simp add: net_inv_def links_ok_def)
qed

section \<open>Runs to the end\<close>

definition net_done :: "deployment \<Rightarrow> network \<Rightarrow> bool" where
  "net_done Q net \<longleftrightarrow> (\<forall>i \<le> d_nodes Q. main net i = M_end)"

lemma done_stops:
  assumes "net_inv Q net" and "net_done Q net"
  shows "\<not> net_step (d_cluster Q) net net'"
proof
  assume "net_step (d_cluster Q) net net'"
  then show False
  proof cases
    case (by_launch i)
    then have m: "main net i = M_end" using assms(2) by (simp add: net_done_def)
    from by_launch(3) show False
    proof cases
      case (accept x xs)
      then have "links_ok (d_nodes Q) net i" using assms(1) by_launch(1) by (simp add: net_inv_def)
      then show False using accept(4) m by (simp add: links_ok_def)
    qed (use m in simp_all)
  next
    case by_master
    then show False using assms(2) by (auto simp: net_done_def elim: master_mainE)
  next
    case (by_relay i)
    then show False using assms(2) by (auto simp: net_done_def elim: relay_mainE)
  next
    case (by_client i)
    then have "cpc net i = K_end" using assms by (auto simp: net_inv_def net_done_def node_ok_def)
    then show False using by_client(3) by (auto elim: client_stepE)
  next
    case (by_server j)
    have dep: "deployed Q" and j: "node_ok Q net j" "main net j = M_end"
      using assms by_server by (auto simp: net_inv_def net_done_def)
    note d = deployed_server [OF dep by_server(1,2)]
    have fin: "serving (full Q net j) = Finished" "server_ok Q j (full Q net j)"
      using j by_server(1) by (simp_all add: node_ok_def)
    have "serving_started net j" using j(2) by (simp add: serving_started_def)
    note peers = serving_peers(2) [OF assms(1) by_server(1,2) serving_started_early [OF this]]
    from by_server(4) show False
    proof cases
      case (send_flag i)
      have i: "i \<le> d_nodes Q" "i \<noteq> j" using send_flag(3) peers by auto
      then have "node_ok Q net i" "main net i = M_end" using assms by (auto simp: net_inv_def net_done_def)
      then have "\<forall>j \<in> set (connections (cli net i)). flagged net i j" "client_shape (d_nodes Q) i (cli net i)"
        by (auto simp: node_ok_def client_ok_def)
      then have "flagged net i j"
        using i by_server(1,2) by (auto simp: client_shape_def simp del: upt_Suc)
      then show False using send_flag(4) by simp
    next
      case (serve s')
      from server_ok_step(4) [OF fin(2) dep by_server(1,2)
          serving_step [OF assms(1) by_server(1,2) serve(3,4,2)]] fin(1) show False by simp
    qed
  qed
qed

interpretation nw: measured_system "\<lambda>Q. net_step (d_cluster Q)" net_inv net_weight net_done
proof (unfold_locales, goal_cases)
  case (1 Q net net')
  then show ?case by (rule net_step_inv(1))
next
  case (2 Q net net')
  then show ?case by (rule net_step_inv(2))
next
  case (3 Q net)
  then show ?case using net_progress by (auto simp: net_done_def)
next
  case (4 Q net net')
  then show ?case by (rule done_stops)
qed

text \<open>What a server of the network has written when it has finished.\<close>

lemma network_stored:
  assumes "net_inv Q net" and "1 \<le> x" and "x \<le> d_nodes Q" and "serving_started net x"
    and "serving (srv net x) = Finished"
  shows "mset (stored (srv net x)) + unwritten (srv net x) =
      deliveries (d_env Q x) (d_k Q) (d_std Q) x (d_tasks Q) \<and>
    (\<forall>t \<in> set (task_queue (w_worker (srv net x))). coefficient t \<noteq> Some 0) \<and>
    (d_workers Q = 1 \<longrightarrow> unwritten (srv net x) = {#})"
proof -
  let ?s = "full Q net x"
  have dep: "deployed Q" and n: "node_ok Q net x" using assms(1,3) by (auto simp: net_inv_def)
  note e = serving_started_early [OF assms(4)]
  have s: "server_ok Q x ?s" using n assms(2) by (simp add: node_ok_def)
  have fin: "inv_phase ?s" "serving ?s = Finished" "computers ?s \<noteq> []" "writers ?s \<noteq> []"
    using s assms(2,5) e deployed_server(6) [OF dep assms(2,3)] by (auto simp: server_ok_def server_inv_def)
  have "task_queue (w_worker ?s) = []" if "d_workers Q = 1"
  proof -
    have "W_done \<in> set (writers ?s)"
      using fin by (cases "writers ?s") (simp_all add: inv_phase_def)
    with s that show ?thesis by (simp add: server_ok_def inv_single_def)
  qed
  moreover have "unwritten ?s = unwritten (srv net x)"
    using assms(2) e by (simp add: unwritten_def)
  ultimately show ?thesis
    using finished_outputs(1) [OF fin, of "d_env Q x" "d_k Q"] finished_outputs(2) [OF fin] s assms(2) e
    by (auto simp: server_ok_def unwritten_def)
qed

end
