(* ===== verification/Network_Props.thy ===== *)
theory Network_Props
  imports Network_Run
begin

text \<open>
  The properties of the whole program with all its threads: every run of a cluster ends, nobody exits
  on the way, and in the end every node has written what the master's scheme asks for.
\<close>

section \<open>From the configuration on\<close>

definition the_deployment :: "cluster \<Rightarrow> nat \<Rightarrow> nat \<Rightarrow> nat \<Rightarrow> (nat \<Rightarrow> migration \<Rightarrow> byte list) \<Rightarrow>
    (nat \<Rightarrow> byte list) \<Rightarrow> deployment" where
  "the_deployment P k m chunk raw std = \<lparr>d_cluster = P, d_k = k, d_m = m, d_chunk = chunk,
     d_raw = raw, d_std = std\<rparr>"

lemma the_deployment_simps [simp]:
  "d_cluster (the_deployment P k m chunk raw std) = P"
  "d_k (the_deployment P k m chunk raw std) = k"
  "d_m (the_deployment P k m chunk raw std) = m"
  "d_chunk (the_deployment P k m chunk raw std) = chunk"
  "d_raw (the_deployment P k m chunk raw std) = raw"
  "d_std (the_deployment P k m chunk raw std) = std"
  by (simp_all add: the_deployment_def)

lemma client_shape_connected:
  "client_shape n i (foldl (\<lambda>c (j, a). connect_one j c) c ps) = client_shape n i c"
  by (induction ps arbitrary: c) (simp_all split: prod.splits)

text \<open>The clients are going to be connected to all other nodes.\<close>

lemma configured_links:
  assumes "configured k m nodes (c_config P)" and "k < 2 ^ 32" and "m < 2 ^ 32" and "length nodes = c_nodes P"
    and "1 \<le> c_nodes P" and "c_nodes P < 1000" and "i \<le> c_nodes P"
  shows "links P i = filter (\<lambda>j. j \<noteq> i) [1..<Suc (c_nodes P)]"
    "client_shape (c_nodes P) i (blank_client i (targets (c_config P i)) 1)"
proof -
  let ?n = "c_nodes P"
  have n: "?n < 65535" "nodes \<noteq> []" "length nodes < 65535" "i \<le> length nodes" using assms(4-7) by auto
  note t = configured_targets [OF assms(1-3) n(2-4), unfolded assms(4)]
  show "links P i = filter (\<lambda>j. j \<noteq> i) [1..<Suc ?n]"
    unfolding links_def t using connect_all_numbers [OF n(1), of 1 i "nth_node nodes"]
    by (simp add: comp_def del: upt_Suc)
  have "ready_client i ?n (new_client i (targets (c_config P i)) 1)"
    unfolding t by (rule new_client_ready [OF n(1) assms(7)])
  then have "client_shape ?n i (new_client i (targets (c_config P i)) 1)"
    by (simp add: ready_client_def client_shape_def)
  then show "client_shape ?n i (blank_client i (targets (c_config P i)) 1)"
    by (simp add: new_client_def client_shape_connected)
qed

lemma network_deployed:
  assumes "supported k m num (c_config P 0)" and "c_nodes P = 2 * k + m" and "c_nodes P < 1000"
    and "length nodes = c_nodes P" and "configured k m nodes (c_config P)"
    and "\<And>i xs. mset (shufd i xs) = mset xs" and "\<And>i xs. mset (shufs i xs) = mset xs"
    and "\<And>ts. mset (shuffle ts) = mset ts"
    and "start_master shufd shufs shuffle (c_config P 0) num ty = Some (Inr cl)"
    and "c_tasks P = task_queue (tasks cl)" and "cluster_ready P k m chunk raw std"
    and "Q = the_deployment P k m chunk raw std"
  shows "deployed Q"
proof -
  from cluster_tasks [where shufd = shufd and shufs = shufs and shuffle = shuffle and ty = ty,
      OF assms(1-8)] assms(9) obtain ts where
    ts: "cl = node_client (c_nodes P) 0 (nth_node nodes) ts" "\<forall>t \<in> set ts. \<exists>i. prepared (c_nodes P) m i t"
    by auto
  have t: "c_tasks P = ts" by (simp add: assms(10) ts(1) node_client_def)
  have km: "k < 2 ^ 32" "m < 2 ^ 32" "1 \<le> c_nodes P"
    using assms(1,2) by (simp_all add: supported_def)
  note l = configured_links [OF assms(5) km(1,2) assms(4) km(3) assms(3)]
  show ?thesis
    unfolding deployed_def assms(12) the_deployment_simps t using assms(3,11) ts(2) l by blast
qed

section \<open>Properties\<close>

text \<open>C2. The program comes to an end. A cluster of \<open>2 k + m\<close> data nodes and the master is started from one
  configuration, with the tasks of a scheme of any type. From the moment the programs have read their
  configurations all threads of all nodes run in any interleaving: the servers are made, the clients
  connect, the connections are accepted, the main threads, the clients, the handlers and the workers
  of the servers run. The number of steps of all runs is bounded, no program exits with an error on the way,
  and a state in
  which no thread can move is one in which every main thread has returned, its client has shut its
  connections down and its server has finished.\<close>

theorem network_terminates:
  assumes "supported k m num (c_config P 0)" and "c_nodes P = 2 * k + m" and "c_nodes P < 1000"
    and "length nodes = c_nodes P" and "configured k m nodes (c_config P)"
    and "\<And>i xs. mset (shufd i xs) = mset xs" and "\<And>i xs. mset (shufs i xs) = mset xs"
    and "\<And>ts. mset (shuffle ts) = mset ts"
    and "start_master shufd shufs shuffle (c_config P 0) num ty = Some (Inr cl)"
    and "c_tasks P = task_queue (tasks cl)" and "cluster_ready P k m chunk raw std"
    and "net_start P net0"
  shows "\<exists>B. \<forall>N net. (net_step P ^^ N) net0 net \<longrightarrow> N \<le> B \<and>
    (\<forall>i \<le> c_nodes P. \<not> exited net i \<and> (1 \<le> i \<and> serving_started net i \<longrightarrow> \<not> down (srv net i)) \<and>
      (main net i = M_end \<longrightarrow> cpc net i = K_end \<and> (1 \<le> i \<longrightarrow> serving (srv net i) = Finished))) \<and>
    ((\<forall>net'. \<not> net_step P net net') \<longleftrightarrow> (\<forall>i \<le> c_nodes P. main net i = M_end))"
proof -
  define Q where "Q = the_deployment P k m chunk raw std"
  have d: "deployed Q"
    by (rule network_deployed [where shufd = shufd and shufs = shufs and shuffle = shuffle, OF assms(1-11) Q_def])
  have inv: "net_inv Q net0" by (rule start_inv [OF d]) (simp add: Q_def assms(12))
  have "N \<le> net_weight Q net0 \<and>
      (\<forall>i \<le> c_nodes P. \<not> exited net i \<and> (1 \<le> i \<and> serving_started net i \<longrightarrow> \<not> down (srv net i)) \<and>
        (main net i = M_end \<longrightarrow> cpc net i = K_end \<and> (1 \<le> i \<longrightarrow> serving (srv net i) = Finished))) \<and>
      ((\<forall>net'. \<not> net_step P net net') \<longleftrightarrow> (\<forall>i \<le> c_nodes P. main net i = M_end))"
    if run: "(net_step P ^^ N) net0 net" for N net
  proof -
    have r: "(net_step (d_cluster Q) ^^ N) net0 net" using run by (simp add: Q_def)
    from nw.run_bounded [OF r inv] have b: "N \<le> net_weight Q net0" "net_inv Q net" by simp_all
    have "\<forall>i \<le> c_nodes P. \<not> exited net i \<and> node_ok Q net i" using b(2) by (simp add: net_inv_def Q_def)
    then have "\<forall>i \<le> c_nodes P. \<not> exited net i \<and> (1 \<le> i \<and> serving_started net i \<longrightarrow> \<not> down (srv net i)) \<and>
        (main net i = M_end \<longrightarrow> cpc net i = K_end \<and> (1 \<le> i \<longrightarrow> serving (srv net i) = Finished))"
      using serving_started_early [of net] by (auto simp: node_ok_def server_ok_def server_inv_def)
    moreover have "net_done Q net \<longleftrightarrow> (\<forall>net'. \<not> net_step P net net')"
      using nw.stuck_iff_final [OF b(2)] by (simp add: Q_def)
    ultimately show ?thesis using b(1) by (simp add: net_done_def Q_def)
  qed
  then show ?thesis by blast
qed

text \<open>C1. The cluster does its work, under all interleavings. In every state that a run of the cluster
  reaches from the start of its programs, the files that a finished server has written, together with the
  parity blocks that its
  workers have lost, are exactly those of the master's tasks with that node as target, each
  with its content; with one worker thread nothing is lost.\<close>

theorem network_delivers:
  assumes "supported k m num (c_config P 0)" and "c_nodes P = 2 * k + m" and "c_nodes P < 1000"
    and "length nodes = c_nodes P" and "configured k m nodes (c_config P)"
    and "\<And>i xs. mset (shufd i xs) = mset xs" and "\<And>i xs. mset (shufs i xs) = mset xs"
    and "\<And>ts. mset (shuffle ts) = mset ts"
    and "start_master shufd shufs shuffle (c_config P 0) num ty = Some (Inr cl)"
    and "c_tasks P = task_queue (tasks cl)" and "cluster_ready P k m chunk raw std"
    and "net_start P net0" and "(net_step P)\<^sup>*\<^sup>* net0 net" and "1 \<le> x" and "x \<le> c_nodes P"
    and "serving_started net x" and "serving (srv net x) = Finished"
  shows "mset (stored (srv net x)) + unwritten (srv net x) =
      deliveries (c_server P x) k std x (task_queue (tasks cl)) \<and>
    (\<forall>t \<in> set (task_queue (w_worker (srv net x))). coefficient t \<noteq> Some 0) \<and>
    (c_workers P = 1 \<longrightarrow>
      mset (stored (srv net x)) = deliveries (c_server P x) k std x (task_queue (tasks cl)))"
proof -
  define Q where "Q = the_deployment P k m chunk raw std"
  have d: "deployed Q"
    by (rule network_deployed [where shufd = shufd and shufs = shufs and shuffle = shuffle, OF assms(1-11) Q_def])
  have inv: "net_inv Q net0" by (rule start_inv [OF d]) (simp add: Q_def assms(12))
  have "(net_step (d_cluster Q))\<^sup>*\<^sup>* net0 net" using assms(13) by (simp add: Q_def)
  from nw.run_inv [OF this inv] have "net_inv Q net" .
  from network_stored [OF this assms(14) _ assms(16,17)] assms(10,15) show ?thesis by (auto simp: Q_def)
qed

text \<open>The tasks by their targets.\<close>

lemma split_by_target:
  assumes "\<forall>t \<in># M. 1 \<le> target t \<and> target t \<le> int n"
  shows "(\<Sum>x \<in> {1..n}. image_mset f (filter_mset (\<lambda>t. target t = int x) M)) = image_mset f M"
  using assms
proof (induction M)
  case (add t M)
  have t: "nat (target t) \<in> {1..n}" using add.prems by auto
  have "(\<Sum>x \<in> {1..n}. image_mset f (filter_mset (\<lambda>t. target t = int x) (add_mset t M))) =
      (\<Sum>x \<in> {1..n}. (if x = nat (target t) then {#f t#} else {#}) +
        image_mset f (filter_mset (\<lambda>t. target t = int x) M))"
    using add.prems by (intro sum.cong) auto
  also have "\<dots> = {#f t#} + image_mset f M"
    using add t by (simp add: sum.distrib del: atLeastAtMost_iff)
  finally show ?case by simp
qed simp


section \<open>Witnesses\<close>

text \<open>Five data nodes and the master, with chunks of one byte and one worker thread each.\<close>

definition five_cluster :: "migration list \<Rightarrow> cluster" where
  "five_cluster ts = \<lparr>c_nodes = 5, c_server = (\<lambda>_. five_env),
     c_client = node_env (chunk_size five_env) (\<lambda>_ _. replicate 88 0) (\<lambda>_. [9]),
     c_config = five_cf, c_addrs = (\<lambda>_. [64, 128]), c_workers = 1, c_tasks = ts\<rparr>"

lemma five_simps [simp]:
  "c_nodes (five_cluster ts) = 5" "c_server (five_cluster ts) j = five_env" "c_config (five_cluster ts) = five_cf"
  "c_workers (five_cluster ts) = 1" "c_tasks (five_cluster ts) = ts"
  by (simp_all add: five_cluster_def)

lemma five_ready: "cluster_ready (five_cluster ts) 2 1 (chunk_size five_env) (\<lambda>_ _. replicate 88 0) (\<lambda>_. [9])"
proof -
  have "node_server_ok five_env 2 1 5 j (\<lambda>_. [9])" for j
    using five_ok(4) by (simp add: node_server_ok_def five_env_def) (simp add: demo_env_def)
  then show ?thesis using five_ok(3) by (simp add: cluster_ready_def five_cluster_def)
qed

text \<open>There are tasks of a scheme, and a start with them.\<close>

lemma five_start:
  obtains ts cl net0 Q where "start_master (\<lambda>_. rev) (\<lambda>_. rev) rev (c_config (five_cluster ts) 0) 600 0 = Some (Inr cl)"
    "c_tasks (five_cluster ts) = task_queue (tasks cl)" "net_start (five_cluster ts) net0"
    "net_inv Q net0" "d_cluster Q = five_cluster ts"
proof -
  have len: "length five_nodes = 5" by simp
  obtain us where m: "start_master (\<lambda>_. rev) (\<lambda>_. rev) rev (five_cf 0) 600 0 =
      Some (Inr (node_client 5 0 (nth_node five_nodes) us))"
    using cluster_tasks [where shufd = "\<lambda>_. rev" and shufs = "\<lambda>_. rev" and shuffle = rev and ty = 0,
      OF five_ok(2) _ _ len five_ok(1)] by auto
  define ts where "ts = task_queue (tasks (node_client 5 0 (nth_node five_nodes) us))"
  define Q where "Q = the_deployment (five_cluster ts) 2 1 (chunk_size five_env) (\<lambda>_ _. replicate 88 0) (\<lambda>_. [9])"
  have d: "deployed Q"
    using network_deployed [where shufd = "\<lambda>_. rev" and shufs = "\<lambda>_. rev" and shuffle = rev and P = "five_cluster ts",
      unfolded five_simps, OF five_ok(2) _ _ len five_ok(1) _ _ _ m ts_def five_ready Q_def] by simp
  define net0 where "net0 = \<lparr>main = (\<lambda>i. if i = 0 then M_connect else M_new), cpc = (\<lambda>_. K_none),
    cli = (\<lambda>i. blank_client i (targets (five_cf i)) 1), srv = (\<lambda>_. new_server [] 0 0 []), linked = (\<lambda>_ _. False),
    backlog = (\<lambda>_. []), accepted = (\<lambda>_. []), flagged = (\<lambda>_ _. False), shut = (\<lambda>_ _. False),
    exited = (\<lambda>_. False)\<rparr>"
  have st: "net_start (five_cluster ts) net0" by (simp add: net_start_def net0_def)
  moreover have "net_inv Q net0" by (rule start_inv [OF d]) (simp add: Q_def st)
  moreover have "d_cluster Q = five_cluster ts" by (simp add: Q_def)
  ultimately show thesis using m ts_def that [of ts] by simp
qed

theorem network_terminates_witness:
  "\<exists>ts net0. net_start (five_cluster ts) net0 \<and>
    (\<exists>B. \<forall>N net. (net_step (five_cluster ts) ^^ N) net0 net \<longrightarrow> N \<le> B \<and>
      (\<forall>i \<le> 5. \<not> exited net i \<and> (1 \<le> i \<and> serving_started net i \<longrightarrow> \<not> down (srv net i)) \<and>
        (main net i = M_end \<longrightarrow> cpc net i = K_end \<and> (1 \<le> i \<longrightarrow> serving (srv net i) = Finished))) \<and>
      ((\<forall>net'. \<not> net_step (five_cluster ts) net net') \<longleftrightarrow> (\<forall>i \<le> 5. main net i = M_end)))"
proof -
  have len: "length five_nodes = 5" by simp
  obtain ts cl net0 Q where
    m: "start_master (\<lambda>_. rev) (\<lambda>_. rev) rev (c_config (five_cluster ts) 0) 600 0 = Some (Inr cl)"
      "c_tasks (five_cluster ts) = task_queue (tasks cl)" "net_start (five_cluster ts) net0"
    by (rule five_start)
  note r = network_terminates [where shufd = "\<lambda>_. rev" and shufs = "\<lambda>_. rev" and shuffle = rev and P = "five_cluster ts",
      OF _ _ _ _ _ _ _ _ m(1,2) five_ready m(3), of five_nodes, unfolded five_simps, OF five_ok(2) _ _ len five_ok(1)]
  show ?thesis by (intro exI [of _ ts] exI [of _ net0] conjI m(3) r) simp_all
qed

theorem network_delivers_witness:
  "\<exists>ts cl net0 net. start_master (\<lambda>_. rev) (\<lambda>_. rev) rev (five_cf 0) 600 0 = Some (Inr cl) \<and>
    ts = task_queue (tasks cl) \<and> net_start (five_cluster ts) net0 \<and>
    (net_step (five_cluster ts))\<^sup>*\<^sup>* net0 net \<and> (\<forall>i \<le> 5. main net i = M_end) \<and>
    mset (stored (srv net 1)) = deliveries five_env 2 (\<lambda>_. [9]) 1 (task_queue (tasks cl))"
proof -
  have len: "length five_nodes = 5" by simp
  obtain ts cl net0 Q where
    m: "start_master (\<lambda>_. rev) (\<lambda>_. rev) rev (c_config (five_cluster ts) 0) 600 0 = Some (Inr cl)"
      "c_tasks (five_cluster ts) = task_queue (tasks cl)" "net_start (five_cluster ts) net0"
      "net_inv Q net0" "d_cluster Q = five_cluster ts"
    by (rule five_start)
  from nw.can_finish [OF m(4)] obtain net where
    r: "(net_step (five_cluster ts))\<^sup>*\<^sup>* net0 net" "\<forall>i \<le> 5. main net i = M_end"
    by (auto simp: m(5) net_done_def)
  from nw.run_inv [OF _ m(4)] r(1) have "net_inv Q net" by (simp add: m(5))
  then have "node_ok Q net 1" by (simp add: net_inv_def m(5))
  then have fin: "serving (srv net 1) = Finished" using r(2) by (simp add: node_ok_def)
  have st: "serving_started net 1" using r(2) by (simp add: serving_started_def)
  note d = network_delivers [where shufd = "\<lambda>_. rev" and shufs = "\<lambda>_. rev" and shuffle = rev and P = "five_cluster ts",
      OF _ _ _ _ _ _ _ _ m(1,2) five_ready m(3) r(1) _ _ st fin, of five_nodes, unfolded five_simps,
      OF five_ok(2) _ _ len five_ok(1)]
  have "mset (stored (srv net 1)) = deliveries five_env 2 (\<lambda>_. [9]) 1 (task_queue (tasks cl))"
    using d by simp
  with m(1-3) r show ?thesis by (intro exI [of _ ts] exI [of _ cl] exI [of _ net0] exI [of _ net]) simp
qed


end
