(* ===== verification/Blossom.thy ===== *)
theory Blossom
  imports Cost_Table
begin

text \<open>
  The maximum weight matching of \<open>MatchingGenerator::blossom\<close> (src/blossom.cc), which gives the
  cheapest possible matching of a small number of stripes for comparison.

  The global variables of the file are the record \<open>blossom_vars\<close>, the functions are total maps
  from it to an optional result. \<open>None\<close> is an access outside an array, which happens as soon as
  more than nine vertices and blossoms are needed, or a recursion or loop that does not end
  (\<open>partial_function\<close>). Vertices and array indices are natural numbers, labels and weights
  integers: no label exceeds \<open>inf\<close> plus a weight, so \<open>int\<close> does not overflow.
\<close>

section \<open>Loops\<close>

text \<open>A loop whose body may return from the function with \<open>true\<close>.\<close>

primrec foldR :: "('s \<Rightarrow> 'a \<Rightarrow> (bool \<times> 's) option) \<Rightarrow> 's \<Rightarrow> 'a list \<Rightarrow> (bool \<times> 's) option" where
  "foldR f s [] = Some (False, s)"
| "foldR f s (x # xs) = do { (r, s') \<leftarrow> f s x; if r then Some (True, s') else foldR f s' xs }"

text \<open>Recursive calls from within a counting loop.\<close>

lemma foldM_mono [partial_function_mono]:
  "(\<And>x s. mono_option (\<lambda>f. B f s x)) \<Longrightarrow> mono_option (\<lambda>f. foldM (B f) s xs)"
  by (induction xs arbitrary: s) (auto intro!: bind_mono option.const_mono)

definition aget2 :: "'a list list \<Rightarrow> nat \<Rightarrow> nat \<Rightarrow> 'a option" where
  "aget2 xss i j = do { xs \<leftarrow> aget xss i; aget xs j }"

definition aset2 :: "'a list list \<Rightarrow> nat \<Rightarrow> nat \<Rightarrow> 'a \<Rightarrow> 'a list list option" where
  "aset2 xss i j v = do { xs \<leftarrow> aget xss i; xs' \<leftarrow> aset xs j v; aset xss i xs' }"

section \<open>Variables\<close>

abbreviation maxn :: nat where "maxn \<equiv> 10"
abbreviation inf_dist :: int where "inf_dist \<equiv> 1061109567"

record edge =
  e_x :: nat
  e_y :: nat
  e_z :: int

record blossom_vars =
  b_g :: "edge list list"
  b_n :: nat
  b_nx :: nat
  b_t :: nat
  b_lab :: "int list"
  b_match :: "nat list"
  b_slack :: "nat list"
  b_st :: "nat list"
  b_pa :: "nat list"
  b_from :: "nat list list"
  b_S :: "int list"
  b_vis :: "nat list"
  b_flower :: "nat list list"
  b_q :: "nat list"

text \<open>Variables of static storage start as zero.\<close>

definition blossom_start :: blossom_vars where
  "blossom_start = \<lparr>b_g = replicate maxn (replicate maxn \<lparr>e_x = 0, e_y = 0, e_z = 0\<rparr>),
     b_n = 0, b_nx = 0, b_t = 0, b_lab = replicate maxn 0, b_match = replicate maxn 0,
     b_slack = replicate maxn 0, b_st = replicate maxn 0, b_pa = replicate maxn 0,
     b_from = replicate maxn (replicate maxn 0), b_S = replicate maxn 0,
     b_vis = replicate maxn 0, b_flower = replicate maxn [], b_q = []\<rparr>"

text \<open>Assignments to array elements.\<close>

definition put_lab :: "nat \<Rightarrow> int \<Rightarrow> blossom_vars \<Rightarrow> blossom_vars option" where
  "put_lab i v s = do { l \<leftarrow> aset (b_lab s) i v; Some (s\<lparr>b_lab := l\<rparr>) }"

definition put_match :: "nat \<Rightarrow> nat \<Rightarrow> blossom_vars \<Rightarrow> blossom_vars option" where
  "put_match i v s = do { l \<leftarrow> aset (b_match s) i v; Some (s\<lparr>b_match := l\<rparr>) }"

definition put_slack :: "nat \<Rightarrow> nat \<Rightarrow> blossom_vars \<Rightarrow> blossom_vars option" where
  "put_slack i v s = do { l \<leftarrow> aset (b_slack s) i v; Some (s\<lparr>b_slack := l\<rparr>) }"

definition put_st :: "nat \<Rightarrow> nat \<Rightarrow> blossom_vars \<Rightarrow> blossom_vars option" where
  "put_st i v s = do { l \<leftarrow> aset (b_st s) i v; Some (s\<lparr>b_st := l\<rparr>) }"

definition put_pa :: "nat \<Rightarrow> nat \<Rightarrow> blossom_vars \<Rightarrow> blossom_vars option" where
  "put_pa i v s = do { l \<leftarrow> aset (b_pa s) i v; Some (s\<lparr>b_pa := l\<rparr>) }"

definition put_S :: "nat \<Rightarrow> int \<Rightarrow> blossom_vars \<Rightarrow> blossom_vars option" where
  "put_S i v s = do { l \<leftarrow> aset (b_S s) i v; Some (s\<lparr>b_S := l\<rparr>) }"

definition put_vis :: "nat \<Rightarrow> nat \<Rightarrow> blossom_vars \<Rightarrow> blossom_vars option" where
  "put_vis i v s = do { l \<leftarrow> aset (b_vis s) i v; Some (s\<lparr>b_vis := l\<rparr>) }"

definition put_flower :: "nat \<Rightarrow> nat list \<Rightarrow> blossom_vars \<Rightarrow> blossom_vars option" where
  "put_flower i v s = do { l \<leftarrow> aset (b_flower s) i v; Some (s\<lparr>b_flower := l\<rparr>) }"

definition put_from :: "nat \<Rightarrow> nat \<Rightarrow> nat \<Rightarrow> blossom_vars \<Rightarrow> blossom_vars option" where
  "put_from i j v s = do { l \<leftarrow> aset2 (b_from s) i j v; Some (s\<lparr>b_from := l\<rparr>) }"

definition put_edge :: "nat \<Rightarrow> nat \<Rightarrow> edge \<Rightarrow> blossom_vars \<Rightarrow> blossom_vars option" where
  "put_edge i j e s = do { l \<leftarrow> aset2 (b_g s) i j e; Some (s\<lparr>b_g := l\<rparr>) }"

definition put_weight :: "nat \<Rightarrow> nat \<Rightarrow> int \<Rightarrow> blossom_vars \<Rightarrow> blossom_vars option" where
  "put_weight i j w s = do { e \<leftarrow> aget2 (b_g s) i j; put_edge i j (e\<lparr>e_z := w\<rparr>) s }"

definition push_flower :: "nat \<Rightarrow> nat \<Rightarrow> blossom_vars \<Rightarrow> blossom_vars option" where
  "push_flower b x s = do { f \<leftarrow> aget (b_flower s) b; put_flower b (f @ [x]) s }"

section \<open>Slacks\<close>

definition edge_dist :: "blossom_vars \<Rightarrow> edge \<Rightarrow> int option" where
  "edge_dist s e = do {
     lx \<leftarrow> aget (b_lab s) (e_x e);
     ly \<leftarrow> aget (b_lab s) (e_y e);
     w \<leftarrow> aget2 (b_g s) (e_x e) (e_y e);
     Some (lx + ly - e_z w * 2)
   }"

definition dist_at :: "blossom_vars \<Rightarrow> nat \<Rightarrow> nat \<Rightarrow> int option" where
  "dist_at s x y = do { e \<leftarrow> aget2 (b_g s) x y; edge_dist s e }"

definition update_slack :: "nat \<Rightarrow> nat \<Rightarrow> blossom_vars \<Rightarrow> blossom_vars option" where
  "update_slack x y s = do {
     v \<leftarrow> aget (b_slack s) y;
     better \<leftarrow> (if v = 0 then Some True
       else do { d \<leftarrow> dist_at s x y; d' \<leftarrow> dist_at s v y; Some (d < d') });
     if better then put_slack y x s else Some s
   }"

definition set_slack :: "nat \<Rightarrow> blossom_vars \<Rightarrow> blossom_vars option" where
  "set_slack y s = do {
     s \<leftarrow> put_slack y 0 s;
     foldM (\<lambda>s x. do {
       e \<leftarrow> aget2 (b_g s) x y;
       if 0 < e_z e then do {
         sx \<leftarrow> aget (b_st s) x;
         if sx \<noteq> y then do {
           c \<leftarrow> aget (b_S s) sx;
           if c = 0 then update_slack x y s else Some s
         } else Some s
       } else Some s
     }) s [1..<Suc (b_n s)]
   }"

section \<open>Flowers\<close>

partial_function (option) q_push :: "nat \<Rightarrow> blossom_vars \<Rightarrow> blossom_vars option" where
  "q_push x s =
     (if x \<le> b_n s then Some (s\<lparr>b_q := b_q s @ [x]\<rparr>)
      else do { f \<leftarrow> aget (b_flower s) x; foldM (\<lambda>s c. q_push c s) s f })"

partial_function (option) set_st :: "nat \<Rightarrow> nat \<Rightarrow> blossom_vars \<Rightarrow> blossom_vars option" where
  "set_st x b s = do {
     s \<leftarrow> put_st x b s;
     if x \<le> b_n s then Some s
     else do { f \<leftarrow> aget (b_flower s) x; foldM (\<lambda>s c. set_st c b s) s f }
   }"

text \<open>\<open>reverse(f.begin() + 1, f.end())\<close> and \<open>rotate(f.begin(), f.begin() + pr, f.end())\<close>.\<close>

definition reverse_tail :: "nat list \<Rightarrow> nat list option" where
  "reverse_tail f = (case f of [] \<Rightarrow> None | c # cs \<Rightarrow> Some (c # rev cs))"

definition rotate_by :: "nat \<Rightarrow> nat list \<Rightarrow> nat list option" where
  "rotate_by pr f = (if pr \<le> length f then Some (drop pr f @ take pr f) else None)"

definition get_pr :: "nat \<Rightarrow> nat \<Rightarrow> blossom_vars \<Rightarrow> (nat \<times> blossom_vars) option" where
  "get_pr b xr s = do {
     f \<leftarrow> aget (b_flower s) b;
     let pr = length (takeWhile (\<lambda>c. c \<noteq> xr) f);
     if pr mod 2 = 1 then do {
       f' \<leftarrow> reverse_tail f;
       s \<leftarrow> put_flower b f' s;
       Some (length f' - pr, s)
     } else Some (pr, s)
   }"

section \<open>Augmenting\<close>

text \<open>The index \<open>i ^ 1\<close>.\<close>

definition partner :: "nat \<Rightarrow> nat" where
  "partner i = (if even i then i + 1 else i - 1)"

partial_function (option) set_match :: "nat \<Rightarrow> nat \<Rightarrow> blossom_vars \<Rightarrow> blossom_vars option" where
  "set_match x y s = do {
     e \<leftarrow> aget2 (b_g s) x y;
     s \<leftarrow> put_match x (e_y e) s;
     if x \<le> b_n s then Some s
     else do {
       xr \<leftarrow> aget2 (b_from s) x (e_x e);
       (pr, s) \<leftarrow> get_pr x xr s;
       s \<leftarrow> foldM (\<lambda>s i. do {
         f \<leftarrow> aget (b_flower s) x;
         a \<leftarrow> aget f i;
         b \<leftarrow> aget f (partner i);
         set_match a b s
       }) s [0..<pr];
       s \<leftarrow> set_match xr y s;
       f \<leftarrow> aget (b_flower s) x;
       f' \<leftarrow> rotate_by pr f;
       put_flower x f' s
     }
   }"

text \<open>\<open>st[match[x]]\<close> and \<open>st[pa[x]]\<close>.\<close>

definition top_mate :: "blossom_vars \<Rightarrow> nat \<Rightarrow> nat option" where
  "top_mate s x = do { m \<leftarrow> aget (b_match s) x; aget (b_st s) m }"

definition top_parent :: "blossom_vars \<Rightarrow> nat \<Rightarrow> nat option" where
  "top_parent s x = do { p \<leftarrow> aget (b_pa s) x; aget (b_st s) p }"

partial_function (option) augment :: "nat \<Rightarrow> nat \<Rightarrow> blossom_vars \<Rightarrow> blossom_vars option" where
  "augment x y s = do {
     xnv \<leftarrow> top_mate s x;
     s \<leftarrow> set_match x y s;
     if xnv = 0 then Some s
     else do {
       p \<leftarrow> top_parent s xnv;
       s \<leftarrow> set_match xnv p s;
       p' \<leftarrow> top_parent s xnv;
       augment p' xnv s
     }
   }"

section \<open>Blossoms\<close>

partial_function (option) lca_loop :: "nat \<Rightarrow> nat \<Rightarrow> blossom_vars \<Rightarrow> (nat \<times> blossom_vars) option" where
  "lca_loop x y s =
     (if x = 0 \<and> y = 0 then Some (0, s)
      else if x = 0 then lca_loop y x s
      else do {
        v \<leftarrow> aget (b_vis s) x;
        if v = b_t s then Some (x, s)
        else do {
          s \<leftarrow> put_vis x (b_t s) s;
          x1 \<leftarrow> top_mate s x;
          x2 \<leftarrow> (if x1 \<noteq> 0 then top_parent s x1 else Some x1);
          lca_loop y x2 s
        }
      })"

definition get_lca :: "nat \<Rightarrow> nat \<Rightarrow> blossom_vars \<Rightarrow> (nat \<times> blossom_vars) option" where
  "get_lca x y s = lca_loop x y (s\<lparr>b_t := b_t s + 1\<rparr>)"

text \<open>The number of the new blossom.\<close>

fun first_free :: "nat list \<Rightarrow> nat \<Rightarrow> nat list \<Rightarrow> nat option" where
  "first_free st dflt [] = Some dflt"
| "first_free st dflt (b # bs) = do { v \<leftarrow> aget st b; if v \<noteq> 0 then first_free st dflt bs else Some b }"

text \<open>One of the two paths from the found edge up to the common ancestor.\<close>

partial_function (option) blossom_path ::
  "nat \<Rightarrow> nat \<Rightarrow> nat \<Rightarrow> blossom_vars \<Rightarrow> blossom_vars option" where
  "blossom_path b lca xx s =
     (if xx = lca then Some s
      else do {
        s \<leftarrow> push_flower b xx s;
        yy \<leftarrow> top_mate s xx;
        s \<leftarrow> push_flower b yy s;
        s \<leftarrow> q_push yy s;
        xx' \<leftarrow> top_parent s yy;
        blossom_path b lca xx' s
      })"

text \<open>The edges and the vertices that the new blossom takes from its child \<open>xs\<close>.\<close>

definition take_edge :: "nat \<Rightarrow> nat \<Rightarrow> blossom_vars \<Rightarrow> nat \<Rightarrow> blossom_vars option" where
  "take_edge b xs s xx = do {
     e \<leftarrow> aget2 (b_g s) b xx;
     closer \<leftarrow> (if e_z e = 0 then Some True
       else do { d \<leftarrow> dist_at s xs xx; d' \<leftarrow> dist_at s b xx; Some (d < d') });
     if closer then do {
       e1 \<leftarrow> aget2 (b_g s) xs xx;
       s \<leftarrow> put_edge b xx e1 s;
       e2 \<leftarrow> aget2 (b_g s) xx xs;
       put_edge xx b e2 s
     } else Some s
   }"

definition take_child :: "nat \<Rightarrow> blossom_vars \<Rightarrow> nat \<Rightarrow> blossom_vars option" where
  "take_child b s xs = do {
     s \<leftarrow> foldM (take_edge b xs) s [1..<Suc (b_nx s)];
     foldM (\<lambda>s xx. do {
       v \<leftarrow> aget2 (b_from s) xs xx;
       if v \<noteq> 0 then put_from b xx xs s else Some s
     }) s [1..<Suc (b_n s)]
   }"

definition add_blossom :: "nat \<Rightarrow> nat \<Rightarrow> nat \<Rightarrow> blossom_vars \<Rightarrow> blossom_vars option" where
  "add_blossom x lca y s = do {
     b \<leftarrow> first_free (b_st s) (max (b_n s + 1) (b_nx s + 1)) [b_n s + 1..<Suc (b_nx s)];
     let s = (if b > b_nx s then s\<lparr>b_nx := b_nx s + 1\<rparr> else s);
     s \<leftarrow> put_lab b 0 s;
     s \<leftarrow> put_S b 0 s;
     m \<leftarrow> aget (b_match s) lca;
     s \<leftarrow> put_match b m s;
     s \<leftarrow> put_flower b [lca] s;
     s \<leftarrow> blossom_path b lca x s;
     f \<leftarrow> aget (b_flower s) b;
     f' \<leftarrow> reverse_tail f;
     s \<leftarrow> put_flower b f' s;
     s \<leftarrow> blossom_path b lca y s;
     s \<leftarrow> set_st b b s;
     s \<leftarrow> foldM (\<lambda>s xx. do { s \<leftarrow> put_weight xx b 0 s; put_weight b xx 0 s }) s [1..<Suc (b_nx s)];
     s \<leftarrow> foldM (\<lambda>s xx. put_from b xx 0 s) s [1..<Suc (b_n s)];
     f \<leftarrow> aget (b_flower s) b;
     s \<leftarrow> foldM (take_child b) s f;
     set_slack b s
   }"

definition expand_blossom :: "nat \<Rightarrow> blossom_vars \<Rightarrow> blossom_vars option" where
  "expand_blossom b s = do {
     f \<leftarrow> aget (b_flower s) b;
     s \<leftarrow> foldM (\<lambda>s c. set_st c c s) s f;
     p \<leftarrow> aget (b_pa s) b;
     e \<leftarrow> aget2 (b_g s) b p;
     xr \<leftarrow> aget2 (b_from s) b (e_x e);
     (pr, s) \<leftarrow> get_pr b xr s;
     f \<leftarrow> aget (b_flower s) b;
     s \<leftarrow> foldM (\<lambda>s i. do {
       xs \<leftarrow> aget f i;
       xns \<leftarrow> aget f (i + 1);
       e \<leftarrow> aget2 (b_g s) xns xs;
       s \<leftarrow> put_pa xs (e_x e) s;
       s \<leftarrow> put_S xs 1 s;
       s \<leftarrow> put_S xns 0 s;
       s \<leftarrow> put_slack xs 0 s;
       s \<leftarrow> set_slack xns s;
       q_push xns s
     }) s (filter even [0..<pr]);
     s \<leftarrow> put_S xr 1 s;
     p \<leftarrow> aget (b_pa s) b;
     s \<leftarrow> put_pa xr p s;
     s \<leftarrow> foldM (\<lambda>s xs. do { s \<leftarrow> put_S xs (- 1) s; set_slack xs s }) s (drop (pr + 1) f);
     put_st b 0 s
   }"

definition on_found_edge :: "edge \<Rightarrow> blossom_vars \<Rightarrow> (bool \<times> blossom_vars) option" where
  "on_found_edge e s = do {
     x \<leftarrow> aget (b_st s) (e_x e);
     y \<leftarrow> aget (b_st s) (e_y e);
     c \<leftarrow> aget (b_S s) y;
     if c = - 1 then do {
       s \<leftarrow> put_pa y (e_x e) s;
       s \<leftarrow> put_S y 1 s;
       nu \<leftarrow> top_mate s y;
       s \<leftarrow> put_slack nu 0 s;
       s \<leftarrow> put_slack y 0 s;
       s \<leftarrow> put_S nu 0 s;
       s \<leftarrow> q_push nu s;
       Some (False, s)
     } else if c = 0 then do {
       (lca, s) \<leftarrow> get_lca x y s;
       if lca = 0 then do {
         s \<leftarrow> augment x y s;
         s \<leftarrow> augment y x s;
         Some (True, s)
       } else do {
         s \<leftarrow> add_blossom x lca y s;
         Some (False, s)
       }
     } else Some (False, s)
   }"

section \<open>The search for an augmenting path\<close>

definition scan_vertex :: "nat \<Rightarrow> blossom_vars \<Rightarrow> nat \<Rightarrow> (bool \<times> blossom_vars) option" where
  "scan_vertex x s y = do {
     e \<leftarrow> aget2 (b_g s) x y;
     if 0 < e_z e then do {
       sx \<leftarrow> aget (b_st s) x;
       sy \<leftarrow> aget (b_st s) y;
       if sx \<noteq> sy then do {
         d \<leftarrow> edge_dist s e;
         if d = 0 then on_found_edge e s
         else do { s \<leftarrow> update_slack x sy s; Some (False, s) }
       } else Some (False, s)
     } else Some (False, s)
   }"

partial_function (option) grow :: "blossom_vars \<Rightarrow> (bool \<times> blossom_vars) option" where
  "grow s = (case b_q s of
     [] \<Rightarrow> Some (False, s)
   | x # xs \<Rightarrow> do {
       let s = s\<lparr>b_q := xs\<rparr>;
       sx \<leftarrow> aget (b_st s) x;
       c \<leftarrow> aget (b_S s) sx;
       if c = 1 then grow s
       else do {
         (r, s) \<leftarrow> foldR (scan_vertex x) s [1..<Suc (b_n s)];
         if r then Some (True, s) else grow s
       }
     })"

text \<open>The step \<open>d\<close> of the labels; the halves are of non-negative numbers or round to zero.\<close>

definition half :: "int \<Rightarrow> int" where
  "half x = (if x < 0 then - (- x div 2) else x div 2)"

definition blossom_delta :: "blossom_vars \<Rightarrow> int option" where
  "blossom_delta s = do {
     d \<leftarrow> foldM (\<lambda>d b. do {
       t \<leftarrow> aget (b_st s) b;
       if t = b then do {
         c \<leftarrow> aget (b_S s) b;
         if c = 1 then do { l \<leftarrow> aget (b_lab s) b; Some (min d (half l)) } else Some d
       } else Some d
     }) inf_dist [b_n s + 1..<Suc (b_nx s)];
     foldM (\<lambda>d x. do {
       t \<leftarrow> aget (b_st s) x;
       v \<leftarrow> aget (b_slack s) x;
       if t = x \<and> v \<noteq> 0 then do {
         c \<leftarrow> aget (b_S s) x;
         if c = - 1 then do { l \<leftarrow> dist_at s v x; Some (min d l) }
         else if c = 0 then do { l \<leftarrow> dist_at s v x; Some (min d (half l)) }
         else Some d
       } else Some d
     }) d [1..<Suc (b_nx s)]
   }"

text \<open>The change of the labels; \<open>True\<close> means that \<open>matching\<close> returns \<open>false\<close>.\<close>

definition update_label :: "int \<Rightarrow> blossom_vars \<Rightarrow> nat \<Rightarrow> (bool \<times> blossom_vars) option" where
  "update_label d s x = do {
     sx \<leftarrow> aget (b_st s) x;
     c \<leftarrow> aget (b_S s) sx;
     l \<leftarrow> aget (b_lab s) x;
     if c = 0 then
       if l \<le> d then Some (True, s)
       else do { s \<leftarrow> put_lab x (l - d) s; Some (False, s) }
     else if c = 1 then do { s \<leftarrow> put_lab x (l + d) s; Some (False, s) }
     else Some (False, s)
   }"

definition update_blossom :: "int \<Rightarrow> blossom_vars \<Rightarrow> nat \<Rightarrow> blossom_vars option" where
  "update_blossom d s b = do {
     t \<leftarrow> aget (b_st s) b;
     if t = b then do {
       c \<leftarrow> aget (b_S s) t;
       l \<leftarrow> aget (b_lab s) b;
       if c = 0 then put_lab b (l + d * 2) s
       else if c = 1 then put_lab b (l - d * 2) s
       else Some s
     } else Some s
   }"

definition try_slack :: "blossom_vars \<Rightarrow> nat \<Rightarrow> (bool \<times> blossom_vars) option" where
  "try_slack s x = do {
     t \<leftarrow> aget (b_st s) x;
     v \<leftarrow> aget (b_slack s) x;
     if t = x \<and> v \<noteq> 0 then do {
       u \<leftarrow> aget (b_st s) v;
       if u \<noteq> x then do {
         d \<leftarrow> dist_at s v x;
         if d = 0 then do { e \<leftarrow> aget2 (b_g s) v x; on_found_edge e s } else Some (False, s)
       } else Some (False, s)
     } else Some (False, s)
   }"

definition try_expand :: "blossom_vars \<Rightarrow> nat \<Rightarrow> blossom_vars option" where
  "try_expand s b = do {
     t \<leftarrow> aget (b_st s) b;
     if t = b then do {
       c \<leftarrow> aget (b_S s) b;
       l \<leftarrow> aget (b_lab s) b;
       if c = 1 \<and> l = 0 then expand_blossom b s else Some s
     } else Some s
   }"

partial_function (option) search_loop :: "blossom_vars \<Rightarrow> (bool \<times> blossom_vars) option" where
  "search_loop s = do {
     (r, s) \<leftarrow> grow s;
     if r then Some (True, s)
     else do {
       d \<leftarrow> blossom_delta s;
       (stop, s) \<leftarrow> foldR (update_label d) s [1..<Suc (b_n s)];
       if stop then Some (False, s)
       else do {
         s \<leftarrow> foldM (update_blossom d) s [b_n s + 1..<Suc (b_nx s)];
         (r, s) \<leftarrow> foldR try_slack (s\<lparr>b_q := []\<rparr>) [1..<Suc (b_nx s)];
         if r then Some (True, s)
         else do {
           s \<leftarrow> foldM try_expand s [b_n s + 1..<Suc (b_nx s)];
           search_loop s
         }
       }
     }
   }"

definition matching :: "blossom_vars \<Rightarrow> (bool \<times> blossom_vars) option" where
  "matching s = do {
     let s = s\<lparr>b_S := replicate maxn (- 1), b_slack := replicate maxn 0, b_q := []\<rparr>;
     s \<leftarrow> foldM (\<lambda>s x. do {
       t \<leftarrow> aget (b_st s) x;
       m \<leftarrow> aget (b_match s) x;
       if t = x \<and> m = 0 then do {
         s \<leftarrow> put_pa x 0 s;
         s \<leftarrow> put_S x 0 s;
         q_push x s
       } else Some s
     }) s [1..<Suc (b_nx s)];
     if b_q s = [] then Some (False, s) else search_loop s
   }"

section \<open>The weight of a maximum matching\<close>

partial_function (option) match_all :: "nat \<Rightarrow> blossom_vars \<Rightarrow> (nat \<times> blossom_vars) option" where
  "match_all k s = do {
     (r, s) \<leftarrow> matching s;
     if r then match_all (k + 1) s else Some (k, s)
   }"

definition weight_blossom :: "blossom_vars \<Rightarrow> ((int \<times> nat) \<times> blossom_vars) option" where
  "weight_blossom s = do {
     let n = b_n s;
     let s = s\<lparr>b_match := replicate maxn 0, b_nx := n\<rparr>;
     s \<leftarrow> foldM (\<lambda>s x. do { s \<leftarrow> put_st x x s; put_flower x [] s }) s [0..<Suc n];
     (w_max, s) \<leftarrow> foldM (\<lambda>st x. foldM (\<lambda>(w, s) y. do {
         s \<leftarrow> put_from x y (if x = y then x else 0) s;
         e \<leftarrow> aget2 (b_g s) x y;
         Some (max w (e_z e), s)
       }) st [1..<Suc n]) (0, s) [1..<Suc n];
     s \<leftarrow> foldM (\<lambda>s x. put_lab x w_max s) s [1..<Suc n];
     (n_matches, s) \<leftarrow> match_all 0 s;
     tot \<leftarrow> foldM (\<lambda>tot x. do {
       m \<leftarrow> aget (b_match s) x;
       if m \<noteq> 0 \<and> m < x then do { e \<leftarrow> aget2 (b_g s) x m; Some (tot + e_z e) } else Some tot
     }) 0 [1..<Suc n];
     Some ((tot, n_matches), s)
   }"

definition init_edges :: "nat \<Rightarrow> blossom_vars \<Rightarrow> blossom_vars option" where
  "init_edges n s = foldM (\<lambda>s x. foldM (\<lambda>s y.
     put_edge x y \<lparr>e_x = x, e_y = y, e_z = 0\<rparr> s) s [1..<Suc n]) s [1..<Suc n]"

definition input_edges :: "nat \<Rightarrow> generator \<times> blossom_vars \<Rightarrow> (generator \<times> blossom_vars) option" where
  "input_edges n st = foldM (\<lambda>st x. foldM (\<lambda>(g, s) y.
     if x = y then Some (g, s)
     else do {
       (c, g) \<leftarrow> get_cost g (x - 1) (y - 1);
       s \<leftarrow> put_weight y x (100 - int c) s;
       s \<leftarrow> put_weight x y (100 - int c) s;
       Some (g, s)
     }) st [1..<Suc n]) st [1..<Suc n]"

text \<open>The guard looks at the number of vertices of the previous call: \<open>n * 1.5 > maxn\<close>.\<close>

definition blossom :: "generator \<Rightarrow> blossom_vars \<Rightarrow> (int \<times> generator \<times> blossom_vars) option" where
  "blossom g s =
     (if 3 * b_n s > 2 * maxn then Some (- 1, g, s)
      else do {
        let n = stripes_num g;
        s \<leftarrow> init_edges n (s\<lparr>b_n := n\<rparr>);
        (g, s) \<leftarrow> input_edges n (g, s);
        ((w, k), s) \<leftarrow> weight_blossom s;
        Some (int (stripes_num g div 2) * 100 - w, g, s)
      })"

text \<open>The recursions can be executed.\<close>

lemmas blossom_code [code] = q_push.simps set_st.simps set_match.simps augment.simps lca_loop.simps
  blossom_path.simps grow.simps search_loop.simps match_all.simps

section \<open>Shape\<close>

text \<open>The sizes of the arrays, and that no vertex was visited in a later search.\<close>

definition shape :: "blossom_vars \<Rightarrow> bool" where
  "shape s \<longleftrightarrow> length (b_g s) = maxn \<and> (\<forall>i < maxn. length (b_g s ! i) = maxn) \<and>
     length (b_lab s) = maxn \<and> length (b_match s) = maxn \<and> length (b_slack s) = maxn \<and>
     length (b_st s) = maxn \<and> length (b_pa s) = maxn \<and> length (b_from s) = maxn \<and>
     (\<forall>i < maxn. length (b_from s ! i) = maxn) \<and> length (b_S s) = maxn \<and>
     length (b_vis s) = maxn \<and> length (b_flower s) = maxn \<and> (\<forall>i < maxn. b_vis s ! i \<le> b_t s)"

lemma blossom_start_shape: "shape blossom_start"
  by (simp add: shape_def blossom_start_def)

lemma shape_rows:
  assumes "shape s" and "i < maxn"
  shows "length (b_g s ! i) = maxn" "length (b_from s ! i) = maxn" "b_vis s ! i \<noteq> Suc (b_t s)"
  using assms by (auto simp: shape_def dest: spec [of _ i])

text \<open>Evaluation: a continuation is looked at only when it is reached.\<close>

lemma bind_lazy: "m = m' \<Longrightarrow> Option.bind m f = Option.bind m' f"
  by simp

lemma upt_small [simp]:
  "[1..<2] = [1 :: nat]" "[1..<3] = [1, 2 :: nat]" "[0..<3] = [0, 1, 2 :: nat]" "[0..<2] = [0, 1 :: nat]"
  "[0..<Suc 0] = [0 :: nat]" "[1..<Suc 0] = ([] :: nat list)" "[Suc 0..<Suc 0] = ([] :: nat list)"
  "[1..<1] = ([] :: nat list)" "[2..<2] = ([] :: nat list)" "[3..<3] = ([] :: nat list)"
  by (simp_all add: upt_rec)

lemmas put_defs = put_lab_def put_match_def put_slack_def put_st_def put_pa_def put_S_def put_vis_def
  put_flower_def put_from_def put_edge_def put_weight_def push_flower_def aget2_def aset2_def

lemmas search_defs = weight_blossom_def match_all.simps matching_def search_loop.simps grow.simps
  q_push.simps scan_vertex_def edge_dist_def on_found_edge_def get_lca_def lca_loop.simps
  top_mate_def augment.simps set_match.simps blossom_delta_def update_label_def Let_def

section \<open>Up to two stripes\<close>

text \<open>The array of edges after its initialisation.\<close>

definition edges_are :: "nat \<Rightarrow> int \<Rightarrow> blossom_vars \<Rightarrow> bool" where
  "edges_are n w s \<longleftrightarrow> shape s \<and> b_n s = n \<and>
     (\<forall>x \<in> {1..n}. \<forall>y \<in> {1..n}. b_g s ! x ! y = \<lparr>e_x = x, e_y = y, e_z = (if x = y then 0 else w)\<rparr>)"

lemma weight_none:
  assumes "shape s" and "b_n s = 0"
  shows "\<exists>s'. weight_blossom s = Some ((0, 0), s') \<and> b_n s' = 0"
  using assms shape_rows [OF assms(1), of 1] shape_rows [OF assms(1), of 2]
  by (simp cong: bind_lazy add: shape_def put_defs search_defs del: One_nat_def upt_Suc)

lemma weight_one:
  assumes "edges_are 1 0 s"
  shows "\<exists>s'. weight_blossom s = Some ((0, 0), s') \<and> b_n s' = 1"
  using assms
  by (simp cong: bind_lazy add: edges_are_def shape_def put_defs search_defs del: One_nat_def upt_Suc)

lemma weight_two:
  assumes "edges_are 2 w s" and "0 < w"
  shows "\<exists>s'. weight_blossom s = Some ((w, 1), s') \<and> b_n s' = 2"
proof -
  have s: "shape s" "b_n s = 2" using assms(1) by (simp_all add: edges_are_def)
  have e: "b_g s ! 1 ! 1 = \<lparr>e_x = 1, e_y = 1, e_z = 0\<rparr>" "b_g s ! 1 ! 2 = \<lparr>e_x = 1, e_y = 2, e_z = w\<rparr>"
    "b_g s ! 2 ! 1 = \<lparr>e_x = 2, e_y = 1, e_z = w\<rparr>" "b_g s ! 2 ! 2 = \<lparr>e_x = 2, e_y = 2, e_z = 0\<rparr>"
    using assms(1) by (simp_all add: edges_are_def)
  show ?thesis
    using assms(2) s e shape_rows [OF s(1), of 1] shape_rows [OF s(1), of 2]
    by (simp cong: bind_lazy add: shape_def put_defs search_defs del: One_nat_def upt_Suc)
qed

lemma init_small:
  assumes "shape s" and "b_n s \<le> 2"
  shows "\<exists>s'. init_edges (b_n s) s = Some s' \<and> edges_are (b_n s) 0 s'"
proof -
  have two: "{1..2 :: nat} = {1, 2}" by auto
  consider "b_n s = 0" | "b_n s = 1" | "b_n s = 2" using assms(2) by linarith
  then show ?thesis
    using assms(1) shape_rows(1) [OF assms(1), of 1] shape_rows(1) [OF assms(1), of 2] unfolding shape_def
    by cases (auto cong: bind_lazy simp: two edges_are_def shape_def init_edges_def put_defs nth_list_update
      simp del: One_nat_def upt_Suc)
qed

lemma input_two:
  assumes "edges_are 2 0 s" and "wf_gen g" and "stripes_num g = 2"
  shows "\<exists>s' g'. input_edges 2 (g, s) = Some (g', s') \<and>
    edges_are 2 (100 - int (pair_cost g 0 1)) s' \<and> stripes_num g' = 2"
proof -
  obtain g1 where g1: "get_cost g 0 1 = Some (pair_cost g 0 1, g1)" "wf_gen g1" "same_but_memo g g1"
    using get_cost_total [OF assms(2), of 0 1] assms(3) by auto
  have n: "stripes_num g1 = 2" using assms(3) same_but_memo_fields(3) [OF g1(3)] by simp
  have c: "pair_cost g1 1 0 = pair_cost g 0 1"
    unfolding same_but_memo_pair_cost [OF g1(3)] by (rule pair_cost_sym)
  obtain g2 where g2: "get_cost g1 1 0 = Some (pair_cost g 0 1, g2)" "stripes_num g2 = 2"
    using get_cost_total [OF g1(2), of 1 0] n unfolding c by (auto dest: same_but_memo_fields(3))
  have s: "shape s" using assms(1) by (simp add: edges_are_def)
  have two: "{1..2 :: nat} = {1, 2}" by auto
  have one: "pair_cost g 0 1 = pair_cost g 0 (Suc 0)" by simp
  show ?thesis
    using assms(1) shape_rows(1) [OF s, of 1] shape_rows(1) [OF s, of 2] unfolding edges_are_def two
    by (auto cong: bind_lazy simp: shape_def input_edges_def put_defs
      g1(1) [unfolded One_nat_def] g2 [unfolded One_nat_def] one nth_list_update simp del: One_nat_def upt_Suc)
qed

section \<open>The bound\<close>

lemma put_edge_shape:
  assumes "put_edge x y e s = Some s'" and "length (b_g s) = maxn \<and> (\<forall>i < maxn. length (b_g s ! i) = maxn)"
  shows "length (b_g s') = maxn \<and> (\<forall>i < maxn. length (b_g s' ! i) = maxn)"
  using assms by (auto simp: put_edge_def aset2_def bind_eq_Some_conv aget_Some_iff aset_Some_iff
      nth_list_update)

text \<open>Ten vertices do not fit: the array has no element \<open>g[1][10]\<close>.\<close>

lemma init_edges_too_many:
  assumes "shape s" and "maxn \<le> n"
  shows "init_edges n s = None"
proof -
  let ?I = "\<lambda>s. length (b_g s) = maxn \<and> (\<forall>i < maxn. length (b_g s ! i) = maxn)"
  let ?f = "\<lambda>s y. put_edge 1 y \<lparr>e_x = 1, e_y = y, e_z = 0\<rparr> s"
  have "[1..<Suc n] = [1..<maxn] @ maxn # [Suc maxn..<Suc n]"
    using assms(2) upt_add_eq_append [of 1 maxn "Suc n - maxn"] upt_conv_Cons [of maxn "Suc n"] by simp
  moreover have "put_edge 1 maxn e s = None" if "?I s" for e s
    using that by (simp add: put_edge_def aset2_def aget_def aset_def)
  moreover have "?I s'" if "foldM ?f s [1..<maxn] = Some s'" for s'
    using that assms(1) by (rule_tac foldM_invariant [of ?f s "[1..<maxn]"])
      (auto simp: shape_def dest: put_edge_shape)
  ultimately have "foldM ?f s [1..<Suc n] = None"
    by (cases "foldM ?f s [1..<maxn]") (simp_all add: foldM_append)
  moreover have "[1..<Suc n] = 1 # [2..<Suc n]"
    using assms(2) upt_conv_Cons [of 1 "Suc n"] by (simp add: numeral_2_eq_2 del: upt_Suc)
  ultimately show ?thesis by (simp add: init_edges_def)
qed

section \<open>Properties\<close>



text \<open>C39. The guard of \<open>blossom\<close> does not protect its arrays: it tests the number of vertices of
  the call before. A first call with ten or more stripes accesses an array out of bounds, and once a
  call with seven or more stripes has set that number, every later call only returns -1.\<close>

theorem blossom_guard:
  "(shape s \<and> b_n s \<le> 6 \<and> 10 \<le> stripes_num g \<longrightarrow> blossom g s = None) \<and>
   (7 \<le> b_n s \<longrightarrow> blossom g s = Some (- 1, g, s))"
proof -
  have "shape (s\<lparr>b_n := stripes_num g\<rparr>)" if "shape s" using that by (simp add: shape_def)
  then show ?thesis using init_edges_too_many by (auto simp: blossom_def)
qed

theorem blossom_guard_witness:
  "blossom (new_generator None None 9 2 1 20) blossom_start = None"
  using blossom_guard [of blossom_start "new_generator None None 9 2 1 20"] blossom_start_shape
  by (simp add: blossom_start_def new_generator_def)

end
