(* ===== verification/Memory_Stats.thy ===== *)
theory Memory_Stats
  imports Greedy Complex_Main
begin

text \<open>
  The helpers of \<open>MatchingGenerator\<close> that its programs do not use (src/matching_generator.cc): the
  query of a cost by token, and \<open>build_map_test\<close>, which builds the index and adds up the memory it takes.
  The sizes of the compiler's types are parameters, and so is the order in which the hash
  maps are iterated. The output of \<open>print_mem_size\<close> is the number and the unit it prints.
\<close>

section \<open>Operations\<close>

definition get_cost_token :: "generator \<Rightarrow> token \<Rightarrow> (nat \<times> generator) option" where
  "get_cost_token g token = get_cost g (unat (0xFFFFFFFF AND token)) (unat (0xFFFFFFFF AND drop_bit 32 token))"

datatype mem_unit = Byte | KiB | MiB

definition print_mem_size :: "nat \<Rightarrow> rat \<times> mem_unit" where
  "print_mem_size s =
     (if s < 2 ^ 10 then (of_nat s, Byte)
      else if s < 2 ^ 20 then (of_nat s / 1024, KiB)
      else (of_nat s / 1024 / 1024, MiB))"

text \<open>\<open>sizeof\<close> of the types.\<close>

record type_sizes =
  sz_char16 :: nat
  sz_uint :: nat
  sz_list :: nat
  sz_map :: nat
  sz_stripe :: nat
  sz_generator :: nat

record counters =
  key_count :: nat
  key_len_count :: nat
  set_size_count :: nat

definition count_entry :: "(nat list \<Rightarrow> nat list option) \<Rightarrow> nat list \<Rightarrow> counters \<Rightarrow> counters" where
  "count_entry m key c = \<lparr>key_count = wrap64 (key_count c + 1),
     key_len_count = wrap64 (key_len_count c + length key),
     set_size_count = wrap64 (set_size_count c + length (the (m key)))\<rparr>"

definition count_map ::
  "((nat list \<Rightarrow> nat list option) \<Rightarrow> nat list list) \<Rightarrow> (nat list \<Rightarrow> nat list option) \<Rightarrow> counters \<Rightarrow> counters" where
  "count_map order m c = fold (count_entry m) (order m) c"

definition build_map_test ::
  "type_sizes \<Rightarrow> ((nat list \<Rightarrow> nat list option) \<Rightarrow> nat list list) \<Rightarrow> generator \<Rightarrow>
    ((rat \<times> mem_unit) \<times> (rat \<times> mem_unit) \<times> generator) option" where
  "build_map_test sz order g = do {
     g' \<leftarrow> build_map g;
     let c = count_map order (partial_dist_map g')
       (count_map order (parity_map g') \<lparr>key_count = 0, key_len_count = 0, set_size_count = 0\<rparr>);
     let p_mem = wrap64 (key_len_count c * sz_char16 sz + key_count c * sz_map sz +
       set_size_count c * sz_list sz + length (remaining_stripes g') * sz_uint sz);
     let common = wrap64 (sz_generator sz + p_mem);
     let common = wrap64 (common + stripes_num g' * (sz_stripe sz + sz_char16 sz * rs_n g'));
     let common = wrap64 (common + length (cost_table g'));
     Some (print_mem_size p_mem, print_mem_size common, g')
   }"

section \<open>The token of a pair\<close>

lemma get_cost_token_eq:
  "i < 4294967296 \<Longrightarrow> j < 4294967296 \<Longrightarrow> get_cost_token g (make_token i j) = get_cost g i j"
  using token_roundtrip [of i j] by (simp add: get_cost_token_def token_i_def token_j_def and.commute)

section \<open>What the loops over the maps count\<close>

text \<open>An iteration over a map meets every key once.\<close>

definition iterates :: "((nat list \<Rightarrow> nat list option) \<Rightarrow> nat list list) \<Rightarrow> bool" where
  "iterates order \<longleftrightarrow> (\<forall>m. finite (dom m) \<longrightarrow> distinct (order m) \<and> set (order m) = dom m)"

lemma iterates_ex: "\<exists>order. iterates order"
proof -
  have "\<exists>ks. finite (dom m) \<longrightarrow> distinct ks \<and> set ks = dom m" for m :: "nat list \<Rightarrow> nat list option"
    using finite_distinct_list [of "dom m"] by (cases "finite (dom m)") auto
  then have "\<exists>order. \<forall>m :: nat list \<Rightarrow> nat list option.
      finite (dom m) \<longrightarrow> distinct (order m) \<and> set (order m) = dom m"
    by (intro choice allI)
  then show ?thesis unfolding iterates_def .
qed

lemma fold_count_entry:
  assumes "distinct ks"
  shows "\<exists>a b d. fold (count_entry m) ks c = \<lparr>key_count = a, key_len_count = b, set_size_count = d\<rparr> \<and>
    wrap64 a = wrap64 (key_count c + card (set ks)) \<and>
    wrap64 b = wrap64 (key_len_count c + (\<Sum>k \<in> set ks. length k)) \<and>
    wrap64 d = wrap64 (set_size_count c + (\<Sum>k \<in> set ks. length (the (m k))))"
  using assms
proof (induction ks arbitrary: c)
  case Nil
  then show ?case by (cases c) simp
next
  case (Cons k ks)
  from Cons.prems have ks: "distinct ks" and k: "k \<notin> set ks" by simp_all
  from Cons.IH [OF ks, of "count_entry m k c"] obtain a b d where
    r: "fold (count_entry m) ks (count_entry m k c) = \<lparr>key_count = a, key_len_count = b, set_size_count = d\<rparr>"
      "wrap64 a = wrap64 (wrap64 (key_count c + 1) + card (set ks))"
      "wrap64 b = wrap64 (wrap64 (key_len_count c + length k) + (\<Sum>k \<in> set ks. length k))"
      "wrap64 d = wrap64 (wrap64 (set_size_count c + length (the (m k))) + (\<Sum>k \<in> set ks. length (the (m k))))"
    unfolding count_entry_def by auto
  show ?case
    using r k by (intro exI [of _ a] exI [of _ b] exI [of _ d]) (simp add: wrap64_def mod_simps add.assoc)
qed

text \<open>Every element that is listed under some keys is counted as often as it has keys.\<close>

lemma sum_listed:
  assumes "finite K" and "\<And>i. i \<in> set is \<Longrightarrow> S i \<subseteq> K"
  shows "(\<Sum>k \<in> K. length (filter (\<lambda>i. k \<in> S i) is)) = (\<Sum>i \<leftarrow> is. card (S i))"
  using assms(2)
proof (induction "is")
  case (Cons i "is")
  have "(\<Sum>k \<in> K. length (filter (\<lambda>i. k \<in> S i) (i # is))) =
      (\<Sum>k \<in> K. (if k \<in> S i then 1 else 0) + length (filter (\<lambda>i. k \<in> S i) is))"
    by (rule sum.cong) simp_all
  also have "\<dots> = card (K \<inter> S i) + (\<Sum>i \<leftarrow> is. card (S i))"
    using Cons assms(1) by (simp add: sum.distrib sum.If_cases)
  also have "K \<inter> S i = S i" using Cons.prems [of i] by auto
  finally show ?case by simp
qed simp

text \<open>A map in which every key lists something.\<close>

definition no_empty :: "(nat list \<Rightarrow> nat list option) \<Rightarrow> bool" where
  "no_empty m \<longleftrightarrow> (\<forall>k. m k \<noteq> Some [])"

lemma no_empty_push: "no_empty m \<Longrightarrow> no_empty (index_push m k i)"
  by (auto simp: no_empty_def index_push_def split: option.splits)

lemma no_empty_fold: "no_empty m \<Longrightarrow> no_empty (fold (\<lambda>k m. index_push m k i) ks m)"
  by (induction ks arbitrary: m) (simp_all add: no_empty_push)

lemma no_empty_dom: "no_empty m \<Longrightarrow> dom m = {k. listed m k \<noteq> []}"
  by (auto simp: no_empty_def listed_def split: option.splits)

lemma listed_the: "k \<in> dom m \<Longrightarrow> the (m k) = listed m k"
  by (auto simp: listed_def)

text \<open>A map in which every element of \<open>is\<close> is listed under its keys.\<close>

lemma count_index:
  assumes "\<And>i. i \<in> set is \<Longrightarrow> distinct (ks i)"
  defines "m \<equiv> fold (\<lambda>i m. fold (\<lambda>k m. index_push m k i) (ks i) m) is Map.empty"
  shows "dom m = (\<Union>i \<in> set is. set (ks i))"
    "(\<Sum>k \<in> dom m. length (the (m k))) = (\<Sum>i \<leftarrow> is. length (ks i))"
proof -
  have l: "listed m k = filter (\<lambda>i. k \<in> set (ks i)) is" for k
    unfolding m_def using pidx.bucket_push_all [where m = Map.empty and k' = k, OF assms(1)] by (simp add: listed_def)
  have "no_empty (fold (\<lambda>i m. fold (\<lambda>k m. index_push m k i) (ks i) m) js m')" if "no_empty m'" for js m'
    using that by (induction js arbitrary: m') (simp_all add: no_empty_fold)
  from this [of Map.empty "is"] have "no_empty m" by (simp add: m_def no_empty_def)
  then show d: "dom m = (\<Union>i \<in> set is. set (ks i))"
    by (auto simp: no_empty_dom l filter_empty_conv)
  have "(\<Sum>k \<in> dom m. length (the (m k))) = (\<Sum>k \<in> dom m. length (filter (\<lambda>i. k \<in> set (ks i)) is))"
    by (intro sum.cong) (simp_all add: listed_the l)
  also have "\<dots> = (\<Sum>i \<leftarrow> is. card (set (ks i)))"
    by (rule sum_listed) (auto simp: d)
  also have "\<dots> = (\<Sum>i \<leftarrow> is. length (ks i))"
    using assms(1) by (intro arg_cong [where f = sum_list] map_cong) (simp_all add: distinct_card)
  finally show "(\<Sum>k \<in> dom m. length (the (m k))) = (\<Sum>i \<leftarrow> is. length (ks i))" .
qed

text \<open>The counters wrap around, and so does what is computed from them.\<close>

lemma wrap64_add: "wrap64 a = wrap64 a' \<Longrightarrow> wrap64 b = wrap64 b' \<Longrightarrow> wrap64 (a + b) = wrap64 (a' + b')"
  unfolding wrap64_def by (rule mod_add_cong)

lemma wrap64_mult: "wrap64 a = wrap64 a' \<Longrightarrow> wrap64 (a * c) = wrap64 (a' * c)"
  unfolding wrap64_def by (rule mod_mult_cong) simp_all

lemma wrap64_wrap: "wrap64 (wrap64 a + b) = wrap64 (a + b)" "wrap64 (a + wrap64 b) = wrap64 (a + b)"
  by (simp_all add: wrap64_def mod_simps)

section \<open>Properties\<close>

text \<open>C32. The memory that \<open>build_map_test\<close> reports for the index of a loaded generator, whatever the order in
  which the maps are iterated: for every different parity placement and every different partial key
  the bytes of the key and a map entry; for every stripe \<open>2 ^ m\<close> entries in the lists, one for its
  placement and one for each non-empty set of its parity positions; then the list of the remaining
  stripes. The second number adds the stripes and one byte for every pair of stripes.\<close>

theorem build_map_test_counts:
  assumes "good_input nodes k m pls" and "m \<le> 7" and "iterates order"
    and "n = length pls" and "P = snd ` set pls"
    and "K = (\<Union>pl \<in> set pls. set (mask_keys (2 ^ m) (snd pl)))"
    and "p_mem = (card P * m + (\<Sum>q \<in> K. length q)) * sz_char16 sz + (card P + card K) * sz_map sz +
      n * 2 ^ m * sz_list sz + n * sz_uint sz"
  shows "\<exists>g g'. load_generator None None nodes k m pls = Some g \<and> build_map g = Some g' \<and>
    build_map_test sz order g = Some (print_mem_size (wrap64 p_mem), print_mem_size (wrap64
      (sz_generator sz + p_mem + n * (sz_stripe sz + sz_char16 sz * (k + m)) + n * (n - 1) div 2)), g')"
proof -
  from load_generator_total [OF assms(1), of None None] obtain g where
    g: "load_generator None None nodes k m pls = Some g" "wf_gen g" "stripes_num g = n"
      "fresh_gen g" "g_params g = set_params nodes k m"
      "\<forall>i < length pls. stripes g ! i = loaded_stripe i (pls ! i)"
    by (auto simp: assms(4))
  let ?is = "[0..<n]" and ?up = "2 ^ m :: nat"
  have p: "stripe_parity g i = snd (pls ! i)" if "i < n" for i
    using g(6) that by (simp add: stripe_parity_def loaded_stripe_def assms(4))
  define pm where "pm = fold (\<lambda>i m. index_push m (stripe_parity g i) i) ?is Map.empty"
  define pd where "pd = fold (\<lambda>i m. fold (\<lambda>k m. index_push m k i) (mask_keys ?up (stripe_parity g i)) m) ?is Map.empty"
  define g' where "g' = g\<lparr>parity_map := pm, remaining_stripes := ?is, partial_dist_map := pd\<rparr>"
  have b: "build_map g = Some g'"
    using foldM_index_stripe [of ?is g ?up] g assms(2) wf_gen_length [OF g(2)]
    by (simp add: build_map_def upside_small g'_def pm_def pd_def fresh_gen_def set_params_def)
  have pls: "set pls = (\<lambda>i. pls ! i) ` {0..<n}"
    unfolding assms(4) by (metis image_set map_nth set_upt)
  have dp: "dom pm = P" "(\<Sum>k \<in> P. length (the (pm k))) = n"
  proof -
    note c = count_index [of ?is "\<lambda>i. [stripe_parity g i]", simplified, folded pm_def]
    show "dom pm = P" unfolding c(1) assms(5) pls using p by (auto simp: image_iff)
    with c(2) show "(\<Sum>k \<in> P. length (the (pm k))) = n" by (simp add: sum_list_triv)
  qed
  have dk: "dom pd = K" "(\<Sum>k \<in> K. length (the (pd k))) = n * (2 ^ m - 1)"
  proof -
    note c = count_index [of ?is "\<lambda>i. mask_keys ?up (stripe_parity g i)", OF distinct_mask_keys, folded pd_def]
    show "dom pd = K" unfolding c(1) assms(6) pls using p by simp
    with c(2) show "(\<Sum>k \<in> K. length (the (pd k))) = n * (2 ^ m - 1)"
      by (simp add: mask_keys_def sum_list_triv)
  qed
  have fin: "finite P" "finite K" by (simp_all add: assms(5,6))
  have "length q = m" if "q \<in> P" for q
    using that assms(1) by (auto simp: assms(5) good_input_def valid_placement_def)
  then have len: "(\<Sum>q \<in> P. length q) = card P * m" by simp
  have o: "distinct (order pm)" "set (order pm) = P" "distinct (order pd)" "set (order pd) = K"
    using assms(3) fin dp(1) dk(1) by (auto simp: iterates_def)
  let ?c0 = "\<lparr>key_count = 0, key_len_count = 0, set_size_count = 0\<rparr>"
  obtain a b' d where c1: "count_map order pm ?c0 = \<lparr>key_count = a, key_len_count = b', set_size_count = d\<rparr>"
    "wrap64 a = wrap64 (card P)" "wrap64 b' = wrap64 (card P * m)" "wrap64 d = wrap64 n"
    using fold_count_entry [OF o(1), of pm ?c0] dp(2) len by (auto simp: count_map_def o(2))
  obtain x y z where c2: "count_map order pd (count_map order pm ?c0) =
      \<lparr>key_count = x, key_len_count = y, set_size_count = z\<rparr>"
    "wrap64 x = wrap64 (a + card K)" "wrap64 y = wrap64 (b' + (\<Sum>q \<in> K. length q))"
    "wrap64 z = wrap64 (d + n * (2 ^ m - 1))"
    using fold_count_entry [OF o(3), of pd "count_map order pm ?c0"] dk(2)
    by (auto simp: count_map_def o(4) c1(1) [unfolded count_map_def])
  have n: "n + n * (2 ^ m - 1) = n * 2 ^ m"
    by (metis (no_types) One_nat_def Suc_pred mult_Suc_right pos2 zero_less_power)
  have "wrap64 x = wrap64 (card P + card K)" "wrap64 y = wrap64 (card P * m + (\<Sum>q \<in> K. length q))"
    "wrap64 z = wrap64 (n * 2 ^ m)"
    using c2(2-4) wrap64_add [OF c1(2) refl, of "card K"] wrap64_add [OF c1(3) refl, of "\<Sum>q \<in> K. length q"]
      wrap64_add [OF c1(4) refl, of "n * (2 ^ m - 1)"] n by simp_all
  then have mem: "wrap64 (y * sz_char16 sz + x * sz_map sz + z * sz_list sz + n * sz_uint sz) = wrap64 p_mem"
    unfolding assms(7) by (intro wrap64_add wrap64_mult refl)
  have f: "stripes_num g' = n" "length (cost_table g') = n * (n - 1) div 2" "length (remaining_stripes g') = n"
    "rs_n g' = k + m" "parity_map g' = pm" "partial_dist_map g' = pd"
    using g(2,3,5) by (simp_all add: g'_def wf_gen_def wf_table_def wf_config_def set_params_def)
  have "build_map_test sz order g = Some (print_mem_size (wrap64 p_mem), print_mem_size (wrap64 (wrap64 (wrap64
      (sz_generator sz + wrap64 p_mem) + n * (sz_stripe sz + sz_char16 sz * (k + m))) + n * (n - 1) div 2)), g')"
    by (simp add: build_map_test_def b f c2(1) mem Let_def)
  then show ?thesis using g(1) b by (simp add: wrap64_wrap)
qed

text \<open>The sizes of a 64-bit system, and three stripes of which two have the same parity placement: two
  keys of two nodes, five partial keys of together twelve, and \<open>3 * 4\<close> list entries.\<close>

theorem build_map_test_counts_witness:
  "\<exists>order g g'. iterates order \<and>
    load_generator None None 6 1 2 [([0], [1, 2]), ([3], [1, 4]), ([5], [1, 2])] = Some g \<and>
    build_map_test \<lparr>sz_char16 = 2, sz_uint = 4, sz_list = 24, sz_map = 56, sz_stripe = 80, sz_generator = 256\<rparr>
      order g = Some (print_mem_size 724, print_mem_size (724 + 256 + 3 * 86 + 3), g')"
proof -
  let ?pls = "[([0], [1, 2]), ([3], [1, 4]), ([5], [1, 2])] :: (nat list \<times> nat list) list"
  let ?sz = "\<lparr>sz_char16 = 2, sz_uint = 4, sz_list = 24, sz_map = 56, sz_stripe = 80, sz_generator = 256\<rparr>"
  have good: "good_input 6 1 2 ?pls" by (simp add: good_input_def valid_placement_def)
  obtain order where it: "iterates order" using iterates_ex by blast
  have P: "snd ` set ?pls = {[1, 2], [1, 4]}" by auto
  have keys: "mask_keys (2 ^ 2) [a, b] = [[a, 1], [b, 2], [a, b, 3]]" for a b
    by (simp add: mask_keys_def partial_key_def upt_rec)
  have K: "(\<Union>pl \<in> set ?pls. set (mask_keys (2 ^ 2) (snd pl))) = {[1, 1], [2, 2], [1, 2, 3], [4, 2], [1, 4, 3]}"
    by (simp only: set_simps image_insert image_empty UN_insert UN_empty snd_conv keys) auto
  from build_map_test_counts [OF good _ it refl P [symmetric] K [symmetric] refl, of ?sz]
  show ?thesis using it by (fastforce simp: wrap64_def)
qed

end
